(* ===== verification/Prelude.thy ===== *)
theory Prelude
  imports Main "HOL-Library.Word" "HOL-Library.Monad_Syntax"
begin

text \<open>
  Shared ground of the development.
  \<^item> Theorem collections: \<open>c_string_simps\<close> (the C string routines on concrete
    positions) and \<open>run_simps\<close> (unfolding one step of a machine).
  \<^item> C memory in the small: a character buffer is a \<^typ>\<open>char list\<close>, a pointer into
    it is an index.
  \<^item> The interface \<open>invariant_system\<close>: a start predicate, a step relation and a state
    predicate that the start states have and every step keeps, so that it holds in every
    reachable state; the concurrent programs of the library interpret it, through the
    locale of thread programs, on their own start states and steps.
\<close>

named_theorems c_string_simps \<open>C strings and character tests\<close>
named_theorems run_simps \<open>one step of a machine\<close>

type_synonym tid = nat
type_synonym u8 = "8 word"
type_synonym u16 = "16 word"
type_synonym u32 = "32 word"
type_synonym u64 = "64 word"

abbreviation NUL :: char where "NUL \<equiv> CHR 0x00"
abbreviation NL :: char where "NL \<equiv> CHR 0x0A"

subsection \<open>Step relations and their invariants\<close>

inductive reach :: "('s \<Rightarrow> bool) \<Rightarrow> ('s \<Rightarrow> 's \<Rightarrow> bool) \<Rightarrow> 's \<Rightarrow> bool"
  for start :: "'s \<Rightarrow> bool" and step :: "'s \<Rightarrow> 's \<Rightarrow> bool" where
  reach_start: "start s \<Longrightarrow> reach start step s"
| reach_step: "reach start step s \<Longrightarrow> step s t \<Longrightarrow> reach start step t"

locale invariant_system =
  fixes start :: "'s \<Rightarrow> bool" and step :: "'s \<Rightarrow> 's \<Rightarrow> bool" and inv :: "'s \<Rightarrow> bool"
  assumes inv_start: "start s \<Longrightarrow> inv s"
    and inv_step: "inv s \<Longrightarrow> step s t \<Longrightarrow> inv t"
begin

lemma inv_reach: "reach start step s \<Longrightarrow> inv s"
  by (induction rule: reach.induct) (auto intro: inv_start inv_step)

end

subsection \<open>Buffers\<close>

definition substr :: "nat \<Rightarrow> nat \<Rightarrow> 'a list \<Rightarrow> 'a list" where
  "substr i j xs = take (j - i) (drop i xs)"

lemma length_substr [simp]: "i \<le> j \<Longrightarrow> j \<le> length xs \<Longrightarrow> length (substr i j xs) = j - i"
  by (simp add: substr_def)

lemma substr_nth: "i \<le> j \<Longrightarrow> j \<le> length xs \<Longrightarrow> k < j - i \<Longrightarrow> substr i j xs ! k = xs ! (i + k)"
  by (simp add: substr_def)

lemma substr_empty [simp]: "substr i i xs = []"
  by (simp add: substr_def)

lemma substr_Cons: "i < j \<Longrightarrow> j \<le> length xs \<Longrightarrow> substr i j xs = xs ! i # substr (Suc i) j xs"
  by (simp add: substr_def Cons_nth_drop_Suc [symmetric] take_Cons' Suc_diff_Suc)

lemma substr_update_outside:
  assumes "k < i \<or> j \<le> k" shows "substr i j (xs[k := v]) = substr i j xs"
proof (cases "k < i")
  case True
  then show ?thesis by (simp add: substr_def)
next
  case False
  with assms have "j - i \<le> k - i" and "i \<le> k" by auto
  then show ?thesis by (simp add: substr_def drop_update_swap)
qed

lemma filter_update_outside: "\<not> P (xs ! i) \<Longrightarrow> \<not> P x \<Longrightarrow> filter P (xs[i := x]) = filter P xs"
  by (induction xs arbitrary: i) (auto split: nat.splits)

end
