(* ===== verification/Hanoi.thy ===== *)
theory Hanoi
  imports Prelude
begin

text \<open>
  The towers of Hanoi, \<^verbatim>\<open>src/hanoi\<close>: the recursive program of
  \<^verbatim>\<open>hanoi-r.c\<close> and the program of \<^verbatim>\<open>hanoi-nr.c\<close> that
  simulates the calls on an explicit array of 64 frames. Each \<^verbatim>\<open>printf\<close> is one
  pair (from, to) of the output. Shown: both return for every height they support and
  print the same moves, the frame array is large enough up to height 64 and overflows
  beyond, and the moves are legal and carry the whole tower over.
\<close>

type_synonym move = "char \<times> char"

subsection \<open>hanoi-r.c\<close>

text \<open>A call that never returns (height below 1) is \<open>None\<close>.\<close>

partial_function (option) hanoi_r :: "int \<Rightarrow> char \<Rightarrow> char \<Rightarrow> char \<Rightarrow> move list option" where
  "hanoi_r n from to via =
     (if n = 1 then Some [(from, to)]
      else do {
        a \<leftarrow> hanoi_r (n - 1) from via to;
        b \<leftarrow> hanoi_r 1 from to via;
        c \<leftarrow> hanoi_r (n - 1) via to from;
        Some (a @ b @ c)
      })"

subsection \<open>hanoi-nr.c\<close>

record frame =
  f_pc :: u32
  f_n :: u32
  f_from :: char
  f_to :: char
  f_via :: char

text \<open>
  The live part of \<^verbatim>\<open>Frame stk[64]\<close> is a list with \<^verbatim>\<open>*top\<close> at its
  head; \<^verbatim>\<open>top < stk\<close> is the empty list. \<^verbatim>\<open>call\<close> past the last
  element writes outside the array; \<^verbatim>\<open>default\<close> fails its assertion.
\<close>

datatype hanoi_error = Stack_Overflow | Assert_Fail

record hanoi_state =
  stk :: "frame list"
  out :: "move list"

definition STK_MAX :: nat where "STK_MAX = 64"

definition call :: "u32 \<Rightarrow> char \<Rightarrow> char \<Rightarrow> char \<Rightarrow> frame list \<Rightarrow> hanoi_error + frame list" where
  "call n from to via fs =
     (if length fs < STK_MAX
      then Inr (\<lparr>f_pc = 0, f_n = n, f_from = from, f_to = to, f_via = via\<rparr> # fs)
      else Inl Stack_Overflow)"

definition ret :: "frame list \<Rightarrow> frame list" where
  "ret fs = tl fs"

text \<open>
  One iteration of the \<^verbatim>\<open>for\<close> loop on the top frame \<open>f\<close>: the switch and
  then \<^verbatim>\<open>f->pc++\<close>, which after a call updates the caller, now second in the
  list, and after a return a frame that is no longer live.
\<close>

definition incr_pc :: "frame \<Rightarrow> frame" where
  "incr_pc f = f\<lparr>f_pc := f_pc f + 1\<rparr>"

definition hanoi_step :: "frame \<Rightarrow> frame list \<Rightarrow> move list \<Rightarrow> hanoi_error + hanoi_state" where
  "hanoi_step f fs o' =
     (if f_pc f = 0 then
        (if f_n f = 1
         then Inr \<lparr>stk = incr_pc (f\<lparr>f_pc := 3\<rparr>) # fs, out = o' @ [(f_from f, f_to f)]\<rparr>
         else Inr \<lparr>stk = incr_pc f # fs, out = o'\<rparr>)
      else if f_pc f = 1 then
        map_sum id (\<lambda>s. \<lparr>stk = s, out = o'\<rparr>)
          (call (f_n f - 1) (f_from f) (f_via f) (f_to f) (incr_pc f # fs))
      else if f_pc f = 2 then
        map_sum id (\<lambda>s. \<lparr>stk = s, out = o'\<rparr>)
          (call 1 (f_from f) (f_to f) (f_via f) (incr_pc f # fs))
      else if f_pc f = 3 then
        map_sum id (\<lambda>s. \<lparr>stk = s, out = o'\<rparr>)
          (call (f_n f - 1) (f_via f) (f_to f) (f_from f) (incr_pc f # fs))
      else if f_pc f = 4 then Inr \<lparr>stk = ret (f # fs), out = o'\<rparr>
      else Inl Assert_Fail)"

partial_function (option) hanoi_loop :: "hanoi_state \<Rightarrow> (hanoi_error + move list) option" where
  "hanoi_loop s =
     (case stk s of
        [] \<Rightarrow> Some (Inr (out s))
      | f # fs \<Rightarrow>
          (case hanoi_step f fs (out s) of
             Inl e \<Rightarrow> Some (Inl e)
           | Inr s' \<Rightarrow> hanoi_loop s'))"

definition hanoi_nr :: "int \<Rightarrow> char \<Rightarrow> char \<Rightarrow> char \<Rightarrow> (hanoi_error + move list) option" where
  "hanoi_nr n from to via =
     (case call (word_of_int n) from to via [] of
        Inl e \<Rightarrow> Some (Inl e)
      | Inr fs \<Rightarrow> hanoi_loop \<lparr>stk = fs, out = []\<rparr>)"

subsection \<open>The reference and what both programs do\<close>

fun moves :: "nat \<Rightarrow> char \<Rightarrow> char \<Rightarrow> char \<Rightarrow> move list" where
  "moves 0 a b c = []"
| "moves (Suc n) a b c = moves n a c b @ [(a, b)] @ moves n c b a"

lemma length_moves: "length (moves n a b c) = 2 ^ n - 1"
proof (induction n arbitrary: a b c)
  case (Suc n)
  have "(1::nat) \<le> 2 ^ n" by simp
  then show ?case by (simp add: Suc.IH)
qed simp

lemma hanoi_r_Suc: "hanoi_r (int (Suc n)) a b c = Some (moves (Suc n) a b c)"
proof (induction n arbitrary: a b c)
  case 0
  show ?case by (simp add: hanoi_r.simps)
next
  case (Suc n)
  have one: "hanoi_r 1 a b c = Some [(a, b)]" for a b c
    by (simp add: hanoi_r.simps)
  have ne: "int (Suc (Suc n)) \<noteq> 1" and pred: "int (Suc (Suc n)) - 1 = int (Suc n)" by auto
  show ?case
    by (subst hanoi_r.simps) (simp only: ne pred Suc.IH one, simp)
qed

lemma hanoi_r_moves: "1 \<le> n \<Longrightarrow> hanoi_r n a b c = Some (moves (nat n) a b c)"
  using hanoi_r_Suc [of "nat n - 1" a b c] by (simp add: Suc_diff_1)

text \<open>The loop runs one frame to its return: the machine simulates the call.\<close>

lemma hanoi_loop_Cons:
  "hanoi_loop \<lparr>stk = f # fs, out = o'\<rparr> =
     (case hanoi_step f fs o' of Inl e \<Rightarrow> Some (Inl e) | Inr s' \<Rightarrow> hanoi_loop s')"
  by (subst hanoi_loop.simps) simp

lemma hanoi_loop_Nil: "hanoi_loop \<lparr>stk = [], out = o'\<rparr> = Some (Inr o')"
  by (subst hanoi_loop.simps) simp

abbreviation fr :: "u32 \<Rightarrow> u32 \<Rightarrow> char \<Rightarrow> char \<Rightarrow> char \<Rightarrow> frame" where
  "fr p n a b c \<equiv> \<lparr>f_pc = p, f_n = n, f_from = a, f_to = b, f_via = c\<rparr>"

lemma loop_pc0_leaf [run_simps]:
  "hanoi_loop \<lparr>stk = fr 0 1 a b c # fs, out = o'\<rparr> = hanoi_loop \<lparr>stk = fs, out = o' @ [(a, b)]\<rparr>"
  by (simp add: hanoi_loop_Cons hanoi_step_def incr_pc_def ret_def)

lemma loop_pc0 [run_simps]:
  "n \<noteq> 1 \<Longrightarrow> hanoi_loop \<lparr>stk = fr 0 n a b c # fs, out = o'\<rparr> = hanoi_loop \<lparr>stk = fr 1 n a b c # fs, out = o'\<rparr>"
  by (simp add: hanoi_loop_Cons hanoi_step_def incr_pc_def)

lemma loop_pc1 [run_simps]:
  "length fs < 63 \<Longrightarrow> hanoi_loop \<lparr>stk = fr 1 n a b c # fs, out = o'\<rparr> =
     hanoi_loop \<lparr>stk = fr 0 (n - 1) a c b # fr 2 n a b c # fs, out = o'\<rparr>"
  by (simp add: hanoi_loop_Cons hanoi_step_def incr_pc_def call_def STK_MAX_def)

lemma loop_pc2 [run_simps]:
  "length fs < 63 \<Longrightarrow> hanoi_loop \<lparr>stk = fr 2 n a b c # fs, out = o'\<rparr> =
     hanoi_loop \<lparr>stk = fr 0 1 a b c # fr 3 n a b c # fs, out = o'\<rparr>"
  by (simp add: hanoi_loop_Cons hanoi_step_def incr_pc_def call_def STK_MAX_def)

lemma loop_pc3 [run_simps]:
  "length fs < 63 \<Longrightarrow> hanoi_loop \<lparr>stk = fr 3 n a b c # fs, out = o'\<rparr> =
     hanoi_loop \<lparr>stk = fr 0 (n - 1) c b a # fr 4 n a b c # fs, out = o'\<rparr>"
  by (simp add: hanoi_loop_Cons hanoi_step_def incr_pc_def call_def STK_MAX_def)

lemma loop_pc4 [run_simps]:
  "hanoi_loop \<lparr>stk = fr 4 n a b c # fs, out = o'\<rparr> = hanoi_loop \<lparr>stk = fs, out = o'\<rparr>"
  by (simp add: hanoi_loop_Cons hanoi_step_def ret_def)

lemma hanoi_loop_call:
  "length fs + Suc n \<le> 64 \<Longrightarrow>
     hanoi_loop \<lparr>stk = fr 0 (of_nat (Suc n)) a b c # fs, out = o'\<rparr> =
     hanoi_loop \<lparr>stk = fs, out = o' @ moves (Suc n) a b c\<rparr>"
proof (induction n arbitrary: a b c fs o')
  case 0
  then show ?case by (simp add: run_simps)
next
  case (Suc n)
  have small: "Suc (Suc n) < 2 ^ 32" using Suc.prems by simp
  then have "unat (of_nat (Suc (Suc n)) :: u32) = Suc (Suc n)"
    by (simp add: unsigned_of_nat take_bit_nat_eq_self del: of_nat_Suc)
  then have ne: "(of_nat (Suc (Suc n)) :: u32) \<noteq> 1"
    by (auto simp del: of_nat_Suc)
  have pred: "(of_nat (Suc (Suc n)) :: u32) - 1 = of_nat (Suc n)" by simp
  have len: "length fs < 63" and len': "length (fr p m x y z # fs) + Suc n \<le> 64" for p m x y z
    using Suc.prems by simp_all
  show ?case
    unfolding loop_pc0 [OF ne] loop_pc1 [OF len] pred Suc.IH [OF len'] loop_pc2 [OF len]
      loop_pc0_leaf loop_pc3 [OF len] loop_pc4
    by simp
qed

lemma hanoi_nr_moves:
  assumes "1 \<le> n" "n \<le> 64"
  shows "hanoi_nr n a b c = Some (Inr (moves (nat n) a b c))"
proof -
  define m where "m = nat (n - 1)"
  have n: "n = int (Suc m)" and m: "Suc m \<le> 64" using assms by (auto simp: m_def)
  have "hanoi_loop \<lparr>stk = fr 0 (of_nat (Suc m)) a b c # [], out = []\<rparr> = Some (Inr (moves (Suc m) a b c))"
    using m by (subst hanoi_loop_call) (simp_all add: hanoi_loop_Nil del: moves.simps of_nat_Suc)
  then show ?thesis
    by (simp add: hanoi_nr_def call_def STK_MAX_def n del: moves.simps of_nat_Suc)
qed

text \<open>Outside the heights 1 to 64 the loop runs off the frame array.\<close>

lemma unat_pred: "w \<noteq> 0 \<Longrightarrow> unat (w - 1 :: u32) = unat w - 1"
  by (simp add: unat_minus_one)

lemma hanoi_loop_overflow:
  "length fs \<le> 63 \<Longrightarrow> w = 0 \<or> 64 - length fs < unat w \<Longrightarrow>
     hanoi_loop \<lparr>stk = fr 0 w a b c # fs, out = o'\<rparr> = Some (Inl Stack_Overflow)"
proof (induction "63 - length fs" arbitrary: fs w a b c)
  case 0
  then have "w \<noteq> 1" and "length fs = 63" by auto
  then show ?case
    by (simp add: loop_pc0) (simp add: hanoi_loop_Cons hanoi_step_def call_def STK_MAX_def)
next
  case (Suc k)
  then have ne: "w \<noteq> 1" and len: "length fs < 63" by auto
  have "w - 1 = 0 \<or> 64 - length (fr 2 w a b c # fs) < unat (w - 1)"
  proof (cases "w = 0")
    case True
    then have "unat (w - 1) = 2 ^ 32 - 1" by (simp add: unsigned_minus_1_eq_mask mask_eq_exp_minus_1)
    then show ?thesis by simp arith
  next
    case False
    with Suc.prems show ?thesis by (simp add: unat_pred) arith
  qed
  moreover have "k = 63 - length (fr 2 w a b c # fs)" "length (fr 2 w a b c # fs) \<le> 63"
    using Suc.hyps(2) len by simp_all
  ultimately show ?case
    unfolding loop_pc0 [OF ne] loop_pc1 [OF len] by (intro Suc.hyps(1))
qed

lemma hanoi_nr_overflow:
  assumes "- (2 ^ 31) \<le> n" "n < 2 ^ 31" "n < 1 \<or> 64 < n"
  shows "hanoi_nr n a b c = Some (Inl Stack_Overflow)"
proof -
  have "(word_of_int n :: u32) = 0 \<or> 64 < unat (word_of_int n :: u32)"
  proof (cases "n \<le> 0")
    case True
    have "uint (word_of_int n :: u32) = n mod 2 ^ 32" by (simp add: unsigned_of_int take_bit_eq_mod)
    moreover have "n mod 2 ^ 32 = (if n = 0 then 0 else n + 2 ^ 32)"
      using True assms(1) mod_pos_pos_trivial [of "n + 2 ^ 32" "2 ^ 32"] by auto
    ultimately show ?thesis using assms(1) by (cases "n = 0") (auto simp: unat_eq_nat_uint)
  next
    case False
    then have "uint (word_of_int n :: u32) = n"
      using assms(2) by (simp add: unsigned_of_int take_bit_eq_mod)
    then show ?thesis using assms(3) False by (auto simp: unat_eq_nat_uint)
  qed
  then show ?thesis
    by (simp add: hanoi_nr_def call_def STK_MAX_def hanoi_loop_overflow)
qed

subsection \<open>The puzzle\<close>

text \<open>Rods hold disks by size, the top one first; a move is legal onto a larger disk only.\<close>

fun apply_move :: "(char \<Rightarrow> nat list) \<Rightarrow> move \<Rightarrow> (char \<Rightarrow> nat list) option" where
  "apply_move rods (a, b) =
     (case rods a of
        [] \<Rightarrow> None
      | d # ds \<Rightarrow>
          (if rods b = [] \<or> d < hd (rods b) then Some (rods(a := ds, b := d # rods b)) else None))"

fun play :: "(char \<Rightarrow> nat list) \<Rightarrow> move list \<Rightarrow> (char \<Rightarrow> nat list) option" where
  "play rods [] = Some rods"
| "play rods (m # ms) = Option.bind (apply_move rods m) (\<lambda>r. play r ms)"

lemma play_append: "play rods (ms @ ns) = Option.bind (play rods ms) (\<lambda>r. play r ns)"
  by (induction ms arbitrary: rods) (auto simp: Option.bind_assoc)

lemma play_moves:
  assumes "distinct [a, b, c]" "rods a = [0..<n] @ xs"
    and "\<forall>d \<in> set xs \<union> set (rods b) \<union> set (rods c). n \<le> d"
  shows "play rods (moves n a b c) = Some (rods(a := xs, b := [0..<n] @ rods b))"
  using assms
proof (induction n arbitrary: a b c rods xs)
  case 0
  then show ?case by (auto simp: fun_eq_iff)
next
  case (Suc n)
  let ?r1 = "rods(a := n # xs, c := [0..<n] @ rods c)"
  let ?r2 = "?r1(a := xs, b := n # rods b)"
  have big: "\<forall>d \<in> set xs \<union> set (rods b) \<union> set (rods c). n \<le> d"
    using Suc.prems(3) by (blast intro: Suc_leD)
  have "play rods (moves n a c b) = Some ?r1"
    by (rule Suc.IH) (use Suc.prems(1,2) big in auto)
  moreover have "hd (rods b) > n" if "rods b \<noteq> []"
    using Suc.prems(3) that by (auto simp: Suc_le_eq)
  then have "apply_move ?r1 (a, b) = Some ?r2"
    using Suc.prems(1) by (auto simp: fun_eq_iff)
  moreover have "play ?r2 (moves n c b a) = Some (?r2(c := rods c, b := [0..<n] @ ?r2 b))"
    by (rule Suc.IH) (use Suc.prems(1,2) big in auto)
  ultimately show ?case
    using Suc.prems(1) by (auto simp: play_append fun_eq_iff simp del: apply_move.simps)
qed

text \<open>
  C18: the explicit-stack program of hanoi-nr.c and the recursive one of hanoi-r.c print the
  same moves for every height from 1 to 64, both returning; for every other value of the
  32-bit argument the explicit stack runs off its 64 frames.
\<close>

theorem hanoi_nr_equivalent:
  assumes "- (2 ^ 31) \<le> n" "n < 2 ^ 31"
  shows "hanoi_nr n from to via =
     (if 1 \<le> n \<and> n \<le> 64 then map_option Inr (hanoi_r n from to via)
      else Some (Inl Stack_Overflow))
     \<and> (1 \<le> n \<longrightarrow> hanoi_r n from to via \<noteq> None)"
  using assms hanoi_nr_overflow by (auto simp: hanoi_nr_moves hanoi_r_moves)

theorem hanoi_nr_equivalent_witness:
  "hanoi_nr 2 CHR ''A'' CHR ''B'' CHR ''C'' =
     Some (Inr [(CHR ''A'', CHR ''C''), (CHR ''A'', CHR ''B''), (CHR ''C'', CHR ''B'')])"
  using hanoi_nr_equivalent [of 2 "CHR ''A''" "CHR ''B''" "CHR ''C''"]
  by (simp add: hanoi_r_moves numeral_2_eq_2)

text \<open>
  The moves that hanoi-nr.c prints solve the puzzle: played on rods where the tower of
  n disks lies on top of the first rod and every other disk is larger, every move is legal,
  the whole tower ends on the second rod, nothing else changes, and there are 2^n - 1 moves.
\<close>

theorem hanoi_nr_solves:
  assumes "1 \<le> n" "n \<le> 64" "distinct [from, to, via]" "rods from = [0..<nat n] @ xs"
    and "\<forall>d \<in> set xs \<union> set (rods to) \<union> set (rods via). nat n \<le> d"
  shows "\<exists>ms. hanoi_nr n from to via = Some (Inr ms) \<and> length ms = 2 ^ nat n - 1 \<and>
     play rods ms = Some (rods(from := xs, to := [0..<nat n] @ rods to))"
  using assms play_moves [of "from" to via rods "nat n" xs]
  by (simp add: hanoi_nr_moves length_moves)

theorem hanoi_nr_solves_witness:
  "\<exists>ms. hanoi_nr 10 CHR ''A'' CHR ''B'' CHR ''C'' = Some (Inr ms) \<and> length ms = 1023 \<and>
     play ((\<lambda>_. [])(CHR ''A'' := [0..<10])) ms = Some ((\<lambda>_. [])(CHR ''A'' := [], CHR ''B'' := [0..<10]))"
  using hanoi_nr_solves [of 10 "CHR ''A''" "CHR ''B''" "CHR ''C''" "(\<lambda>_. [])(CHR ''A'' := [0..<10])" "[]"]
  by (simp add: fun_upd_twist)

end
