(* ===== verification/Shell_Lex.thy ===== *)
theory Shell_Lex
  imports Prelude
begin

text \<open>
  The xv6 shell of \<^verbatim>\<open>src/shell/sh-xv6.c\<close>, first part: the run-time library
  (\<open>strlen\<close>, \<open>strchr\<close>) and the scanner (\<open>gettoken\<close>, \<open>peek\<close>).
  A \<^verbatim>\<open>char *\<close> into the command buffer is an index into a list of characters; a
  read outside the buffer is the error \<open>OutOfBounds\<close>, a failed \<^verbatim>\<open>assert\<close> is
  \<open>Panic\<close>. A string constant is the list of its characters, and a pointer into it the
  remaining suffix. Shown: on a NUL-terminated buffer the scanner never reads outside
  it, only moves forward, and its words are maximal runs of ordinary characters.
\<close>

subsection \<open>Results\<close>

datatype perr = Panic | OutOfBounds | NoFuel

type_synonym 'a res = "perr + 'a"

definition bindr :: "'a res \<Rightarrow> ('a \<Rightarrow> 'b res) \<Rightarrow> 'b res" where
  "bindr m f = (case m of Inl e \<Rightarrow> Inl e | Inr x \<Rightarrow> f x)"

lemma bindr_simps [simp]: "bindr (Inl e) f = Inl e" "bindr (Inr x) f = f x"
  by (simp_all add: bindr_def)

lemma bindr_Inr_iff: "bindr m f = Inr y \<longleftrightarrow> (\<exists>x. m = Inr x \<and> f x = Inr y)"
  by (cases m) auto

lemma bindr_Inl_iff: "bindr m f = Inl e \<longleftrightarrow> m = Inl e \<or> (\<exists>x. m = Inr x \<and> f x = Inl e)"
  by (cases m) auto

lemma bindr_cong [fundef_cong]:
  "m = m' \<Longrightarrow> (\<And>x. m' = Inr x \<Longrightarrow> f x = g x) \<Longrightarrow> bindr m f = bindr m' g"
  by (cases m') auto

definition rdr :: "char list \<Rightarrow> nat \<Rightarrow> char res" where
  "rdr b i = (if i < length b then Inr (b ! i) else Inl OutOfBounds)"

lemma rdr_Inr_iff [simp]: "rdr b i = Inr c \<longleftrightarrow> i < length b \<and> b ! i = c"
  by (auto simp: rdr_def)

lemma rdr_in [simp]: "i < length b \<Longrightarrow> rdr b i = Inr (b ! i)"
  by (simp add: rdr_def)

subsection \<open>strlen, strchr\<close>

text \<open>\<open>strlen_loop b s len\<close> is the \<^verbatim>\<open>for\<close> loop of \<^verbatim>\<open>strlen\<close> at pointer \<open>s\<close>.\<close>

function strlen_loop :: "char list \<Rightarrow> nat \<Rightarrow> nat \<Rightarrow> nat res" where
  "strlen_loop b s len =
     (if s < length b
      then (if b ! s \<noteq> NUL then strlen_loop b (Suc s) (Suc len) else Inr len)
      else Inl OutOfBounds)"
  by pat_completeness auto
termination
  by (relation "measure (\<lambda>(b, s, len). length b - s)") auto

declare strlen_loop.simps [simp del]

definition strlen :: "char list \<Rightarrow> nat \<Rightarrow> nat res" where
  "strlen b s = strlen_loop b s 0"

fun strchr :: "string \<Rightarrow> char \<Rightarrow> string option" where
  "strchr [] c = None"
| "strchr (x # xs) c = (if x = NUL then None else if x = c then Some (x # xs) else strchr xs c)"

lemma strchr_None_iff [c_string_simps]:
  "NUL \<notin> set s \<Longrightarrow> strchr s c = None \<longleftrightarrow> c \<notin> set s"
  by (induction s) auto

lemma strlen_loop_eq:
  "s \<le> e \<Longrightarrow> e < length b \<Longrightarrow> b ! e = NUL \<Longrightarrow> \<forall>i. s \<le> i \<and> i < e \<longrightarrow> b ! i \<noteq> NUL \<Longrightarrow>
     strlen_loop b s len = Inr (len + (e - s))"
proof (induction "e - s" arbitrary: s len)
  case 0
  then show ?case by (simp add: strlen_loop.simps)
next
  case (Suc n)
  then have "strlen_loop b (Suc s) (Suc len) = Inr (Suc len + (e - Suc s))"
    by (intro Suc.hyps(1)) auto
  moreover from Suc have "s < length b" "b ! s \<noteq> NUL" "Suc (e - Suc s) = e - s" by auto
  ultimately show ?case by (simp add: strlen_loop.simps [of b s])
qed

subsection \<open>The scanner\<close>

definition whitespace :: string where
  "whitespace = [CHR '' '', CHR 0x09, CHR 0x0D, CHR 0x0A, CHR 0x0B]"

definition symbols :: string where
  "symbols = ''<|>&;()''"

abbreviation is_ws :: "char \<Rightarrow> bool" where "is_ws c \<equiv> strchr whitespace c \<noteq> None"
abbreviation is_sym :: "char \<Rightarrow> bool" where "is_sym c \<equiv> strchr symbols c \<noteq> None"

text \<open>
  The loop \<^verbatim>\<open>while (s < es && P(*s)) s++\<close>, which the code runs over white space
  and over the characters of a word.
\<close>

function scan :: "(char \<Rightarrow> bool) \<Rightarrow> char list \<Rightarrow> nat \<Rightarrow> nat \<Rightarrow> nat res" where
  "scan P b es s =
     (if s < es
      then bindr (rdr b s) (\<lambda>c. if P c then scan P b es (Suc s) else Inr s)
      else Inr s)"
  by pat_completeness auto
termination
  by (relation "measure (\<lambda>(P, b, es, s). es - s)") auto

declare scan.simps [simp del]

definition skip_ws :: "char list \<Rightarrow> nat \<Rightarrow> nat \<Rightarrow> nat res" where
  "skip_ws b es s = scan (\<lambda>c. is_ws c) b es s"

definition skip_word :: "char list \<Rightarrow> nat \<Rightarrow> nat \<Rightarrow> nat res" where
  "skip_word b es s = scan (\<lambda>c. \<not> is_ws c \<and> \<not> is_sym c) b es s"

text \<open>
  \<^verbatim>\<open>gettoken\<close> returns its result code, the pointers stored in \<^verbatim>\<open>*q\<close> and
  \<^verbatim>\<open>*eq\<close>, and the new \<^verbatim>\<open>*ps\<close>.
\<close>

definition gettoken :: "char list \<Rightarrow> nat \<Rightarrow> nat \<Rightarrow> (char \<times> nat \<times> nat \<times> nat) res" where
  "gettoken b es ps =
     bindr (skip_ws b es ps) (\<lambda>q.
     bindr (rdr b q) (\<lambda>c.
     bindr (if c = NUL then Inr (c, q)
            else if c \<in> {CHR ''|'', CHR ''('', CHR '')'', CHR '';'', CHR ''&'', CHR ''<''} then Inr (c, Suc q)
            else if c = CHR ''>'' then
              bindr (rdr b (Suc q)) (\<lambda>d.
                if d = CHR ''>'' then Inr (CHR ''+'', Suc (Suc q)) else Inr (c, Suc q))
            else bindr (skip_word b es q) (\<lambda>s. Inr (CHR ''a'', s)))
       (\<lambda>(ret, eq).
     bindr (skip_ws b es eq) (\<lambda>s. Inr (ret, q, eq, s)))))"

definition peek :: "char list \<Rightarrow> nat \<Rightarrow> string \<Rightarrow> nat \<Rightarrow> (bool \<times> nat) res" where
  "peek b es toks ps =
     bindr (skip_ws b es ps) (\<lambda>s.
     bindr (rdr b s) (\<lambda>c. Inr (c \<noteq> NUL \<and> strchr toks c \<noteq> None, s)))"

subsection \<open>Scanning a terminated buffer\<close>

text \<open>\<open>es\<close> is the first NUL of the buffer, as \<^verbatim>\<open>s + strlen(s)\<close> makes it.\<close>

definition lexbuf :: "char list \<Rightarrow> nat \<Rightarrow> bool" where
  "lexbuf b es \<longleftrightarrow> es < length b \<and> b ! es = NUL \<and> (\<forall>i < es. b ! i \<noteq> NUL)"

definition wordch :: "char \<Rightarrow> bool" where
  "wordch c \<longleftrightarrow> c \<noteq> NUL \<and> \<not> is_ws c \<and> \<not> is_sym c"

text \<open>A word of the buffer: not empty, all ordinary characters, and maximal to the right.\<close>

definition word_at :: "char list \<Rightarrow> nat \<Rightarrow> nat \<Rightarrow> bool" where
  "word_at b q eq \<longleftrightarrow> q < eq \<and> eq < length b \<and> (\<forall>i. q \<le> i \<and> i < eq \<longrightarrow> wordch (b ! i)) \<and> \<not> wordch (b ! eq)"

lemma not_ws_NUL [c_string_simps]: "strchr whitespace NUL = None" "strchr symbols NUL = None"
  by (simp_all add: whitespace_def symbols_def)

lemma not_wordch_NUL [simp]: "\<not> wordch NUL"
  by (simp add: wordch_def)

lemma sym_set: "is_sym c \<longleftrightarrow> c \<in> set symbols"
  by (auto simp: c_string_simps symbols_def)

lemma ws_set: "is_ws c \<longleftrightarrow> c \<in> set whitespace"
  by (auto simp: c_string_simps whitespace_def)

lemma scan_forward: "scan P b es s = Inr s' \<Longrightarrow> s \<le> s'"
proof (induction P b es s rule: scan.induct)
  case (1 P b es s)
  show ?case
    using "1.prems" "1.IH" by (subst (asm) scan.simps) (fastforce simp: bindr_Inr_iff split: if_splits)
qed

lemma scan_ok:
  assumes "es < length b" "\<not> P (b ! es)" "s \<le> es"
  shows "\<exists>s'. scan P b es s = Inr s' \<and> s \<le> s' \<and> s' \<le> es \<and> \<not> P (b ! s') \<and>
     (\<forall>i. s \<le> i \<and> i < s' \<longrightarrow> P (b ! i))"
  using assms(3)
proof (induction "es - s" arbitrary: s)
  case 0
  then show ?case using assms(2) by (auto simp: scan.simps)
next
  case (Suc n)
  then have lt: "s < es" "s < length b" "Suc s \<le> es" and n: "n = es - Suc s" using assms(1) by auto
  show ?case
  proof (cases "P (b ! s)")
    case True
    obtain s' where "scan P b es (Suc s) = Inr s'" "Suc s \<le> s'" "s' \<le> es" "\<not> P (b ! s')"
      and P: "\<forall>i. Suc s \<le> i \<and> i < s' \<longrightarrow> P (b ! i)"
      using Suc.hyps(1) [OF n lt(3)] by blast
    moreover have "P (b ! i)" if "s \<le> i" "i < s'" for i
      using that P True by (cases "i = s") auto
    ultimately show ?thesis
      using True lt by (intro exI [of _ s']) (simp add: scan.simps [of P b es s])
  next
    case False
    with lt show ?thesis by (intro exI [of _ s]) (auto simp: scan.simps [of P b es s])
  qed
qed

lemma skip_ws_ok:
  "lexbuf b es \<Longrightarrow> s \<le> es \<Longrightarrow> \<exists>s'. skip_ws b es s = Inr s' \<and> s \<le> s' \<and> s' \<le> es \<and> \<not> is_ws (b ! s')"
  using scan_ok [of es b "\<lambda>c. is_ws c" s] by (auto simp: skip_ws_def lexbuf_def c_string_simps)

lemma skip_word_ok:
  assumes "lexbuf b es" "s \<le> es" "wordch (b ! s)"
  shows "\<exists>s'. skip_word b es s = Inr s' \<and> word_at b s s' \<and> s' \<le> es"
proof -
  have "s < es" using assms by (cases "s = es") (auto simp: lexbuf_def)
  have stop: "\<not> wordch (b ! es)" "es < length b" using assms(1) by (auto simp: lexbuf_def)
  have same: "scan (\<lambda>c. \<not> is_ws c \<and> \<not> is_sym c) b es s = scan wordch b es s" if "s \<le> es" for s
    using that
  proof (induction "es - s" arbitrary: s)
    case 0
    then show ?case by (simp add: scan.simps)
  next
    case (Suc n)
    then have "s < es" "s < length b" "b ! s \<noteq> NUL" "n = es - Suc s" using assms(1) by (auto simp: lexbuf_def)
    then show ?case
      using Suc.hyps(1) [of "Suc s"] by (simp add: scan.simps [of _ b es s] wordch_def)
  qed
  obtain s' where s': "scan wordch b es s = Inr s'" "s \<le> s'" "s' \<le> es" "\<not> wordch (b ! s')"
     "\<forall>i. s \<le> i \<and> i < s' \<longrightarrow> wordch (b ! i)"
    using scan_ok [of es b wordch s] stop assms(2) by blast
  moreover have "s < s'" using s' assms(3) by (cases "s = s'") auto
  ultimately show ?thesis
    using stop same [OF assms(2)] by (intro exI [of _ s']) (auto simp: skip_word_def word_at_def)
qed

text \<open>What \<open>gettoken\<close> gives on a terminated buffer.\<close>

definition token_ok :: "char list \<Rightarrow> nat \<Rightarrow> nat \<Rightarrow> char \<times> nat \<times> nat \<times> nat \<Rightarrow> bool" where
  "token_ok b es ps t \<longleftrightarrow> (case t of (ret, q, eq, s) \<Rightarrow>
     ps \<le> q \<and> q \<le> eq \<and> eq \<le> s \<and> s \<le> es \<and> (ret \<noteq> NUL \<longrightarrow> q < eq) \<and> (ret = NUL \<longleftrightarrow> q = es) \<and>
     (ret = CHR ''a'' \<longrightarrow> word_at b q eq))"

lemma gettoken_ok:
  assumes lex: "lexbuf b es" and ps: "ps \<le> es"
  shows "\<exists>t. gettoken b es ps = Inr t \<and> token_ok b es ps t"
proof -
  obtain q where q: "skip_ws b es ps = Inr q" "ps \<le> q" "q \<le> es" "\<not> is_ws (b ! q)"
    using skip_ws_ok [OF lex ps] by blast
  have len: "q < length b" and NULq: "b ! q = NUL \<longleftrightarrow> q = es"
    using lex q(3) by (auto simp: lexbuf_def) (metis le_neq_implies_less)
  let ?c = "b ! q"
  consider (eof) "?c = NUL" "q = es" | (sym) "is_sym ?c" "?c \<noteq> NUL" "?c \<noteq> CHR ''>''" "q < es"
    | (gt) "?c = CHR ''>''" "q < es" | (word) "wordch ?c" "q < es"
    using NULq q(3,4) by (auto simp: wordch_def le_less)
  then show ?thesis
  proof cases
    case eof
    obtain s where "skip_ws b es q = Inr s" "q \<le> s" "s \<le> es" using skip_ws_ok [OF lex q(3)] by blast
    with eof q len show ?thesis by (simp add: gettoken_def token_ok_def)
  next
    case sym
    then have c: "?c \<in> {CHR ''|'', CHR ''('', CHR '')'', CHR '';'', CHR ''&'', CHR ''<''}"
      unfolding sym_set by (auto simp: symbols_def)
    obtain s where "skip_ws b es (Suc q) = Inr s" "Suc q \<le> s" "s \<le> es"
      using skip_ws_ok [OF lex, of "Suc q"] sym by auto
    with sym(2,4) c q len show ?thesis by (auto simp: gettoken_def token_ok_def)
  next
    case gt
    have len': "Suc q < length b" using gt lex by (auto simp: lexbuf_def)
    have "b ! Suc q = CHR ''>'' \<Longrightarrow> Suc (Suc q) \<le> es"
      using gt lex by (cases "Suc q = es") (auto simp: lexbuf_def)
    then obtain e where e: "e = (if b ! Suc q = CHR ''>'' then Suc (Suc q) else Suc q)" "e \<le> es" "q < e"
      using gt by auto
    obtain s where "skip_ws b es e = Inr s" "e \<le> s" "s \<le> es" using skip_ws_ok [OF lex e(2)] by blast
    with gt e q len len' show ?thesis
      by (cases "b ! Suc q = CHR ''>''") (auto simp: gettoken_def token_ok_def)
  next
    case word
    obtain e where e: "skip_word b es q = Inr e" "word_at b q e" "e \<le> es"
      using skip_word_ok [OF lex q(3) word(1)] by blast
    obtain s where "skip_ws b es e = Inr s" "e \<le> s" "s \<le> es" using skip_ws_ok [OF lex e(3)] by blast
    moreover have "?c \<noteq> NUL" "?c \<notin> {CHR ''|'', CHR ''('', CHR '')'', CHR '';'', CHR ''&'', CHR ''<''}"
      "?c \<noteq> CHR ''>''"
      using word(1) by (auto simp: wordch_def sym_set symbols_def)
    moreover have "q < e" using e(2) by (simp add: word_at_def)
    ultimately show ?thesis using word(2) e q len by (auto simp: gettoken_def token_ok_def)
  qed
qed

lemma peek_ok:
  assumes lex: "lexbuf b es" and ps: "ps \<le> es"
  shows "\<exists>s. peek b es toks ps = Inr (b ! s \<noteq> NUL \<and> strchr toks (b ! s) \<noteq> None, s) \<and>
     ps \<le> s \<and> s \<le> es \<and> \<not> is_ws (b ! s)"
proof -
  obtain s where s: "skip_ws b es ps = Inr s" "ps \<le> s" "s \<le> es" "\<not> is_ws (b ! s)"
    using skip_ws_ok [OF lex ps] by blast
  moreover have "s < length b" using lex s(3) by (simp add: lexbuf_def)
  ultimately show ?thesis by (intro exI [of _ s]) (simp add: peek_def)
qed

text \<open>Progress, on any buffer: used by the termination proofs of the parser's loops.\<close>

lemma gettoken_forward: "gettoken b es ps = Inr (ret, q, eq, s) \<Longrightarrow> ps \<le> s"
  by (auto simp: gettoken_def bindr_Inr_iff skip_ws_def skip_word_def split: if_splits
      dest!: scan_forward)

lemma peek_forward: "peek b es toks ps = Inr (r, s) \<Longrightarrow> ps \<le> s"
  by (auto simp: peek_def bindr_Inr_iff skip_ws_def dest!: scan_forward)

lemma scan_idem: "scan P b es s = Inr s' \<Longrightarrow> scan P b es s' = Inr s'"
proof (induction P b es s rule: scan.induct)
  case (1 P b es s)
  show ?case
  proof (cases "s < es \<and> s < length b \<and> P (b ! s)")
    case True
    then show ?thesis using "1.prems" "1.IH" [of "b ! s"] by (simp add: scan.simps [of P b es s])
  next
    case False
    then have "s' = s" using "1.prems"
      by (auto simp: scan.simps [of P b es s] rdr_def split: if_splits)
    then show ?thesis using "1.prems" by simp
  qed
qed

lemma gettoken_symbol_progress:
  assumes "peek b es toks ps = Inr (True, s)" "gettoken b es s = Inr (ret, q, eq, s')"
    and "set toks \<subseteq> set symbols"
  shows "s < s' \<and> s < length b"
proof -
  have ws: "skip_ws b es s = Inr s" and s: "s < length b" "b ! s \<noteq> NUL" "strchr toks (b ! s) \<noteq> None"
    using assms(1) by (auto simp: peek_def bindr_Inr_iff skip_ws_def dest: scan_idem)
  have "b ! s \<in> set toks"
    using s(3) by (induction toks) (auto split: if_splits)
  then have "b ! s \<in> set symbols" using assms(3) by blast
  then show ?thesis
    using assms(2) ws s(1,2)
    by (auto simp: gettoken_def bindr_Inr_iff symbols_def skip_ws_def split: if_splits
        dest!: scan_forward)
qed

end
