(* ===== verification/Shell_Parse.thy ===== *)
theory Shell_Parse
  imports Shell_Lex
begin

text \<open>
  The xv6 shell, second part: command nodes in the arena \<^verbatim>\<open>mem[4096]\<close>, their
  constructors, the recursive-descent parser and \<open>nulterminate\<close>.
  Nodes live in a heap indexed by their offset in the arena, because
  \<^verbatim>\<open>parseexec\<close> keeps writing into an \<^verbatim>\<open>execcmd\<close> that redirection nodes
  already point to. The cursor \<^verbatim>\<open>*ps\<close> is part of the state. The four mutually
  recursive procedures take a fuel argument; \<open>parse_fuel\<close> is shown to be enough for
  every input, so that no result of \<open>parsecmd\<close> is due to the fuel.
\<close>

unbundle bit_operations_syntax

subsection \<open>Command nodes\<close>

type_synonym addr = nat

definition MAXARGS :: nat where "MAXARGS = 10"

record execcmd =
  argv :: "nat option list"
  eargv :: "nat option list"

record redircmd =
  r_fd :: int
  r_mode :: int
  r_file :: nat
  r_efile :: nat
  r_cmd :: addr

record pipecmd =
  p_left :: addr
  p_right :: addr

record listcmd =
  l_left :: addr
  l_right :: addr

record backcmd =
  b_cmd :: addr

datatype cmd = EXEC execcmd | REDIR redircmd | PIPE pipecmd | LIST listcmd | BACK backcmd

record pstate =
  freem :: nat
  heap :: "addr \<rightharpoonup> cmd"
  ps :: nat

text \<open>\<^verbatim>\<open>sizeof\<close> of the structs on x86-64, and the flags of \<^verbatim>\<open>fcntl.h\<close>.\<close>

definition sizeof_execcmd :: nat where "sizeof_execcmd = 8 + 8 * MAXARGS + 8 * MAXARGS"
definition sizeof_redircmd :: nat where "sizeof_redircmd = 40"
definition sizeof_pipecmd :: nat where "sizeof_pipecmd = 24"
definition sizeof_listcmd :: nat where "sizeof_listcmd = 24"
definition sizeof_backcmd :: nat where "sizeof_backcmd = 16"
definition MEM_SIZE :: nat where "MEM_SIZE = 4096"

definition O_RDONLY :: int where "O_RDONLY = 0"
definition O_WRONLY :: int where "O_WRONLY = 1"
definition O_CREAT :: int where "O_CREAT = 64"
definition O_TRUNC :: int where "O_TRUNC = 512"
definition O_APPEND :: int where "O_APPEND = 1024"

subsection \<open>The arena and the constructors\<close>

definition zalloc :: "nat \<Rightarrow> pstate \<Rightarrow> (addr \<times> pstate) res" where
  "zalloc sz st =
     (if freem st + sz < MEM_SIZE then Inr (freem st, st\<lparr>freem := freem st + sz\<rparr>) else Inl Panic)"

definition alloc_node :: "nat \<Rightarrow> cmd \<Rightarrow> pstate \<Rightarrow> (addr \<times> pstate) res" where
  "alloc_node sz c st =
     bindr (zalloc sz st) (\<lambda>(a, st). Inr (a, st\<lparr>heap := (heap st)(a \<mapsto> c)\<rparr>))"

text \<open>The arena is static and never reused, so a new \<^verbatim>\<open>execcmd\<close> has all pointers NULL.\<close>

definition mk_execcmd :: "pstate \<Rightarrow> (addr \<times> pstate) res" where
  "mk_execcmd st = alloc_node sizeof_execcmd
     (EXEC \<lparr>argv = replicate MAXARGS None, eargv = replicate MAXARGS None\<rparr>) st"

definition mk_redircmd :: "addr \<Rightarrow> nat \<Rightarrow> nat \<Rightarrow> int \<Rightarrow> int \<Rightarrow> pstate \<Rightarrow> (addr \<times> pstate) res" where
  "mk_redircmd subcmd file efile mode fd st = alloc_node sizeof_redircmd
     (REDIR \<lparr>r_fd = fd, r_mode = mode, r_file = file, r_efile = efile, r_cmd = subcmd\<rparr>) st"

definition mk_pipecmd :: "addr \<Rightarrow> addr \<Rightarrow> pstate \<Rightarrow> (addr \<times> pstate) res" where
  "mk_pipecmd left right st = alloc_node sizeof_pipecmd (PIPE \<lparr>p_left = left, p_right = right\<rparr>) st"

definition mk_listcmd :: "addr \<Rightarrow> addr \<Rightarrow> pstate \<Rightarrow> (addr \<times> pstate) res" where
  "mk_listcmd left right st = alloc_node sizeof_listcmd (LIST \<lparr>l_left = left, l_right = right\<rparr>) st"

definition mk_backcmd :: "addr \<Rightarrow> pstate \<Rightarrow> (addr \<times> pstate) res" where
  "mk_backcmd subcmd st = alloc_node sizeof_backcmd (BACK \<lparr>b_cmd = subcmd\<rparr>) st"

subsection \<open>The parser\<close>

text \<open>\<^verbatim>\<open>peek\<close> and \<^verbatim>\<open>gettoken\<close> on the cursor of the state.\<close>

definition peekst :: "char list \<Rightarrow> nat \<Rightarrow> string \<Rightarrow> pstate \<Rightarrow> (bool \<times> pstate) res" where
  "peekst b es toks st = bindr (peek b es toks (ps st)) (\<lambda>(r, s). Inr (r, st\<lparr>ps := s\<rparr>))"

definition tokst :: "char list \<Rightarrow> nat \<Rightarrow> pstate \<Rightarrow> (char \<times> nat \<times> nat \<times> pstate) res" where
  "tokst b es st =
     bindr (gettoken b es (ps st)) (\<lambda>(ret, q, eq, s). Inr (ret, q, eq, st\<lparr>ps := s\<rparr>))"

lemma peekst_Inr_iff:
  "peekst b es toks st = Inr (r, st') \<longleftrightarrow>
     (\<exists>s. peek b es toks (ps st) = Inr (r, s) \<and> st' = st\<lparr>ps := s\<rparr>)"
  by (auto simp: peekst_def bindr_Inr_iff)

lemma tokst_Inr_iff:
  "tokst b es st = Inr (ret, q, eq, st') \<longleftrightarrow>
     (\<exists>s. gettoken b es (ps st) = Inr (ret, q, eq, s) \<and> st' = st\<lparr>ps := s\<rparr>)"
  by (auto simp: tokst_def bindr_Inr_iff)

definition redir_node :: "char \<Rightarrow> addr \<Rightarrow> nat \<Rightarrow> nat \<Rightarrow> pstate \<Rightarrow> (addr \<times> pstate) res" where
  "redir_node tok c q eq st =
     (if tok = CHR ''<'' then mk_redircmd c q eq O_RDONLY 0 st
      else if tok = CHR ''>'' then mk_redircmd c q eq (O_WRONLY OR O_CREAT OR O_TRUNC) 1 st
      else if tok = CHR ''+'' then mk_redircmd c q eq (O_WRONLY OR O_CREAT) 1 st
      else Inr (c, st))"

lemma ps_alloc: "alloc_node sz n st = Inr (a, st') \<Longrightarrow> ps st' = ps st"
  by (auto simp: alloc_node_def zalloc_def bindr_Inr_iff split: if_splits)

lemma ps_redir_node: "redir_node tok c q eq st = Inr (a, st') \<Longrightarrow> ps st' = ps st"
  by (auto simp: redir_node_def mk_redircmd_def dest: ps_alloc split: if_splits)

lemma symbol_progress:
  assumes "peekst b es toks st = Inr (True, st1)" "tokst b es st1 = Inr (tok, q, eq, st2)"
    and "set toks \<subseteq> set symbols"
  shows "ps st \<le> ps st1 \<and> ps st1 < ps st2 \<and> ps st1 < length b"
  using assms gettoken_symbol_progress [OF _ _ assms(3)]
  by (fastforce simp: peekst_Inr_iff tokst_Inr_iff dest: peek_forward)

lemma backs_progress:
  assumes "peekst b es ''&'' st = Inr (True, st1)" "tokst b es st1 = Inr (tok, q, eq, st2)"
    and "mk_backcmd c st2 = Inr (c', st3)"
  shows "length b - ps st3 < length b - ps st"
  using symbol_progress [OF assms(1,2)] assms(3)
  by (auto simp: symbols_def mk_backcmd_def dest: ps_alloc)

lemma redirs_progress:
  assumes "peekst b es ''<>'' st = Inr (True, st1)" "tokst b es st1 = Inr (tok, q1, eq1, st2)"
    and "tokst b es st2 = Inr (t, q, eq, st3)" "redir_node tok c q eq st3 = Inr (c', st4)"
  shows "length b - ps st4 < length b - ps st"
proof -
  have "ps st \<le> ps st1 \<and> ps st1 < ps st2 \<and> ps st1 < length b"
    by (rule symbol_progress [OF assms(1,2)]) (auto simp: symbols_def)
  moreover have "ps st2 \<le> ps st4"
    using assms(3,4) by (auto simp: tokst_Inr_iff dest!: gettoken_forward ps_redir_node)
  ultimately show ?thesis by linarith
qed

function parseredirs :: "char list \<Rightarrow> nat \<Rightarrow> addr \<Rightarrow> pstate \<Rightarrow> (addr \<times> pstate) res" where
  "parseredirs b es c st =
     bindr (peekst b es ''<>'' st) (\<lambda>(more, st).
     if \<not> more then Inr (c, st)
     else
       bindr (tokst b es st) (\<lambda>(tok, _, _, st).
       bindr (tokst b es st) (\<lambda>(t, q, eq, st).
       if t \<noteq> CHR ''a'' then Inl Panic
       else bindr (redir_node tok c q eq st) (\<lambda>(c, st). parseredirs b es c st))))"
  by pat_completeness auto
termination
  by (relation "measure (\<lambda>(b, es, c, st). length b - ps st)") (auto intro: redirs_progress)

declare parseredirs.simps [simp del]

text \<open>The loop of \<^verbatim>\<open>parseline\<close> over \<^verbatim>\<open>&\<close>.\<close>

function parse_backs :: "char list \<Rightarrow> nat \<Rightarrow> addr \<Rightarrow> pstate \<Rightarrow> (addr \<times> pstate) res" where
  "parse_backs b es c st =
     bindr (peekst b es ''&'' st) (\<lambda>(more, st).
     if \<not> more then Inr (c, st)
     else
       bindr (tokst b es st) (\<lambda>(_, _, _, st).
       bindr (mk_backcmd c st) (\<lambda>(c, st). parse_backs b es c st)))"
  by pat_completeness auto
termination
  by (relation "measure (\<lambda>(b, es, c, st). length b - ps st)") (auto intro: backs_progress)

declare parse_backs.simps [simp del]

text \<open>\<^verbatim>\<open>cmd->argv[argc] = q; cmd->eargv[argc] = eq\<close> on the node at address \<open>a\<close>.\<close>

definition set_arg :: "addr \<Rightarrow> nat \<Rightarrow> nat option \<Rightarrow> nat option \<Rightarrow> pstate \<Rightarrow> pstate res" where
  "set_arg a argc q eq st =
     (case heap st a of
        Some (EXEC e) \<Rightarrow>
          (if argc < MAXARGS
           then Inr (st\<lparr>heap := (heap st)(a \<mapsto> EXEC \<lparr>argv = (argv e)[argc := q], eargv = (eargv e)[argc := eq]\<rparr>)\<rparr>)
           else Inl OutOfBounds)
      | _ \<Rightarrow> Inl OutOfBounds)"

text \<open>The loop of \<^verbatim>\<open>parseexec\<close>; it leaves with the number of arguments stored.\<close>

function exec_loop :: "char list \<Rightarrow> nat \<Rightarrow> addr \<Rightarrow> nat \<Rightarrow> addr \<Rightarrow> pstate \<Rightarrow> (nat \<times> addr \<times> pstate) res" where
  "exec_loop b es a argc ret st =
     bindr (peekst b es ''|)&;'' st) (\<lambda>(stop, st).
     if stop then Inr (argc, ret, st)
     else
       bindr (tokst b es st) (\<lambda>(tok, q, eq, st).
       if tok = NUL then Inr (argc, ret, st)
       else if tok \<noteq> CHR ''a'' then Inl Panic
       else
         bindr (set_arg a argc (Some q) (Some eq) st) (\<lambda>st.
         if \<not> Suc argc < MAXARGS then Inl Panic
         else
           bindr (parseredirs b es ret st) (\<lambda>(ret, st).
           exec_loop b es a (Suc argc) ret st))))"
  by pat_completeness auto
termination
  by (relation "measure (\<lambda>(b, es, a, argc, ret, st). MAXARGS - argc)") auto

declare exec_loop.simps [simp del]

function (sequential) parseline :: "nat \<Rightarrow> char list \<Rightarrow> nat \<Rightarrow> pstate \<Rightarrow> (addr \<times> pstate) res"
  and parsepipe :: "nat \<Rightarrow> char list \<Rightarrow> nat \<Rightarrow> pstate \<Rightarrow> (addr \<times> pstate) res"
  and parseexec :: "nat \<Rightarrow> char list \<Rightarrow> nat \<Rightarrow> pstate \<Rightarrow> (addr \<times> pstate) res"
  and parseblock :: "nat \<Rightarrow> char list \<Rightarrow> nat \<Rightarrow> pstate \<Rightarrow> (addr \<times> pstate) res" where
  "parseline 0 b es st = Inl NoFuel"
| "parseline (Suc k) b es st =
     bindr (parsepipe k b es st) (\<lambda>(c, st).
     bindr (parse_backs b es c st) (\<lambda>(c, st).
     bindr (peekst b es '';'' st) (\<lambda>(semi, st).
     if semi then
       bindr (tokst b es st) (\<lambda>(_, _, _, st).
       bindr (parseline k b es st) (\<lambda>(r, st). mk_listcmd c r st))
     else Inr (c, st))))"
| "parsepipe 0 b es st = Inl NoFuel"
| "parsepipe (Suc k) b es st =
     bindr (parseexec k b es st) (\<lambda>(c, st).
     bindr (peekst b es ''|'' st) (\<lambda>(bar, st).
     if bar then
       bindr (tokst b es st) (\<lambda>(_, _, _, st).
       bindr (parsepipe k b es st) (\<lambda>(r, st). mk_pipecmd c r st))
     else Inr (c, st)))"
| "parseexec 0 b es st = Inl NoFuel"
| "parseexec (Suc k) b es st =
     bindr (peekst b es ''('' st) (\<lambda>(paren, st).
     if paren then parseblock k b es st
     else
       bindr (mk_execcmd st) (\<lambda>(a, st).
       bindr (parseredirs b es a st) (\<lambda>(ret, st).
       bindr (exec_loop b es a 0 ret st) (\<lambda>(argc, ret, st).
       bindr (set_arg a argc None None st) (\<lambda>st. Inr (ret, st))))))"
| "parseblock 0 b es st = Inl NoFuel"
| "parseblock (Suc k) b es st =
     bindr (peekst b es ''('' st) (\<lambda>(paren, st).
     if \<not> paren then Inl Panic
     else
       bindr (tokst b es st) (\<lambda>(_, _, _, st).
       bindr (parseline k b es st) (\<lambda>(c, st).
       bindr (peekst b es '')'' st) (\<lambda>(close, st).
       if \<not> close then Inl Panic
       else
         bindr (tokst b es st) (\<lambda>(_, _, _, st).
         parseredirs b es c st)))))"
  by pat_completeness auto
termination
  by (relation "measure (\<lambda>x. case x of Inl (Inl (k, _)) \<Rightarrow> k | Inl (Inr (k, _)) \<Rightarrow> k
       | Inr (Inl (k, _)) \<Rightarrow> k | Inr (Inr (k, _)) \<Rightarrow> k)") auto

subsection \<open>nulterminate and parsecmd\<close>

definition wr :: "char list \<Rightarrow> nat \<Rightarrow> char \<Rightarrow> char list res" where
  "wr b i c = (if i < length b then Inr (b[i := c]) else Inl OutOfBounds)"

text \<open>The loop \<^verbatim>\<open>for (i = 0; argv[i]; i++) *eargv[i] = 0\<close>, on what is left of both arrays.\<close>

fun nul_args :: "nat option list \<Rightarrow> nat option list \<Rightarrow> char list \<Rightarrow> char list res" where
  "nul_args (None # qs) es b = Inr b"
| "nul_args (Some q # qs) (Some e # es) b = bindr (wr b e NUL) (nul_args qs es)"
| "nul_args _ _ b = Inl OutOfBounds"

fun nulterminate :: "nat \<Rightarrow> (addr \<rightharpoonup> cmd) \<Rightarrow> addr option \<Rightarrow> char list \<Rightarrow> char list res" where
  "nulterminate k h None b = Inr b"
| "nulterminate 0 h (Some a) b = Inl NoFuel"
| "nulterminate (Suc k) h (Some a) b =
     (case h a of
        None \<Rightarrow> Inl OutOfBounds
      | Some (EXEC e) \<Rightarrow> nul_args (argv e) (eargv e) b
      | Some (REDIR r) \<Rightarrow>
          bindr (nulterminate k h (Some (r_cmd r)) b) (\<lambda>b. wr b (r_efile r) NUL)
      | Some (PIPE p) \<Rightarrow>
          bindr (nulterminate k h (Some (p_left p)) b) (nulterminate k h (Some (p_right p)))
      | Some (LIST l) \<Rightarrow>
          bindr (nulterminate k h (Some (l_left l)) b) (nulterminate k h (Some (l_right l)))
      | Some (BACK c) \<Rightarrow> nulterminate k h (Some (b_cmd c)) b)"

text \<open>Each level of the grammar costs one unit, each consumed character at most four.\<close>

definition parse_fuel :: "nat \<Rightarrow> nat" where
  "parse_fuel len = 4 * len + 4"

definition pstate0 :: pstate where
  "pstate0 = \<lparr>freem = 0, heap = Map.empty, ps = 0\<rparr>"

text \<open>\<^verbatim>\<open>parsecmd\<close> on the buffer \<open>b\<close>, with the arena as the fork finds it, and the buffer it leaves.\<close>

definition parsecmd :: "char list \<Rightarrow> (addr \<times> pstate \<times> char list) res" where
  "parsecmd b =
     bindr (strlen b 0) (\<lambda>es.
     bindr (parseline (parse_fuel es) b es pstate0) (\<lambda>(c, st).
     bindr (peekst b es [] st) (\<lambda>(_, st).
     if ps st \<noteq> es then Inl Panic
     else bindr (nulterminate (Suc c) (heap st) (Some c) b) (\<lambda>b'. Inr (c, st, b')))))"

end
