(* ===== verification/Shell_Safe.thy ===== *)
theory Shell_Safe
  imports Shell_Parse
begin

text \<open>
  The xv6 shell: safety of the parser. For every NUL-terminated buffer \<open>parsecmd\<close>
  returns or panics; it never reads or writes outside the buffer, the argument arrays or
  the arena, and never runs out of its fuel. The nodes it leaves lie in the arena without
  overlap, point to earlier nodes only, and hold words of the buffer. After
  \<open>nulterminate\<close> every word reads as a C string with exactly its own characters.
\<close>

subsection \<open>Outcomes: a panic, or a result with a property\<close>

definition outc :: "'a res \<Rightarrow> ('a \<Rightarrow> bool) \<Rightarrow> bool" where
  "outc m Q \<longleftrightarrow> (case m of Inl e \<Rightarrow> e = Panic | Inr x \<Rightarrow> Q x)"

lemma outc_simps [simp]: "outc (Inl e) Q \<longleftrightarrow> e = Panic" "outc (Inr x) Q \<longleftrightarrow> Q x"
  by (simp_all add: outc_def)

lemma outc_bind:
  "outc m R \<Longrightarrow> (\<And>x. m = Inr x \<Longrightarrow> R x \<Longrightarrow> outc (f x) Q) \<Longrightarrow> outc (bindr m f) Q"
  by (cases m) auto

lemma outc_mono: "outc m R \<Longrightarrow> (\<And>x. m = Inr x \<Longrightarrow> R x \<Longrightarrow> Q x) \<Longrightarrow> outc m Q"
  by (cases m) auto

subsection \<open>Well-formed nodes and states\<close>

fun size_of :: "cmd \<Rightarrow> nat" where
  "size_of (EXEC _) = sizeof_execcmd"
| "size_of (REDIR _) = sizeof_redircmd"
| "size_of (PIPE _) = sizeof_pipecmd"
| "size_of (LIST _) = sizeof_listcmd"
| "size_of (BACK _) = sizeof_backcmd"

lemmas sizeof_defs = sizeof_execcmd_def sizeof_redircmd_def sizeof_pipecmd_def
  sizeof_listcmd_def sizeof_backcmd_def MAXARGS_def

lemma size_of_pos [simp]: "0 < size_of c"
  by (cases c) (simp_all add: sizeof_defs)

definition args_upto :: "char list \<Rightarrow> nat \<Rightarrow> execcmd \<Rightarrow> bool" where
  "args_upto b n e \<longleftrightarrow> length (argv e) = MAXARGS \<and> length (eargv e) = MAXARGS \<and> n < MAXARGS \<and>
     (\<forall>i < n. \<exists>q eq. argv e ! i = Some q \<and> eargv e ! i = Some eq \<and> word_at b q eq) \<and>
     (\<forall>i. n \<le> i \<and> i < MAXARGS \<longrightarrow> argv e ! i = None \<and> eargv e ! i = None)"

fun node_ok :: "char list \<Rightarrow> (addr \<rightharpoonup> cmd) \<Rightarrow> addr \<Rightarrow> cmd \<Rightarrow> bool" where
  "node_ok b h a (EXEC e) \<longleftrightarrow> (\<exists>n. args_upto b n e)"
| "node_ok b h a (REDIR r) \<longleftrightarrow> r_cmd r < a \<and> r_cmd r \<in> dom h \<and> word_at b (r_file r) (r_efile r)"
| "node_ok b h a (PIPE p) \<longleftrightarrow> p_left p < a \<and> p_left p \<in> dom h \<and> p_right p < a \<and> p_right p \<in> dom h"
| "node_ok b h a (LIST l) \<longleftrightarrow> l_left l < a \<and> l_left l \<in> dom h \<and> l_right l < a \<and> l_right l \<in> dom h"
| "node_ok b h a (BACK c) \<longleftrightarrow> b_cmd c < a \<and> b_cmd c \<in> dom h"

definition heap_ok :: "char list \<Rightarrow> pstate \<Rightarrow> bool" where
  "heap_ok b st \<longleftrightarrow> freem st < MEM_SIZE \<and>
     (\<forall>a c. heap st a = Some c \<longrightarrow> node_ok b (heap st) a c \<and> a + size_of c \<le> freem st) \<and>
     (\<forall>a c a'. heap st a = Some c \<and> a' \<in> dom (heap st) \<and> a < a' \<longrightarrow> a + size_of c \<le> a')"

definition good :: "char list \<Rightarrow> nat \<Rightarrow> pstate \<Rightarrow> bool" where
  "good b es st \<longleftrightarrow> heap_ok b st \<and> ps st \<le> es"

text \<open>Later states: the cursor and the arena only grow, and old nodes outside \<open>M\<close> stay as they are.\<close>

definition ext :: "addr set \<Rightarrow> pstate \<Rightarrow> pstate \<Rightarrow> bool" where
  "ext M st st' \<longleftrightarrow> freem st \<le> freem st' \<and> ps st \<le> ps st' \<and> dom (heap st) \<subseteq> dom (heap st') \<and>
     (\<forall>x < freem st. x \<notin> M \<longrightarrow> heap st' x = heap st x)"

lemma ext_refl [simp]: "ext M st st"
  by (simp add: ext_def)

lemma ext_trans: "ext M st st' \<Longrightarrow> ext M st' st'' \<Longrightarrow> ext M st st''"
  by (fastforce simp: ext_def)

lemma ext_weaken: "ext M st st' \<Longrightarrow> M \<subseteq> M' \<Longrightarrow> ext M' st st'"
  by (auto simp: ext_def)

lemma ext_ps [simp]: "ext M st (st\<lparr>ps := s\<rparr>) \<longleftrightarrow> ps st \<le> s"
  by (simp add: ext_def)

lemma ext_dom: "ext M st st' \<Longrightarrow> a \<in> dom (heap st) \<Longrightarrow> a \<in> dom (heap st')"
  by (auto simp: ext_def)

lemma good_ps [simp]: "good b es (st\<lparr>ps := s\<rparr>) \<longleftrightarrow> heap_ok b st \<and> s \<le> es"
  by (simp add: good_def heap_ok_def)

lemma heap_ok_ps [simp]: "heap_ok b (st\<lparr>ps := s\<rparr>) = heap_ok b st"
  by (simp add: heap_ok_def)

lemma node_ok_mono: "node_ok b h a c \<Longrightarrow> dom h \<subseteq> dom h' \<Longrightarrow> node_ok b h' a c"
  by (cases c) auto

subsection \<open>The scanner on states\<close>

lemma peekst_outc:
  assumes "lexbuf b es" "good b es st"
  shows "outc (peekst b es toks st) (\<lambda>(r, st'). good b es st' \<and> ext M st st' \<and>
     st' = st\<lparr>ps := ps st'\<rparr>)"
proof -
  have "ps st \<le> es" "heap_ok b st" using assms(2) by (auto simp: good_def)
  with peek_ok [OF assms(1), of "ps st" toks] show ?thesis
    by (auto simp: peekst_def)
qed

lemma tokst_outc:
  assumes "lexbuf b es" "good b es st"
  shows "outc (tokst b es st) (\<lambda>(ret, q, eq, st'). good b es st' \<and> ext M st st' \<and>
     st' = st\<lparr>ps := ps st'\<rparr> \<and> token_ok b es (ps st) (ret, q, eq, ps st'))"
proof -
  have "ps st \<le> es" "heap_ok b st" using assms(2) by (auto simp: good_def)
  moreover obtain ret q eq s where t: "gettoken b es (ps st) = Inr (ret, q, eq, s)" "token_ok b es (ps st) (ret, q, eq, s)"
    using gettoken_ok [OF assms(1), of "ps st"] calculation(1) by auto
  moreover have "ps st \<le> s" "s \<le> es" using t(2) by (auto simp: token_ok_def)
  ultimately show ?thesis by (simp add: tokst_def)
qed

lemma symtok_outc:
  assumes "lexbuf b es" "good b es st" "peekst b es toks st0 = Inr (True, st)" "set toks \<subseteq> set symbols"
  shows "outc (tokst b es st) (\<lambda>(ret, q, eq, st'). good b es st' \<and> ext M st st' \<and>
     st' = st\<lparr>ps := ps st'\<rparr> \<and> ps st < ps st')"
  by (rule outc_mono [OF tokst_outc [OF assms(1,2)]])
    (auto dest: symbol_progress [OF assms(3) _ assms(4)])

subsection \<open>Allocation\<close>

lemma alloc_outc:
  assumes st: "good b es st" and ok: "node_ok b (heap st) (freem st) c" and sz: "size_of c = sz"
  shows "outc (alloc_node sz c st) (\<lambda>(a, st'). good b es st' \<and> ext M st st' \<and> a = freem st \<and>
     heap st' = (heap st)(a \<mapsto> c) \<and> ps st' = ps st)"
proof (cases "freem st + sz < MEM_SIZE")
  case False
  then show ?thesis by (simp add: alloc_node_def zalloc_def)
next
  case True
  have hp: "heap_ok b st" and psle: "ps st \<le> es" using st by (auto simp: good_def)
  have below: "a + size_of c' \<le> freem st" if "heap st a = Some c'" for a c'
    using hp that by (simp add: heap_ok_def)
  have lt: "a < freem st" if "a \<in> dom (heap st)" for a
    using that below size_of_pos by (fastforce intro: less_le_trans [of a "a + size_of _"])
  then have fresh: "freem st \<notin> dom (heap st)" by blast
  let ?h = "(heap st)(freem st \<mapsto> c)"
  let ?st = "st\<lparr>freem := freem st + sz, heap := ?h\<rparr>"
  have "node_ok b ?h a c' \<and> a + size_of c' \<le> freem st + sz" if "?h a = Some c'" for a c'
  proof (cases "a = freem st")
    case True
    with that ok sz show ?thesis by (auto intro: node_ok_mono)
  next
    case False
    with that hp have "node_ok b (heap st) a c'" by (auto simp: heap_ok_def)
    with False that below [of a c'] show ?thesis by (auto intro: node_ok_mono)
  qed
  moreover have "a + size_of c' \<le> a'" if "?h a = Some c'" "a' \<in> dom ?h" "a < a'" for a c' a'
  proof (cases "a' = freem st")
    case True
    with that below show ?thesis by (auto split: if_splits)
  next
    case False
    with that lt hp show ?thesis by (fastforce simp: heap_ok_def split: if_splits)
  qed
  ultimately have "heap_ok b ?st" using True by (auto simp: heap_ok_def)
  moreover have "ext M st ?st" using fresh by (auto simp: ext_def)
  ultimately show ?thesis using True psle by (simp add: alloc_node_def zalloc_def good_def)
qed

subsection \<open>Verification conditions\<close>

text \<open>
  \<open>later b es M s0 st\<close>: \<open>st\<close> is a good state after \<open>s0\<close>. Each rule below advances
  one call of a procedure under a bind and hands on what the call establishes.
\<close>

definition later :: "char list \<Rightarrow> nat \<Rightarrow> addr set \<Rightarrow> pstate \<Rightarrow> pstate \<Rightarrow> bool" where
  "later b es M s0 st \<longleftrightarrow> good b es st \<and> ext M s0 st"

definition has_node :: "pstate \<Rightarrow> addr \<Rightarrow> bool" where
  "has_node st a \<longleftrightarrow> a \<in> dom (heap st)"

abbreviation parsed :: "char list \<Rightarrow> nat \<Rightarrow> addr set \<Rightarrow> pstate \<Rightarrow> addr \<times> pstate \<Rightarrow> bool" where
  "parsed b es M s0 r \<equiv> (case r of (a, st) \<Rightarrow> later b es M s0 st \<and> has_node st a)"

lemma later_refl: "good b es st \<Longrightarrow> later b es M st st"
  by (simp add: later_def)

lemma later_good: "later b es M s0 st \<Longrightarrow> good b es st"
  by (simp add: later_def)

lemma later_trans: "later b es M s0 st \<Longrightarrow> later b es M st st' \<Longrightarrow> later b es M s0 st'"
  by (auto simp: later_def intro: ext_trans)

lemma later_node: "later b es M s0 st \<Longrightarrow> has_node s0 a \<Longrightarrow> has_node st a"
  by (auto simp: later_def has_node_def ext_def)

lemma later_ps: "later b es M s0 st \<Longrightarrow> ps s0 \<le> ps st \<and> ps st \<le> es"
  by (auto simp: later_def ext_def good_def)

lemma node_below:
  assumes "good b es st" "has_node st a"
  shows "a < freem st"
proof -
  obtain c where c: "heap st a = Some c" using assms(2) by (auto simp: has_node_def)
  then have "a + size_of c \<le> freem st" using assms(1) by (simp add: good_def heap_ok_def)
  then show ?thesis using size_of_pos [of c] by linarith
qed

lemma vc_peek:
  assumes "lexbuf b es" "later b es M s0 st"
    and "\<And>r st'. peekst b es toks st = Inr (r, st') \<Longrightarrow> later b es M s0 st' \<Longrightarrow> good b es st' \<Longrightarrow>
       ps st \<le> ps st' \<Longrightarrow> heap st' = heap st \<Longrightarrow> freem st' = freem st \<Longrightarrow> outc (f (r, st')) Q"
  shows "outc (bindr (peekst b es toks st) f) Q"
proof (rule outc_bind [OF peekst_outc [OF assms(1) later_good [OF assms(2)], of toks M]], clarify)
  fix r st'
  assume "peekst b es toks st = Inr (r, st')" "good b es st'" "ext M st st'"
  moreover from this have "heap st' = heap st" "freem st' = freem st" "ps st \<le> ps st'" "later b es M s0 st'"
    using assms(2) by (auto simp: later_def ext_def peekst_Inr_iff intro: ext_trans)
  ultimately show "outc (f (r, st')) Q" by (intro assms(3))
qed

lemma vc_tok:
  assumes "lexbuf b es" "later b es M s0 st"
    and "\<And>ret q eq st'. tokst b es st = Inr (ret, q, eq, st') \<Longrightarrow> later b es M s0 st' \<Longrightarrow> good b es st' \<Longrightarrow>
       token_ok b es (ps st) (ret, q, eq, ps st') \<Longrightarrow> heap st' = heap st \<Longrightarrow> freem st' = freem st \<Longrightarrow>
       outc (f (ret, q, eq, st')) Q"
  shows "outc (bindr (tokst b es st) f) Q"
proof (rule outc_bind [OF tokst_outc [OF assms(1) later_good [OF assms(2)], of M]], clarify)
  fix ret q eq st'
  assume "tokst b es st = Inr (ret, q, eq, st')" "good b es st'" "ext M st st'" "st' = st\<lparr>ps := ps st'\<rparr>"
    "token_ok b es (ps st) (ret, q, eq, ps st')"
  moreover from this have "heap st' = heap st" "freem st' = freem st" "later b es M s0 st'"
    using assms(2) by (auto simp: later_def ext_def tokst_Inr_iff intro: ext_trans)
  ultimately show "outc (f (ret, q, eq, st')) Q" by (intro assms(3))
qed

lemma vc_call:
  assumes "outc m (parsed b es M st)" "later b es M s0 st"
    and "\<And>a st'. m = Inr (a, st') \<Longrightarrow> later b es M s0 st' \<Longrightarrow> later b es M st st' \<Longrightarrow> good b es st' \<Longrightarrow>
       has_node st' a \<Longrightarrow> outc (f (a, st')) Q"
  shows "outc (bindr m f) Q"
  by (rule outc_bind [OF assms(1)]) (use assms(2,3) in \<open>auto dest: later_trans later_good\<close>)

lemma parsed_after:
  assumes "outc m (parsed b es M st)" "later b es M s0 st"
  shows "outc m (parsed b es M s0)"
  by (rule outc_mono [OF assms(1)]) (use assms(2) in \<open>auto dest: later_trans\<close>)

lemma alloc_parsed:
  assumes "good b es st" "node_ok b (heap st) (freem st) c" "size_of c = sz"
  shows "outc (alloc_node sz c st) (parsed b es M st)"
  by (rule outc_mono [OF alloc_outc [OF assms]]) (auto simp: later_def has_node_def)

lemma token_word: "token_ok b es s (CHR ''a'', q, eq, s') \<Longrightarrow> word_at b q eq"
  by (simp add: token_ok_def)

lemma mk_parsed:
  assumes "good b es st" "has_node st c"
  shows "word_at b q eq \<Longrightarrow> outc (redir_node tok c q eq st) (parsed b es M st)"
    and "outc (mk_backcmd c st) (parsed b es M st)"
proof -
  have "c < freem st" "c \<in> dom (heap st)" using assms node_below by (auto simp: has_node_def)
  then show "word_at b q eq \<Longrightarrow> outc (redir_node tok c q eq st) (parsed b es M st)"
    and "outc (mk_backcmd c st) (parsed b es M st)"
    using assms
    by (auto simp: redir_node_def mk_redircmd_def mk_backcmd_def later_refl intro!: alloc_parsed)
qed

lemma mk2_parsed:
  assumes "good b es st" "has_node st c" "has_node st d"
  shows "outc (mk_pipecmd c d st) (parsed b es M st)"
    and "outc (mk_listcmd c d st) (parsed b es M st)"
proof -
  have "c < freem st" "c \<in> dom (heap st)" "d < freem st" "d \<in> dom (heap st)"
    using assms node_below by (auto simp: has_node_def)
  then show "outc (mk_pipecmd c d st) (parsed b es M st)" and "outc (mk_listcmd c d st) (parsed b es M st)"
    using assms by (auto simp: mk_pipecmd_def mk_listcmd_def later_refl intro!: alloc_parsed)
qed

subsection \<open>The loops\<close>

lemma parseredirs_parsed:
  "lexbuf b es \<Longrightarrow> good b es st \<Longrightarrow> has_node st c \<Longrightarrow> outc (parseredirs b es c st) (parsed b es M st)"
proof (induction b es c st rule: parseredirs.induct)
  case (1 b es c st)
  note lex = "1.prems"(1)
  have IH: "outc (parseredirs b es c' st4) (parsed b es M st4)"
    if "peekst b es ''<>'' st = Inr (True, st1)" "tokst b es st1 = Inr (tok, q1, eq1, st2)"
      "tokst b es st2 = Inr (CHR ''a'', q, eq, st3)" "redir_node tok c q eq st3 = Inr (c', st4)"
      "good b es st4" "has_node st4 c'"
    for st1 tok q1 eq1 st2 q eq st3 c' st4
    by (rule "1.IH" [OF that(1) refl _ that(2) refl refl refl that(3) refl refl refl _ that(4) refl lex that(5,6)])
      simp_all
  note vc = vc_peek [OF lex, where M = M and ?s0.0 = st] vc_tok [OF lex, where M = M and ?s0.0 = st]
  have "later b es M st st" by (rule later_refl) (rule "1.prems"(2))
  then show ?case
    by (subst parseredirs.simps)
      (assumption | rule vc vc_call [OF mk_parsed(1), where M = M and ?s0.0 = st] conjI impI
        parsed_after [OF IH] later_node [OF _ "1.prems"(3), where M = M] | erule token_word | clarsimp)+
qed

lemma parse_backs_parsed:
  "lexbuf b es \<Longrightarrow> good b es st \<Longrightarrow> has_node st c \<Longrightarrow> outc (parse_backs b es c st) (parsed b es M st)"
proof (induction b es c st rule: parse_backs.induct)
  case (1 b es c st)
  note lex = "1.prems"(1)
  have IH: "outc (parse_backs b es c' st3) (parsed b es M st3)"
    if "peekst b es ''&'' st = Inr (True, st1)" "tokst b es st1 = Inr (tok, q1, eq1, st2)"
      "mk_backcmd c st2 = Inr (c', st3)" "good b es st3" "has_node st3 c'"
    for st1 tok q1 eq1 st2 c' st3
    by (rule "1.IH" [OF that(1) refl _ that(2) refl refl refl that(3) refl lex that(4,5)]) simp
  note vc = vc_peek [OF lex, where M = M and ?s0.0 = st] vc_tok [OF lex, where M = M and ?s0.0 = st]
  have "later b es M st st" by (rule later_refl) (rule "1.prems"(2))
  then show ?case
    by (subst parse_backs.simps)
      (assumption | rule vc vc_call [OF mk_parsed(2), where M = M and ?s0.0 = st] conjI impI
        parsed_after [OF IH] later_node [OF _ "1.prems"(3), where M = M] | clarsimp)+
qed

text \<open>The command under construction: its first \<open>n\<close> arguments are words, the rest are NULL.\<close>

definition exec_at :: "char list \<Rightarrow> addr \<Rightarrow> nat \<Rightarrow> pstate \<Rightarrow> bool" where
  "exec_at b a n st \<longleftrightarrow> (\<exists>e. heap st a = Some (EXEC e) \<and> args_upto b n e)"

lemma exec_at_node: "exec_at b a n st \<Longrightarrow> has_node st a"
  by (auto simp: exec_at_def has_node_def)

lemma exec_at_later:
  assumes "later b es {} st st'" "good b es st" "exec_at b a n st"
  shows "exec_at b a n st'"
proof -
  have "a < freem st" using node_below [OF assms(2) exec_at_node [OF assms(3)]] .
  then have "heap st' a = heap st a" using assms(1) by (simp add: later_def ext_def)
  then show ?thesis using assms(3) by (simp add: exec_at_def)
qed

lemma exec_update_later:
  assumes "later b es {a} s0 st" "heap st a = Some (EXEC e)" "args_upto b m e'"
  shows "later b es {a} s0 (st\<lparr>heap := (heap st)(a \<mapsto> EXEC e')\<rparr>)"
proof -
  let ?h = "(heap st)(a \<mapsto> EXEC e')"
  have d: "dom ?h = dom (heap st)" using assms(2) by auto
  have "a + size_of (EXEC e) \<le> freem st"
    using assms(1,2) unfolding later_def good_def heap_ok_def by blast
  then have "node_ok b ?h x c \<and> x + size_of c \<le> freem st" if "?h x = Some c" for x c
    using that assms node_ok_mono [of b "heap st" x c ?h] d
    by (cases "x = a") (auto simp: later_def good_def heap_ok_def)
  moreover have "x + size_of c \<le> y" if h: "?h x = Some c" "y \<in> dom ?h" "x < y" for x c y
  proof -
    obtain c' where "heap st x = Some c'" "size_of c' = size_of c"
      using h(1) assms(2) by (cases "x = a") auto
    then show ?thesis using h d assms(1) by (metis later_def good_def heap_ok_def)
  qed
  ultimately have "heap_ok b (st\<lparr>heap := ?h\<rparr>)"
    using assms(1) by (auto simp: later_def good_def heap_ok_def)
  then show ?thesis using assms(1) d by (auto simp: later_def good_def ext_def)
qed

lemma args_upto_Suc:
  "args_upto b n e \<Longrightarrow> word_at b q eq \<Longrightarrow> Suc n < MAXARGS \<Longrightarrow>
     args_upto b (Suc n) \<lparr>argv = (argv e)[n := Some q], eargv = (eargv e)[n := Some eq]\<rparr>"
  by (auto simp: args_upto_def nth_list_update less_Suc_eq)

lemma args_upto_None:
  "args_upto b n e \<Longrightarrow> args_upto b n \<lparr>argv = (argv e)[n := None], eargv = (eargv e)[n := None]\<rparr>"
  by (auto simp: args_upto_def nth_list_update)

lemma vc_set_arg:
  assumes "exec_at b a n st" "later b es {a} s0 st" "word_at b q eq"
    and "\<And>st'. set_arg a n (Some q) (Some eq) st = Inr st' \<Longrightarrow>
       (Suc n < MAXARGS \<Longrightarrow> later b es {a} s0 st' \<and> good b es st' \<and> exec_at b a (Suc n) st' \<and> dom (heap st') = dom (heap st)) \<Longrightarrow>
       outc (f st') Q"
  shows "outc (bindr (set_arg a n (Some q) (Some eq) st) f) Q"
proof -
  obtain e where e: "heap st a = Some (EXEC e)" "args_upto b n e" using assms(1) by (auto simp: exec_at_def)
  let ?e = "\<lparr>argv = (argv e)[n := Some q], eargv = (eargv e)[n := Some eq]\<rparr>"
  let ?st = "st\<lparr>heap := (heap st)(a \<mapsto> EXEC ?e)\<rparr>"
  have s: "set_arg a n (Some q) (Some eq) st = Inr ?st"
    using e by (simp add: set_arg_def args_upto_def)
  have "later b es {a} s0 ?st \<and> good b es ?st \<and> exec_at b a (Suc n) ?st \<and> dom (heap ?st) = dom (heap st)"
    if "Suc n < MAXARGS"
    using exec_update_later [OF assms(2) e(1) args_upto_Suc [OF e(2) assms(3) that]]
      args_upto_Suc [OF e(2) assms(3) that] e(1) by (auto simp: exec_at_def later_def)
  then show ?thesis using assms(4) [OF s] s by simp
qed

lemma parseredirs_exec:
  assumes "lexbuf b es" "later b es {a} s0 st" "exec_at b a n st" "has_node st r"
  shows "outc (parseredirs b es r st) (\<lambda>(r', st'). later b es {a} s0 st' \<and> exec_at b a n st' \<and> has_node st' r')"
proof (rule outc_mono [OF parseredirs_parsed [OF assms(1) later_good [OF assms(2)] assms(4), of "{}"]], clarify)
  fix r' st'
  assume l: "later b es {} st st'" and "has_node st' r'"
  moreover have "exec_at b a n st'" by (rule exec_at_later [OF l later_good [OF assms(2)] assms(3)])
  moreover have "later b es {a} st st'" using l by (auto simp: later_def intro: ext_weaken)
  then have "later b es {a} s0 st'" by (rule later_trans [OF assms(2)])
  ultimately show "later b es {a} s0 st' \<and> exec_at b a n st' \<and> has_node st' r'" by blast
qed

lemma vc_redirs_exec:
  assumes "lexbuf b es" "later b es {a} s0 st" "exec_at b a n st" "has_node st r"
    and "\<And>r' st'. parseredirs b es r st = Inr (r', st') \<Longrightarrow> later b es {a} s0 st' \<Longrightarrow> good b es st' \<Longrightarrow>
       exec_at b a n st' \<Longrightarrow> has_node st' r' \<Longrightarrow> outc (f (r', st')) Q"
  shows "outc (bindr (parseredirs b es r st) f) Q"
  by (rule outc_bind [OF parseredirs_exec [OF assms(1-4)]]) (use assms(5) in \<open>auto dest: later_good\<close>)

lemma exec_loop_outc:
  "lexbuf b es \<Longrightarrow> good b es st \<Longrightarrow> exec_at b a argc st \<Longrightarrow> has_node st ret \<Longrightarrow>
     outc (exec_loop b es a argc ret st)
       (\<lambda>(n, r, st'). later b es {a} st st' \<and> exec_at b a n st' \<and> has_node st' r)"
proof (induction b es a argc ret st rule: exec_loop.induct)
  case (1 b es a argc ret st)
  note lex = "1.prems"(1)
  have IH: "outc (exec_loop b es a (Suc argc) ret' st4)
       (\<lambda>(n, r, st'). later b es {a} st st' \<and> exec_at b a n st' \<and> has_node st' r)"
    if "peekst b es ''|)&;'' st = Inr (False, st1)" "tokst b es st1 = Inr (CHR ''a'', q, eq, st2)"
      "set_arg a argc (Some q) (Some eq) st2 = Inr st3" "Suc argc < MAXARGS"
      "parseredirs b es ret st3 = Inr (ret', st4)" "later b es {a} st st4" "exec_at b a (Suc argc) st4" "has_node st4 ret'"
    for st1 q eq st2 st3 ret' st4
  proof (rule outc_mono)
    show "outc (exec_loop b es a (Suc argc) ret' st4)
       (\<lambda>(n, r, st'). later b es {a} st4 st' \<and> exec_at b a n st' \<and> has_node st' r)"
      by (rule "1.IH" [OF that(1) refl _ that(2) refl refl refl _ _ that(3) _ that(5) refl lex later_good [OF that(6)] that(7,8)])
        (simp_all add: that(4))
  qed (use that(6) in \<open>auto dest: later_trans\<close>)
  have node: "has_node st' ret" if "dom (heap st') = dom (heap st)" for st'
    using "1.prems"(4) that by (simp add: has_node_def)
  have ex: "exec_at b a argc st'" if "heap st' = heap st" for st'
    using "1.prems"(3) that by (simp add: exec_at_def)
  note vc = vc_peek [OF lex, where M = "{a}" and ?s0.0 = st] vc_tok [OF lex, where M = "{a}" and ?s0.0 = st]
    vc_set_arg [where es = es and ?s0.0 = st] vc_redirs_exec [OF lex, where ?s0.0 = st and n = "Suc argc"]
  have "later b es {a} st st" by (rule later_refl) (rule "1.prems"(2))
  then show ?case
    by (subst exec_loop.simps)
      (assumption | rule vc conjI impI IH ex node | erule token_word | clarsimp)+
qed

subsection \<open>The recursive procedures: safe, and within their fuel\<close>

lemma vc_symtok:
  assumes "lexbuf b es" "peekst b es toks st0 = Inr (True, st)" "later b es M s0 st" "set toks \<subseteq> set symbols"
    and "\<And>ret q eq st'. tokst b es st = Inr (ret, q, eq, st') \<Longrightarrow> later b es M s0 st' \<Longrightarrow> good b es st' \<Longrightarrow>
       ps st < ps st' \<Longrightarrow> heap st' = heap st \<Longrightarrow> freem st' = freem st \<Longrightarrow> outc (f (ret, q, eq, st')) Q"
  shows "outc (bindr (tokst b es st) f) Q"
proof (rule vc_tok [OF assms(1,3)])
  fix ret q eq st'
  assume *: "tokst b es st = Inr (ret, q, eq, st')" "later b es M s0 st'" "good b es st'"
    "heap st' = heap st" "freem st' = freem st"
  have "ps st < ps st'" using symbol_progress [OF assms(2) *(1) assms(4)] by simp
  with * show "outc (f (ret, q, eq, st')) Q" by (intro assms(5))
qed

lemma mk_execcmd_outc:
  assumes "good b es st"
  shows "outc (mk_execcmd st) (\<lambda>(a, st'). good b es st' \<and> exec_at b a 0 st' \<and> ext {} st st' \<and> freem st \<le> a)"
proof -
  let ?e = "\<lparr>argv = replicate MAXARGS None, eargv = replicate MAXARGS None\<rparr> :: execcmd"
  have "args_upto b 0 ?e" by (simp add: args_upto_def MAXARGS_def)
  moreover from this have "node_ok b (heap st) (freem st) (EXEC ?e)" by auto
  ultimately show ?thesis
    unfolding mk_execcmd_def
    by (intro outc_mono [OF alloc_outc [OF assms, where M = "{}"]]) (auto simp: exec_at_def)
qed

lemma set_arg_None:
  assumes "exec_at b a n st" "later b es {a} s0 st"
  shows "\<exists>st'. set_arg a n None None st = Inr st' \<and> later b es {a} s0 st' \<and> dom (heap st') = dom (heap st)"
proof -
  obtain e where e: "heap st a = Some (EXEC e)" "args_upto b n e" using assms(1) by (auto simp: exec_at_def)
  then show ?thesis
    using exec_update_later [OF assms(2) e(1) args_upto_None [OF e(2)]]
    by (auto simp: set_arg_def args_upto_def)
qed

text \<open>The part of \<open>parseexec\<close> after the test for a block.\<close>

lemma simple_command_parsed:
  assumes lex: "lexbuf b es" and st: "good b es st"
  shows "outc (bindr (mk_execcmd st) (\<lambda>(a, st). bindr (parseredirs b es a st) (\<lambda>(ret, st).
       bindr (exec_loop b es a 0 ret st) (\<lambda>(argc, ret, st).
       bindr (set_arg a argc None None st) (\<lambda>st. Inr (ret, st)))))) (parsed b es {} st)"
proof (rule outc_bind [OF mk_execcmd_outc [OF st]], clarify)
  fix a st1
  assume st1: "good b es st1" "exec_at b a 0 st1" "ext {} st st1" "freem st \<le> a"
  let ?Q = "parsed b es {a} st1"
  have "outc (bindr (parseredirs b es a st1) (\<lambda>(ret, st). bindr (exec_loop b es a 0 ret st) (\<lambda>(argc, ret, st).
       bindr (set_arg a argc None None st) (\<lambda>st. Inr (ret, st))))) ?Q"
  proof (rule vc_redirs_exec [OF lex later_refl [OF st1(1)] st1(2) exec_at_node [OF st1(2)]], clarify)
    fix r st2
    assume st2: "later b es {a} st1 st2" "exec_at b a 0 st2" "has_node st2 r"
    show "outc (bindr (exec_loop b es a 0 r st2) (\<lambda>(argc, ret, st).
       bindr (set_arg a argc None None st) (\<lambda>st. Inr (ret, st)))) ?Q"
    proof (rule outc_bind [OF exec_loop_outc [OF lex later_good [OF st2(1)] st2(2,3)]], clarify)
      fix n r' st3
      assume st3: "later b es {a} st2 st3" "exec_at b a n st3" "has_node st3 r'"
      then obtain st4 where "set_arg a n None None st3 = Inr st4" "later b es {a} st1 st4" "dom (heap st4) = dom (heap st3)"
        using set_arg_None [OF st3(2) later_trans [OF st2(1) st3(1)]] by blast
      then show "outc (bindr (set_arg a n None None st3) (\<lambda>st. Inr (r', st))) ?Q"
        using st3(3) by (simp add: has_node_def)
    qed
  qed
  moreover have "later b es {} st st'" if l: "later b es {a} st1 st'" for st'
  proof -
    have "ext {} st st'" using l st1(3,4) by (fastforce simp: later_def ext_def)
    then show ?thesis using l by (simp add: later_def)
  qed
  ultimately show "outc (bindr (parseredirs b es a st1) (\<lambda>(ret, st). bindr (exec_loop b es a 0 ret st) (\<lambda>(argc, ret, st).
       bindr (set_arg a argc None None st) (\<lambda>st. Inr (ret, st))))) (parsed b es {} st)"
    by (auto elim: outc_mono)
qed

text \<open>
  With \<open>r\<close> characters left, \<open>4 r\<close> units and one per level of the grammar are enough.
\<close>

lemma node_heap: "has_node st c \<Longrightarrow> heap st' = heap st \<Longrightarrow> has_node st' c"
  by (simp add: has_node_def)

lemma fuel_drop:
  "4 * (es - ps st) + 1 \<le> Suc k \<Longrightarrow> later b es M st st1 \<Longrightarrow> ps st1 < ps st2 \<Longrightarrow> good b es st2 \<Longrightarrow>
     4 * (es - ps st2) + 4 \<le> k"
  by (auto simp: later_def ext_def good_def)

lemma parseline_body:
  assumes lex: "lexbuf b es" and st: "good b es st" and k: "4 * (es - ps st) + 1 \<le> Suc k"
    and IHp: "outc (parsepipe k b es st) (parsed b es {} st)"
    and IHl: "\<And>st'. good b es st' \<Longrightarrow> 4 * (es - ps st') + 4 \<le> k \<Longrightarrow> outc (parseline k b es st') (parsed b es {} st')"
  shows "outc (parseline (Suc k) b es st) (parsed b es {} st)"
proof -
  have l: "later b es {} st st" by (rule later_refl) (rule st)
  have sym: "set '';'' \<subseteq> set symbols" by (simp add: symbols_def)
  note vc = vc_call [OF IHp l] vc_call [OF parse_backs_parsed [OF lex], where ?s0.0 = st]
    vc_peek [OF lex, where M = "{}" and ?s0.0 = st] vc_symtok [OF lex _ _ sym, where M = "{}" and ?s0.0 = st]
    vc_call [OF IHl [OF _ fuel_drop [OF k]], where ?s0.0 = st] parsed_after [OF mk2_parsed(2)]
  show ?thesis
    by (simp only: parseline.simps)
      (assumption | rule vc conjI impI | erule (1) node_heap | clarsimp | (erule later_node, erule node_heap, simp))+
qed

lemma parsepipe_body:
  assumes lex: "lexbuf b es" and st: "good b es st" and k: "4 * (es - ps st) + 1 \<le> Suc k"
    and IHe: "outc (parseexec k b es st) (parsed b es {} st)"
    and IHp: "\<And>st'. good b es st' \<Longrightarrow> 4 * (es - ps st') + 4 \<le> k \<Longrightarrow> outc (parsepipe k b es st') (parsed b es {} st')"
  shows "outc (parsepipe (Suc k) b es st) (parsed b es {} st)"
proof -
  have l: "later b es {} st st" by (rule later_refl) (rule st)
  have sym: "set ''|'' \<subseteq> set symbols" by (simp add: symbols_def)
  note vc = vc_call [OF IHe l]
    vc_peek [OF lex, where M = "{}" and ?s0.0 = st] vc_symtok [OF lex _ _ sym, where M = "{}" and ?s0.0 = st]
    vc_call [OF IHp [OF _ fuel_drop [OF k]], where ?s0.0 = st] parsed_after [OF mk2_parsed(1)]
  show ?thesis
    by (simp only: parsepipe.simps)
      (assumption | rule vc conjI impI | erule (1) node_heap | clarsimp | (erule later_node, erule node_heap, simp))+
qed

lemma parseexec_body:
  assumes lex: "lexbuf b es" and st: "good b es st"
    and IHb: "\<And>st'. good b es st' \<Longrightarrow> ps st \<le> ps st' \<Longrightarrow> outc (parseblock k b es st') (parsed b es {} st')"
  shows "outc (parseexec (Suc k) b es st) (parsed b es {} st)"
proof -
  have l: "later b es {} st st" by (rule later_refl) (rule st)
  note vc = vc_peek [OF lex, where M = "{}" and ?s0.0 = st] parsed_after [OF IHb] parsed_after [OF simple_command_parsed [OF lex]]
  show ?thesis
    by (simp only: parseexec.simps)
      (rule vc(1) [OF l], simp split: if_split, intro conjI impI, (rule vc(2,3); assumption)+)
qed

lemma parseblock_body:
  assumes lex: "lexbuf b es" and st: "good b es st" and k: "4 * (es - ps st) + 1 \<le> Suc k"
    and IHl: "\<And>st'. good b es st' \<Longrightarrow> 4 * (es - ps st') + 4 \<le> k \<Longrightarrow> outc (parseline k b es st') (parsed b es {} st')"
  shows "outc (parseblock (Suc k) b es st) (parsed b es {} st)"
proof -
  have l: "later b es {} st st" by (rule later_refl) (rule st)
  have sym: "set ''('' \<subseteq> set symbols" "set '')'' \<subseteq> set symbols" by (simp_all add: symbols_def)
  note vc = vc_peek [OF lex, where M = "{}" and ?s0.0 = st]
    vc_symtok [OF lex _ _ sym(1), where M = "{}" and ?s0.0 = st] vc_symtok [OF lex _ _ sym(2), where M = "{}" and ?s0.0 = st]
    vc_call [OF IHl [OF _ fuel_drop [OF k]], where ?s0.0 = st] parsed_after [OF parseredirs_parsed [OF lex]]
  show ?thesis
    by (simp only: parseblock.simps)
      (assumption | rule l | rule vc conjI impI | erule (1) node_heap | clarsimp | (erule later_node, erule node_heap, simp)
        | (erule node_heap, simp))+
qed

lemma parse_parsed:
  assumes lex: "lexbuf b es"
  shows "(\<forall>st. good b es st \<and> 4 * (es - ps st) + 4 \<le> k \<longrightarrow> outc (parseline k b es st) (parsed b es {} st)) \<and>
    (\<forall>st. good b es st \<and> 4 * (es - ps st) + 3 \<le> k \<longrightarrow> outc (parsepipe k b es st) (parsed b es {} st)) \<and>
    (\<forall>st. good b es st \<and> 4 * (es - ps st) + 2 \<le> k \<longrightarrow> outc (parseexec k b es st) (parsed b es {} st)) \<and>
    (\<forall>st. good b es st \<and> 4 * (es - ps st) + 1 \<le> k \<longrightarrow> outc (parseblock k b es st) (parsed b es {} st))"
proof (induction k)
  case 0
  show ?case by simp
next
  case (Suc k)
  show ?case
  proof (intro conjI allI impI; elim conjE)
    fix st assume "good b es st" "4 * (es - ps st) + 4 \<le> Suc k"
    then show "outc (parseline (Suc k) b es st) (parsed b es {} st)"
      using Suc.IH by (intro parseline_body [OF lex]) auto
  next
    fix st assume "good b es st" "4 * (es - ps st) + 3 \<le> Suc k"
    then show "outc (parsepipe (Suc k) b es st) (parsed b es {} st)"
      using Suc.IH by (intro parsepipe_body [OF lex]) auto
  next
    fix st assume "good b es st" "4 * (es - ps st) + 2 \<le> Suc k"
    then show "outc (parseexec (Suc k) b es st) (parsed b es {} st)"
      using Suc.IH by (intro parseexec_body [OF lex]) auto
  next
    fix st assume "good b es st" "4 * (es - ps st) + 1 \<le> Suc k"
    then show "outc (parseblock (Suc k) b es st) (parsed b es {} st)"
      using Suc.IH by (intro parseblock_body [OF lex]) auto
  qed
qed

subsection \<open>Reading the words back\<close>

text \<open>
  The command tree that a reader of the nodes sees, given how it reads a word between two
  pointers: \<open>\<lambda>q eq. substr q eq b\<close> is the text between them, \<open>\<lambda>q _. cstr b q\<close> what
  \<^verbatim>\<open>execve\<close> and \<^verbatim>\<open>open\<close> get, the C string at the first pointer.
\<close>

datatype ast = Exec "string list" | Redir ast string int int | Pipe ast ast | Seq ast ast | Back ast

definition cstr :: "char list \<Rightarrow> nat \<Rightarrow> string" where
  "cstr b i = takeWhile (\<lambda>c. c \<noteq> NUL) (drop i b)"

fun args_of :: "(nat \<Rightarrow> nat \<Rightarrow> string) \<Rightarrow> nat option list \<Rightarrow> nat option list \<Rightarrow> string list option" where
  "args_of rdw (Some q # qs) (Some e # es) = map_option (Cons (rdw q e)) (args_of rdw qs es)"
| "args_of rdw (None # qs) es = Some []"
| "args_of rdw _ _ = None"

fun ast_of :: "nat \<Rightarrow> (addr \<rightharpoonup> cmd) \<Rightarrow> (nat \<Rightarrow> nat \<Rightarrow> string) \<Rightarrow> addr \<Rightarrow> ast option" where
  "ast_of 0 h rdw a = None"
| "ast_of (Suc k) h rdw a =
     (case h a of
        None \<Rightarrow> None
      | Some (EXEC e) \<Rightarrow> map_option Exec (args_of rdw (argv e) (eargv e))
      | Some (REDIR r) \<Rightarrow>
          map_option (\<lambda>t. Redir t (rdw (r_file r) (r_efile r)) (r_mode r) (r_fd r)) (ast_of k h rdw (r_cmd r))
      | Some (PIPE p) \<Rightarrow>
          Option.bind (ast_of k h rdw (p_left p)) (\<lambda>l. map_option (Pipe l) (ast_of k h rdw (p_right p)))
      | Some (LIST p) \<Rightarrow>
          Option.bind (ast_of k h rdw (l_left p)) (\<lambda>l. map_option (Seq l) (ast_of k h rdw (l_right p)))
      | Some (BACK p) \<Rightarrow> map_option Back (ast_of k h rdw (b_cmd p)))"

text \<open>
  \<open>nulled b b'\<close>: \<open>b'\<close> is \<open>b\<close> with NULs stored over some characters that belong to no
  word. \<open>more_nul\<close>: nothing is un-terminated later on.
\<close>

definition nulled :: "char list \<Rightarrow> char list \<Rightarrow> bool" where
  "nulled b b' \<longleftrightarrow> length b' = length b \<and>
     (\<forall>i < length b. b' ! i = b ! i \<or> b' ! i = NUL \<and> \<not> wordch (b ! i))"

definition more_nul :: "char list \<Rightarrow> char list \<Rightarrow> bool" where
  "more_nul b b' \<longleftrightarrow> length b' = length b \<and> (\<forall>i < length b. b ! i = NUL \<longrightarrow> b' ! i = NUL)"

lemma nulled_refl [simp]: "nulled b b" and more_nul_refl [simp]: "more_nul b b"
  by (simp_all add: nulled_def more_nul_def)

lemma more_nul_trans: "more_nul b b' \<Longrightarrow> more_nul b' b'' \<Longrightarrow> more_nul b b''"
  by (simp add: more_nul_def)

lemma wr_word_end:
  assumes "nulled b b'" "word_at b q eq"
  shows "\<exists>b''. wr b' eq NUL = Inr b'' \<and> nulled b b'' \<and> more_nul b' b'' \<and> b'' ! eq = NUL"
  using assms by (auto simp: wr_def nulled_def more_nul_def word_at_def nth_list_update)

lemma cstr_word:
  assumes "nulled b b'" "word_at b q eq" "b' ! eq = NUL"
  shows "cstr b' q = substr q eq b"
proof -
  have len: "length b' = length b" "q < eq" "eq < length b" using assms by (auto simp: nulled_def word_at_def)
  have same: "b' ! i = b ! i \<and> b ! i \<noteq> NUL" if "q \<le> i" "i < eq" for i
  proof -
    have "wordch (b ! i)" "i < length b" using assms(2) that len by (auto simp: word_at_def)
    then show ?thesis using assms(1) by (auto simp: nulled_def wordch_def)
  qed
  have sub: "substr q eq b' = substr q eq b"
    using len same by (intro nth_equalityI) (simp_all add: substr_nth)
  have "drop q b' = substr q eq b' @ b' ! eq # drop (Suc eq) b'"
  proof -
    have "drop q b' = substr q eq b' @ drop (eq - q) (drop q b')"
      unfolding substr_def by (rule append_take_drop_id [symmetric])
    moreover have "drop (eq - q) (drop q b') = b' ! eq # drop (Suc eq) b'"
      using len by (simp add: Cons_nth_drop_Suc)
    ultimately show ?thesis by metis
  qed
  moreover have "\<forall>c \<in> set (substr q eq b'). c \<noteq> NUL"
    using len same by (auto simp: in_set_conv_nth substr_nth)
  ultimately show ?thesis using assms(3) sub by (simp add: cstr_def takeWhile_append2)
qed

text \<open>\<open>nulterminate\<close> from the node at \<open>a\<close>: it ends, and every word below \<open>a\<close> then reads as a C string.\<close>

definition reads_back :: "char list \<Rightarrow> (addr \<rightharpoonup> cmd) \<Rightarrow> nat \<Rightarrow> addr \<Rightarrow> char list \<Rightarrow> bool" where
  "reads_back b h k a b1 \<longleftrightarrow> (\<forall>b2. nulled b b2 \<and> more_nul b1 b2 \<longrightarrow>
     ast_of k h (\<lambda>q _. cstr b2 q) a = ast_of k h (\<lambda>q eq. substr q eq b) a \<and>
     ast_of k h (\<lambda>q eq. substr q eq b) a \<noteq> None)"

lemma reads_back_mono: "reads_back b h k a b1 \<Longrightarrow> more_nul b1 b2 \<Longrightarrow> reads_back b h k a b2"
  by (auto simp: reads_back_def intro: more_nul_trans)

lemma nul_args_ok:
  assumes "nulled b b1" "n < length qs" "n < length es" "qs ! n = None"
    and "\<forall>i < n. \<exists>q eq. qs ! i = Some q \<and> es ! i = Some eq \<and> word_at b q eq"
  shows "\<exists>b2. nul_args qs es b1 = Inr b2 \<and> nulled b b2 \<and> more_nul b1 b2 \<and>
     (\<forall>b3. nulled b b3 \<and> more_nul b2 b3 \<longrightarrow>
        args_of (\<lambda>q _. cstr b3 q) qs es = args_of (\<lambda>q eq. substr q eq b) qs es \<and>
        args_of (\<lambda>q eq. substr q eq b) qs es \<noteq> None)"
  using assms
proof (induction n arbitrary: qs es b1)
  case 0
  then obtain qs' where "qs = None # qs'" by (cases qs) auto
  then show ?case using 0 by (intro exI [of _ b1]) auto
next
  case (Suc n)
  obtain q eq qs' es' where c: "qs = Some q # qs'" "es = Some eq # es'" "word_at b q eq"
    using Suc.prems(2,3,5) by (cases qs; cases es) force+
  obtain b2 where b2: "wr b1 eq NUL = Inr b2" "nulled b b2" "more_nul b1 b2" "b2 ! eq = NUL"
    using wr_word_end [OF Suc.prems(1) c(3)] by blast
  have "\<forall>i < n. \<exists>q eq. qs' ! i = Some q \<and> es' ! i = Some eq \<and> word_at b q eq"
    using Suc.prems(5) c(1,2) by fastforce
  then obtain b3 where b3: "nul_args qs' es' b2 = Inr b3" "nulled b b3" "more_nul b2 b3"
    and args: "\<And>b4. nulled b b4 \<Longrightarrow> more_nul b3 b4 \<Longrightarrow>
        args_of (\<lambda>q _. cstr b4 q) qs' es' = args_of (\<lambda>q eq. substr q eq b) qs' es' \<and>
        args_of (\<lambda>q eq. substr q eq b) qs' es' \<noteq> None"
    using Suc.IH [OF b2(2), of qs' es'] Suc.prems c(1,2) by auto
  have "cstr b4 q = substr q eq b" if "nulled b b4" "more_nul b3 b4" for b4
    using that c(3) b2 b3 by (intro cstr_word) (auto simp: nulled_def more_nul_def word_at_def)
  with args b2 b3 c show ?case
    by (intro exI [of _ b3]) (auto intro: more_nul_trans)
qed

text \<open>One node, given its children.\<close>

lemma nulterminate_two:
  assumes l: "\<exists>b2. nulterminate k h (Some l) b1 = Inr b2 \<and> nulled b b2 \<and> more_nul b1 b2 \<and> reads_back b h k l b2"
    and r: "\<And>b1. nulled b b1 \<Longrightarrow>
      \<exists>b2. nulterminate k h (Some r) b1 = Inr b2 \<and> nulled b b2 \<and> more_nul b1 b2 \<and> reads_back b h k r b2"
  shows "\<exists>b2. bindr (nulterminate k h (Some l) b1) (nulterminate k h (Some r)) = Inr b2 \<and> nulled b b2 \<and>
     more_nul b1 b2 \<and> reads_back b h k l b2 \<and> reads_back b h k r b2"
proof -
  obtain b2 where b2: "nulterminate k h (Some l) b1 = Inr b2" "nulled b b2" "more_nul b1 b2" "reads_back b h k l b2"
    using l by blast
  moreover obtain b3 where b3: "nulterminate k h (Some r) b2 = Inr b3" "nulled b b3" "more_nul b2 b3" "reads_back b h k r b3"
    using r [OF b2(2)] by blast
  ultimately show ?thesis by (auto intro: more_nul_trans reads_back_mono)
qed

lemma nulterminate_redir:
  assumes l: "\<exists>b2. nulterminate k h (Some l) b1 = Inr b2 \<and> nulled b b2 \<and> more_nul b1 b2 \<and> reads_back b h k l b2"
    and w: "word_at b q eq"
  shows "\<exists>b3. bindr (nulterminate k h (Some l) b1) (\<lambda>b2. wr b2 eq NUL) = Inr b3 \<and> nulled b b3 \<and> more_nul b1 b3 \<and>
     reads_back b h k l b3 \<and> b3 ! eq = NUL"
proof -
  obtain b2 where b2: "nulterminate k h (Some l) b1 = Inr b2" "nulled b b2" "more_nul b1 b2" "reads_back b h k l b2"
    using l by blast
  moreover obtain b3 where "wr b2 eq NUL = Inr b3" "nulled b b3" "more_nul b2 b3" "b3 ! eq = NUL"
    using wr_word_end [OF b2(2) w] by blast
  ultimately show ?thesis by (auto intro: more_nul_trans reads_back_mono)
qed

lemma nulterminate_ok:
  assumes h: "heap_ok b st"
  shows "heap st a \<noteq> None \<Longrightarrow> a < k \<Longrightarrow> nulled b b1 \<Longrightarrow>
    \<exists>b2. nulterminate k (heap st) (Some a) b1 = Inr b2 \<and> nulled b b2 \<and> more_nul b1 b2 \<and>
      reads_back b (heap st) k a b2"
proof (induction k arbitrary: a b1)
  case 0
  then show ?case by simp
next
  case (Suc k)
  obtain c where c: "heap st a = Some c" using Suc.prems by auto
  then have ok: "node_ok b (heap st) a c" using h by (simp add: heap_ok_def)
  have IH: "\<exists>b2. nulterminate k (heap st) (Some x) b' = Inr b2 \<and> nulled b b2 \<and> more_nul b' b2 \<and> reads_back b (heap st) k x b2"
    if "x \<in> dom (heap st)" "x < a" "nulled b b'" for x b'
    using Suc.IH [of x b'] that Suc.prems(2) by auto
  show ?case
  proof (cases c)
    case (EXEC e)
    with ok obtain n where "args_upto b n e" by auto
    then show ?thesis
      using nul_args_ok [OF Suc.prems(3), of n "argv e" "eargv e"] c EXEC
      by (fastforce simp: args_upto_def reads_back_def)
  next
    case (REDIR r)
    with ok have w: "word_at b (r_file r) (r_efile r)" and x: "r_cmd r \<in> dom (heap st)" "r_cmd r < a" by auto
    obtain b3 where b3: "bindr (nulterminate k (heap st) (Some (r_cmd r)) b1) (\<lambda>b2. wr b2 (r_efile r) NUL) = Inr b3"
      "nulled b b3" "more_nul b1 b3" "reads_back b (heap st) k (r_cmd r) b3" "b3 ! r_efile r = NUL"
      using nulterminate_redir [OF IH [OF x Suc.prems(3)] w] by blast
    have "cstr b4 (r_file r) = substr (r_file r) (r_efile r) b" if "nulled b b4" "more_nul b3 b4" for b4
      using that w b3(2,5) by (intro cstr_word) (auto simp: nulled_def more_nul_def word_at_def)
    with b3 c REDIR show ?thesis by (auto simp: reads_back_def)
  next
    case (PIPE p)
    with ok have x: "p_left p \<in> dom (heap st)" "p_left p < a" "p_right p \<in> dom (heap st)" "p_right p < a" by auto
    from nulterminate_two [OF IH [OF x(1,2) Suc.prems(3)] IH [OF x(3,4)]] c PIPE show ?thesis
      by (fastforce simp: reads_back_def)
  next
    case (LIST l)
    with ok have x: "l_left l \<in> dom (heap st)" "l_left l < a" "l_right l \<in> dom (heap st)" "l_right l < a" by auto
    from nulterminate_two [OF IH [OF x(1,2) Suc.prems(3)] IH [OF x(3,4)]] c LIST show ?thesis
      by (fastforce simp: reads_back_def)
  next
    case (BACK p)
    with ok have x: "b_cmd p \<in> dom (heap st)" "b_cmd p < a" by auto
    from IH [OF x Suc.prems(3)] c BACK show ?thesis by (fastforce simp: reads_back_def)
  qed
qed

subsection \<open>parsecmd\<close>

lemma strlen_loop_lexbuf:
  "strlen_loop b s len = Inr n \<Longrightarrow> \<forall>i < s. b ! i \<noteq> NUL \<Longrightarrow>
     len \<le> n \<and> lexbuf b (s + (n - len))"
proof (induction b s len rule: strlen_loop.induct)
  case (1 b s len)
  show ?case
  proof (cases "s < length b \<and> b ! s \<noteq> NUL")
    case True
    then have "strlen_loop b (Suc s) (Suc len) = Inr n" using "1.prems"(1) by (simp add: strlen_loop.simps [of b s])
    moreover have "\<forall>i < Suc s. b ! i \<noteq> NUL" using True "1.prems"(2) less_Suc_eq by auto
    ultimately have "Suc len \<le> n \<and> lexbuf b (Suc s + (n - Suc len))" using "1.IH" True by blast
    moreover from this have "Suc s + (n - Suc len) = s + (n - len)" by linarith
    ultimately show ?thesis by simp
  next
    case False
    then show ?thesis using "1.prems" by (auto simp: strlen_loop.simps [of b s] lexbuf_def split: if_splits)
  qed
qed

lemma strlen_lexbuf: "strlen b 0 = Inr es \<Longrightarrow> lexbuf b es"
  using strlen_loop_lexbuf [of b 0 0 es] by (simp add: strlen_def)

lemma lexbuf_strlen: "lexbuf b es \<Longrightarrow> strlen b 0 = Inr es"
  using strlen_loop_eq [of 0 es b 0] by (simp add: strlen_def lexbuf_def)

lemma NUL_lexbuf: "NUL \<in> set b \<Longrightarrow> \<exists>es. lexbuf b es"
proof -
  assume "NUL \<in> set b"
  then obtain i where i: "i < length b" "b ! i = NUL" by (auto simp: in_set_conv_nth)
  define es where "es = (LEAST i. b ! i = NUL)"
  have "b ! es = NUL" "es \<le> i" using i(2) unfolding es_def by (auto intro: LeastI Least_le)
  moreover have "\<forall>j < es. b ! j \<noteq> NUL" unfolding es_def by (auto dest: not_less_Least)
  ultimately show ?thesis using i(1) unfolding lexbuf_def by (intro exI [of _ es]) auto
qed

lemma good_start: "good b es pstate0"
  by (simp add: good_def heap_ok_def pstate0_def MEM_SIZE_def)

lemma parsecmd_outc:
  assumes lex: "lexbuf b es"
  shows "outc (parsecmd b) (\<lambda>(c, st, b'). heap_ok b st \<and> c \<in> dom (heap st) \<and> ps st = es \<and> nulled b b' \<and>
     reads_back b (heap st) (Suc c) c b')"
proof -
  have "outc (parseline (parse_fuel es) b es pstate0) (parsed b es {} pstate0)"
    using parse_parsed [OF lex] good_start by (simp add: parse_fuel_def pstate0_def)
  then have "outc (bindr (parseline (parse_fuel es) b es pstate0) (\<lambda>(c, st). bindr (peekst b es [] st) (\<lambda>(_, st).
     if ps st \<noteq> es then Inl Panic
     else bindr (nulterminate (Suc c) (heap st) (Some c) b) (\<lambda>b'. Inr (c, st, b')))))
     (\<lambda>(c, st, b'). heap_ok b st \<and> c \<in> dom (heap st) \<and> ps st = es \<and> nulled b b' \<and> reads_back b (heap st) (Suc c) c b')"
  proof (rule vc_call [OF _ later_refl [OF good_start]], clarify)
    fix c st
    assume st: "later b es {} pstate0 st" "has_node st c"
    show "outc (bindr (peekst b es [] st) (\<lambda>(_, st). if ps st \<noteq> es then Inl Panic
       else bindr (nulterminate (Suc c) (heap st) (Some c) b) (\<lambda>b'. Inr (c, st, b'))))
       (\<lambda>(c, st, b'). heap_ok b st \<and> c \<in> dom (heap st) \<and> ps st = es \<and> nulled b b' \<and> reads_back b (heap st) (Suc c) c b')"
    proof (rule vc_peek [OF lex st(1)], clarify)
      fix st' assume st': "good b es st'" "heap st' = heap st"
      have ok: "heap_ok b st'" using st'(1) by (simp add: good_def)
      have "heap st' c \<noteq> None" using st(2) st'(2) by (auto simp: has_node_def)
      then obtain b' where "nulterminate (Suc c) (heap st') (Some c) b = Inr b'" "nulled b b'" "reads_back b (heap st') (Suc c) c b'"
        using nulterminate_ok [OF ok, of c "Suc c" b] by auto
      then show "outc (if ps st' \<noteq> es then Inl Panic
         else bindr (nulterminate (Suc c) (heap st') (Some c) b) (\<lambda>b'. Inr (c, st', b')))
         (\<lambda>(c, st, b'). heap_ok b st \<and> c \<in> dom (heap st) \<and> ps st = es \<and> nulled b b' \<and> reads_back b (heap st) (Suc c) c b')"
        using ok \<open>heap st' c \<noteq> None\<close> by auto
    qed
  qed
  then show ?thesis using lexbuf_strlen [OF lex] by (simp add: parsecmd_def)
qed

lemma parsecmd_reads_back:
  assumes "parsecmd b = Inr (c, st, b')"
  shows "nulled b b' \<and> reads_back b (heap st) (Suc c) c b'"
proof -
  obtain es where "strlen b 0 = Inr es" using assms by (auto simp: parsecmd_def bindr_Inr_iff)
  then have "lexbuf b es" by (rule strlen_lexbuf)
  then show ?thesis using parsecmd_outc assms by fastforce
qed

text \<open>
  C1: on every NUL-terminated command buffer the parser of sh-xv6.c returns or panics on a
  failed assertion. It never reads or writes outside the buffer, the argument arrays or the
  arena, and its recursion ends. When it returns, every node lies inside the 4096-byte
  arena, no two nodes overlap, child pointers lead to nodes at lower addresses, argument
  lists are NULL-terminated words of the buffer, and the whole line has been consumed.
\<close>

theorem parsecmd_safe:
  assumes "NUL \<in> set b"
  shows "parsecmd b = Inl Panic \<or>
    (\<exists>c st b'. parsecmd b = Inr (c, st, b') \<and> heap_ok b st \<and> c \<in> dom (heap st) \<and>
       strlen b 0 = Inr (ps st) \<and> length b' = length b)"
proof -
  obtain es where lex: "lexbuf b es" using NUL_lexbuf [OF assms] by blast
  show ?thesis
    using parsecmd_outc [OF lex] lexbuf_strlen [OF lex]
    by (cases "parsecmd b") (auto simp: nulled_def)
qed

theorem parsecmd_safe_witness:
  "\<exists>c st b'. parsecmd (''(ls | wc) > out; cd &'' @ [NL, NUL]) = Inr (c, st, b') \<and>
     heap_ok (''(ls | wc) > out; cd &'' @ [NL, NUL]) st"
proof -
  have "\<not> isl (parsecmd (''(ls | wc) > out; cd &'' @ [NL, NUL]))" by code_simp
  then have "parsecmd (''(ls | wc) > out; cd &'' @ [NL, NUL]) \<noteq> Inl Panic" by auto
  then show ?thesis using parsecmd_safe [of "''(ls | wc) > out; cd &'' @ [NL, NUL]"] by auto
qed

text \<open>
  C2: after \<^verbatim>\<open>nulterminate\<close>, the command read through C strings, as
  \<^verbatim>\<open>execve\<close> and \<^verbatim>\<open>open\<close> read it, is exactly the command as
  parsed: every argument and file name is its own text of the line, cut off at the right
  place and not damaged by the NULs stored for its neighbours.
\<close>

theorem nulterminate_strings:
  assumes "parsecmd b = Inr (c, st, b')"
  shows "ast_of (Suc c) (heap st) (\<lambda>q _. cstr b' q) c = ast_of (Suc c) (heap st) (\<lambda>q eq. substr q eq b) c \<and>
     ast_of (Suc c) (heap st) (\<lambda>q eq. substr q eq b) c \<noteq> None"
  using parsecmd_reads_back [OF assms] more_nul_refl [of b'] unfolding reads_back_def by blast

theorem nulterminate_strings_witness:
  "\<exists>c st b'. parsecmd (''ls|wc>out'' @ [NL, NUL]) = Inr (c, st, b') \<and>
     ast_of (Suc c) (heap st) (\<lambda>q _. cstr b' q) c = Some (Pipe (Exec [''ls'']) (Redir (Exec [''wc'']) ''out'' 577 1))"
proof -
  let ?b = "''ls|wc>out'' @ [NL, NUL]"
  have "case parsecmd ?b of Inl e \<Rightarrow> False | Inr (c, st, b') \<Rightarrow>
     ast_of (Suc c) (heap st) (\<lambda>q eq. substr q eq ?b) c = Some (Pipe (Exec [''ls'']) (Redir (Exec [''wc'']) ''out'' 577 1))"
    by code_simp
  then obtain c st b' where p: "parsecmd ?b = Inr (c, st, b')"
    and "ast_of (Suc c) (heap st) (\<lambda>q eq. substr q eq ?b) c = Some (Pipe (Exec [''ls'']) (Redir (Exec [''wc'']) ''out'' 577 1))"
    by (auto split: sum.splits)
  then show ?thesis using nulterminate_strings [OF p] by metis
qed

end
