(* ===== verification/Shell_Run.thy ===== *)
theory Shell_Run
  imports Shell_Safe
begin

text \<open>
  The xv6 shell, third part: running a parsed command and the main loop. The kernel is not
  part of the program: a process is the tree of the system calls it makes, with one branch
  for every reply the kernel may give (\<^verbatim>\<open>fork\<close> replies 0 to the child and the
  child's id to the parent, so both processes are branches of the same tree). What the
  shell relies on of the descriptor table is the interface \<open>fd_kernel\<close>.
  Shown: running the heap nodes is running the command tree, \<open>runcmd\<close> never returns and
  never touches an invalid node, pipes and redirections end up on the right descriptors,
  and the main loop hands over exactly the lines of its input.
\<close>

subsection \<open>Processes as trees of system calls\<close>

datatype sysc = SysWrite int string | SysClose int | SysOpen string int int
  | SysExecve string "string list" | SysFork | SysWait4 int | SysPipe | SysDup int

record reply =
  rax :: int
  pfd :: "int \<times> int"

text \<open>\<open>Exit\<close>: the process ended; \<open>Return\<close>: the procedure came back to its caller;
  \<open>Crash\<close>: an access outside the nodes.\<close>

datatype io = Sys sysc "reply \<Rightarrow> io" | Exit int | Return | Crash

primrec then_io :: "io \<Rightarrow> io \<Rightarrow> io" where
  "then_io (Sys s k) c = Sys s (\<lambda>r. then_io (k r) c)"
| "then_io (Exit n) c = Exit n"
| "then_io Return c = c"
| "then_io Crash c = Crash"

fun print_io :: "string list \<Rightarrow> io" where
  "print_io [] = Return"
| "print_io (s # ss) = Sys (SysWrite 2 s) (\<lambda>_. print_io ss)"

definition assert_io :: "bool \<Rightarrow> io" where
  "assert_io cond = (if \<not> cond then then_io (print_io [''Panicked.'' @ [NL]]) (Exit 1) else Return)"

subsection \<open>runcmd\<close>

text \<open>The descriptors of the two children of a pipe, before they run their commands.\<close>

definition pipe_left_setup :: "int \<times> int \<Rightarrow> io \<Rightarrow> io" where
  "pipe_left_setup p c =
     Sys (SysClose 1) (\<lambda>_. Sys (SysDup (snd p)) (\<lambda>_. Sys (SysClose (fst p)) (\<lambda>_. Sys (SysClose (snd p)) (\<lambda>_. c))))"

definition pipe_right_setup :: "int \<times> int \<Rightarrow> io \<Rightarrow> io" where
  "pipe_right_setup p c =
     Sys (SysClose 0) (\<lambda>_. Sys (SysDup (fst p)) (\<lambda>_. Sys (SysClose (fst p)) (\<lambda>_. Sys (SysClose (snd p)) (\<lambda>_. c))))"

definition run_exec :: "string \<Rightarrow> string list \<Rightarrow> io" where
  "run_exec path args =
     then_io (Sys (SysExecve path args) (\<lambda>_. print_io [''fail to exec '', path, [NL]])) (Exit 0)"

definition run_redir :: "int \<Rightarrow> string \<Rightarrow> int \<Rightarrow> io \<Rightarrow> io" where
  "run_redir fd file mode c =
     Sys (SysClose fd) (\<lambda>_. Sys (SysOpen file mode 420) (\<lambda>r.
       if rax r < 0 then then_io (print_io [''fail to open '', file, [NL]]) (Exit 1)
       else then_io c (Exit 0)))"

definition run_list :: "io \<Rightarrow> io \<Rightarrow> io" where
  "run_list left right =
     Sys SysFork (\<lambda>r. then_io (if rax r = 0 then left else Return)
       (Sys (SysWait4 (-1)) (\<lambda>_. then_io right (Exit 0))))"

definition run_pipe :: "io \<Rightarrow> io \<Rightarrow> io" where
  "run_pipe left right =
     Sys SysPipe (\<lambda>r. then_io (assert_io (rax r \<ge> 0)) (let p = pfd r in
       Sys SysFork (\<lambda>r1. then_io (if rax r1 = 0 then pipe_left_setup p left else Return)
       (Sys SysFork (\<lambda>r2. then_io (if rax r2 = 0 then pipe_right_setup p right else Return)
       (Sys (SysClose (fst p)) (\<lambda>_. Sys (SysClose (snd p)) (\<lambda>_.
        Sys (SysWait4 (-1)) (\<lambda>_. Sys (SysWait4 (-1)) (\<lambda>_. Exit 0))))))))))"

definition run_back :: "io \<Rightarrow> io" where
  "run_back c = Sys SysFork (\<lambda>r. then_io (if rax r = 0 then c else Return) (Exit 0))"

text \<open>\<open>b\<close> is the command buffer after \<open>nulterminate\<close>; pointers into it are C strings.\<close>

fun runcmd :: "nat \<Rightarrow> (addr \<rightharpoonup> cmd) \<Rightarrow> char list \<Rightarrow> addr option \<Rightarrow> io" where
  "runcmd k h b None = Exit 1"
| "runcmd 0 h b (Some a) = Crash"
| "runcmd (Suc k) h b (Some a) =
     (case h a of
        None \<Rightarrow> Crash
      | Some (EXEC e) \<Rightarrow>
          (case args_of (\<lambda>q _. cstr b q) (argv e) (eargv e) of
             None \<Rightarrow> Crash
           | Some [] \<Rightarrow> Exit 1
           | Some (x # xs) \<Rightarrow> run_exec x (x # xs))
      | Some (REDIR r) \<Rightarrow> run_redir (r_fd r) (cstr b (r_file r)) (r_mode r) (runcmd k h b (Some (r_cmd r)))
      | Some (LIST l) \<Rightarrow> run_list (runcmd k h b (Some (l_left l))) (runcmd k h b (Some (l_right l)))
      | Some (PIPE p) \<Rightarrow> run_pipe (runcmd k h b (Some (p_left p))) (runcmd k h b (Some (p_right p)))
      | Some (BACK c) \<Rightarrow> run_back (runcmd k h b (Some (b_cmd c))))"

subsection \<open>The command tree is what runs\<close>

fun run_ast :: "ast \<Rightarrow> io" where
  "run_ast (Exec []) = Exit 1"
| "run_ast (Exec (x # xs)) = run_exec x (x # xs)"
| "run_ast (Redir t file mode fd) = run_redir fd file mode (run_ast t)"
| "run_ast (Seq l r) = run_list (run_ast l) (run_ast r)"
| "run_ast (Pipe l r) = run_pipe (run_ast l) (run_ast r)"
| "run_ast (Back t) = run_back (run_ast t)"

lemma runcmd_run_ast:
  "ast_of k h (\<lambda>q _. cstr b q) a = Some t \<Longrightarrow> runcmd k h b (Some a) = run_ast t"
proof (induction k arbitrary: a t)
  case 0
  then show ?case by simp
next
  case (Suc k)
  from Suc.prems obtain c where c: "h a = Some c" by (auto split: option.splits)
  show ?case
  proof (cases c)
    case (EXEC e)
    with Suc.prems c obtain xs where "args_of (\<lambda>q _. cstr b q) (argv e) (eargv e) = Some xs" "t = Exec xs"
      by auto
    then show ?thesis using c EXEC by (cases xs) auto
  qed (use Suc c in \<open>auto split: bind_splits\<close>)
qed

text \<open>All leaves of a tree: \<open>P\<close> holds wherever a run can stop.\<close>

primrec leaves :: "(io \<Rightarrow> bool) \<Rightarrow> io \<Rightarrow> bool" where
  "leaves P (Sys s k) \<longleftrightarrow> (\<forall>r. leaves P (k r))"
| "leaves P (Exit n) \<longleftrightarrow> P (Exit n)"
| "leaves P Return \<longleftrightarrow> P Return"
| "leaves P Crash \<longleftrightarrow> P Crash"

abbreviation exits :: "io \<Rightarrow> bool" where
  "exits \<equiv> leaves (\<lambda>l. \<exists>n. l = Exit n)"

abbreviation no_crash :: "io \<Rightarrow> bool" where
  "no_crash \<equiv> leaves (\<lambda>l. l \<noteq> Crash)"

lemma exits_no_crash: "exits p \<Longrightarrow> no_crash p"
  by (induction p) auto

lemma exits_then: "no_crash p \<Longrightarrow> exits c \<Longrightarrow> exits (then_io p c)"
  by (induction p) auto

lemma no_crash_print [simp]: "no_crash (print_io ss)"
  by (induction ss) auto

lemma no_crash_assert [simp]: "no_crash (assert_io b)"
  by (auto simp: assert_io_def exits_no_crash exits_then)

lemma exits_run:
  "exits (run_exec x xs)"
  "exits c \<Longrightarrow> exits (run_redir fd f m c)"
  "exits l \<Longrightarrow> exits r \<Longrightarrow> exits (run_list l r)"
  "exits l \<Longrightarrow> exits r \<Longrightarrow> exits (run_pipe l r)"
  "exits c \<Longrightarrow> exits (run_back c)"
  by (auto simp: run_exec_def run_redir_def run_list_def run_pipe_def run_back_def Let_def
      pipe_left_setup_def pipe_right_setup_def exits_no_crash intro!: exits_then)

lemma exits_run_ast: "exits (run_ast t)"
  by (induction t rule: run_ast.induct) (auto intro: exits_run)

lemma runcmd_parsed:
  assumes "parsecmd b = Inr (c, st, b')"
  obtains t where "ast_of (Suc c) (heap st) (\<lambda>q eq. substr q eq b) c = Some t"
    "runcmd (Suc c) (heap st) b' (Some c) = run_ast t"
proof -
  have "ast_of (Suc c) (heap st) (\<lambda>q _. cstr b' q) c = ast_of (Suc c) (heap st) (\<lambda>q eq. substr q eq b) c"
    and "ast_of (Suc c) (heap st) (\<lambda>q eq. substr q eq b) c \<noteq> None"
    using parsecmd_reads_back [OF assms] more_nul_refl [of b'] unfolding reads_back_def by blast+
  then obtain t where "ast_of (Suc c) (heap st) (\<lambda>q eq. substr q eq b) c = Some t"
    and "ast_of (Suc c) (heap st) (\<lambda>q _. cstr b' q) c = Some t" by auto
  then show thesis by (intro that runcmd_run_ast)
qed

text \<open>
  C3: what the child of the shell does with a line is determined by the command tree of the
  line's text: running the arena nodes of \<^verbatim>\<open>parsecmd\<close> is running that tree, and
  whatever the kernel replies, the process never returns from \<^verbatim>\<open>runcmd\<close>, never
  touches an invalid node, and can stop only by an exit (or inside execve).
\<close>

theorem runcmd_refines_ast:
  assumes "parsecmd b = Inr (c, st, b')"
  shows "\<exists>t. ast_of (Suc c) (heap st) (\<lambda>q eq. substr q eq b) c = Some t \<and>
     runcmd (Suc c) (heap st) b' (Some c) = run_ast t \<and> exits (runcmd (Suc c) (heap st) b' (Some c))"
  using runcmd_parsed [OF assms] exits_run_ast by metis

theorem runcmd_refines_ast_witness:
  "\<exists>c st b'. parsecmd (''ls;wc'' @ [NL, NUL]) = Inr (c, st, b') \<and>
     runcmd (Suc c) (heap st) b' (Some c) = run_list (run_exec ''ls'' [''ls'']) (run_exec ''wc'' [''wc''])"
proof -
  let ?b = "''ls;wc'' @ [NL, NUL]"
  have "case parsecmd ?b of Inl e \<Rightarrow> False | Inr (c, st, b') \<Rightarrow>
     ast_of (Suc c) (heap st) (\<lambda>q eq. substr q eq ?b) c = Some (Seq (Exec [''ls'']) (Exec [''wc'']))"
    by code_simp
  then obtain c st b' where p: "parsecmd ?b = Inr (c, st, b')"
    and a: "ast_of (Suc c) (heap st) (\<lambda>q eq. substr q eq ?b) c = Some (Seq (Exec [''ls'']) (Exec [''wc'']))"
    by (auto split: sum.splits)
  obtain t where "ast_of (Suc c) (heap st) (\<lambda>q eq. substr q eq ?b) c = Some t"
    "runcmd (Suc c) (heap st) b' (Some c) = run_ast t"
    using runcmd_refines_ast [OF p] by blast
  with a have "runcmd (Suc c) (heap st) b' (Some c) = run_ast (Seq (Exec [''ls'']) (Exec [''wc'']))" by simp
  then show ?thesis using p by (simp del: runcmd.simps)
qed

subsection \<open>Descriptors\<close>

text \<open>
  The kernel as the shell sees it, for one process: \<open>kern t s r t'\<close> says that call \<open>s\<close>
  in state \<open>t\<close> may reply \<open>r\<close> and leave \<open>t'\<close>; \<open>look t d\<close> is the file behind
  descriptor \<open>d\<close>, \<open>opened p m f\<close> that \<open>f\<close> is file \<open>p\<close> opened with flags \<open>m\<close>, and
  \<open>ends a b\<close> that \<open>a\<close>, \<open>b\<close> are the read and the write end of one pipe. The laws are
  those of close(2), dup(2), open(2), pipe(2) and fork(2): closing frees the descriptor;
  duplicating, opening and pipes take the lowest free ones (and duplicating does not fail
  while a standard descriptor is free); both processes of a fork have the same table.
\<close>

definition lowest_free :: "(int \<Rightarrow> 'f option) \<Rightarrow> int \<Rightarrow> bool" where
  "lowest_free tab n \<longleftrightarrow> 0 \<le> n \<and> tab n = None \<and> (\<forall>m. 0 \<le> m \<and> m < n \<longrightarrow> tab m \<noteq> None)"

lemma lowest_free_unique: "lowest_free tab n \<Longrightarrow> lowest_free tab m \<Longrightarrow> n = m"
  by (metis linorder_neqE lowest_free_def)

lemma lowest_free_std: "lowest_free tab n \<Longrightarrow> tab 0 \<noteq> None \<Longrightarrow> tab 1 \<noteq> None \<Longrightarrow> tab 2 \<noteq> None \<Longrightarrow> 2 < n"
  unfolding lowest_free_def by (cases "n = 0 \<or> n = 1 \<or> n = 2") auto

lemma lowest_free_0: "tab 0 = None \<Longrightarrow> lowest_free tab 0"
  by (auto simp: lowest_free_def)

lemma lowest_free_1: "tab 0 \<noteq> None \<Longrightarrow> tab 1 = None \<Longrightarrow> lowest_free tab 1"
proof -
  assume "tab 0 \<noteq> None" "tab 1 = None"
  moreover have "tab m \<noteq> None" if "0 \<le> m" "m < 1" for m :: int
    using that calculation by (cases "m = 0") auto
  ultimately show ?thesis unfolding lowest_free_def by auto
qed

locale fd_kernel =
  fixes kern :: "'t \<Rightarrow> sysc \<Rightarrow> reply \<Rightarrow> 't \<Rightarrow> bool" and look :: "'t \<Rightarrow> int \<Rightarrow> 'f option"
    and opened :: "string \<Rightarrow> int \<Rightarrow> 'f \<Rightarrow> bool" and ends :: "'f \<Rightarrow> 'f \<Rightarrow> bool"
  assumes close_law: "kern t (SysClose d) r t' \<Longrightarrow> look t' = (look t)(d := None)"
    and dup_law: "kern t (SysDup d) r t' \<Longrightarrow> look t d = Some f \<Longrightarrow> look t 0 = None \<or> look t 1 = None \<Longrightarrow>
      lowest_free (look t) (rax r) \<and> look t' = (look t)(rax r \<mapsto> f)"
    and open_law: "kern t (SysOpen p m x) r t' \<Longrightarrow> 0 \<le> rax r \<Longrightarrow>
      lowest_free (look t) (rax r) \<and> (\<exists>f. opened p m f \<and> look t' = (look t)(rax r \<mapsto> f))"
    and pipe_law: "kern t SysPipe r t' \<Longrightarrow> 0 \<le> rax r \<Longrightarrow> \<exists>a b. ends a b \<and>
      lowest_free (look t) (fst (pfd r)) \<and> lowest_free ((look t)(fst (pfd r) \<mapsto> a)) (snd (pfd r)) \<and>
      look t' = (look t)(fst (pfd r) \<mapsto> a, snd (pfd r) \<mapsto> b)"
    and fork_law: "kern t SysFork r t' \<Longrightarrow> look t' = look t"

text \<open>The runs of one process: the replies it got, in order, where it is and what remains to do.\<close>

fun kpath :: "('t \<Rightarrow> sysc \<Rightarrow> reply \<Rightarrow> 't \<Rightarrow> bool) \<Rightarrow> 't \<Rightarrow> io \<Rightarrow> reply list \<Rightarrow> 't \<Rightarrow> io \<Rightarrow> bool" where
  "kpath kern t p [] t' p' \<longleftrightarrow> t' = t \<and> p' = p"
| "kpath kern t (Sys s k) (r # rs) t' p' \<longleftrightarrow> (\<exists>t1. kern t s r t1 \<and> kpath kern t1 (k r) rs t' p')"
| "kpath kern t p (r # rs) t' p' \<longleftrightarrow> False"

lemma then_io_exits: "exits p \<Longrightarrow> then_io p c = p"
  by (induction p) auto

context fd_kernel
begin

lemma dup_to:
  assumes "kern t (SysDup d) r t'" "look t d = Some f" "lowest_free (look t) n" "n = 0 \<or> n = 1"
  shows "look t' = (look t)(n \<mapsto> f)"
proof -
  have "look t 0 = None \<or> look t 1 = None" using assms(3,4) by (auto simp: lowest_free_def)
  then have "lowest_free (look t) (rax r)" "look t' = (look t)(rax r \<mapsto> f)"
    using dup_law [OF assms(1,2)] by auto
  moreover have "rax r = n" using \<open>lowest_free (look t) (rax r)\<close> assms(3) by (rule lowest_free_unique)
  ultimately show ?thesis by simp
qed

lemma pipe_left_plumbing:
  assumes run: "kpath kern t (pipe_left_setup (p0, p1) c) [r1, r2, r3, r4] t' q"
    and tab: "look t 0 \<noteq> None" "look t p1 = Some w" "2 < p0" "2 < p1"
  shows "q = c \<and> look t' = (look t)(1 \<mapsto> w, p0 := None, p1 := None)"
proof -
  obtain t1 t2 t3 where k: "kern t (SysClose 1) r1 t1" "kern t1 (SysDup p1) r2 t2"
      "kern t2 (SysClose p0) r3 t3" "kern t3 (SysClose p1) r4 t'" and q: "q = c"
    using run by (auto simp: pipe_left_setup_def)
  have l1: "look t1 = (look t)(1 := None)" using k(1) by (rule close_law)
  then have "lowest_free (look t1) 1" using tab by (intro lowest_free_1) auto
  then have "look t2 = (look t1)(1 \<mapsto> w)" using tab by (intro dup_to [OF k(2)]) (auto simp: l1)
  then show ?thesis using q by (simp add: l1 close_law [OF k(3)] close_law [OF k(4)])
qed

lemma pipe_right_plumbing:
  assumes run: "kpath kern t (pipe_right_setup (p0, p1) c) [r1, r2, r3, r4] t' q"
    and tab: "look t p0 = Some f" "2 < p0" "2 < p1"
  shows "q = c \<and> look t' = (look t)(0 \<mapsto> f, p0 := None, p1 := None)"
proof -
  obtain t1 t2 t3 where k: "kern t (SysClose 0) r1 t1" "kern t1 (SysDup p0) r2 t2"
      "kern t2 (SysClose p0) r3 t3" "kern t3 (SysClose p1) r4 t'" and q: "q = c"
    using run by (auto simp: pipe_right_setup_def)
  have l1: "look t1 = (look t)(0 := None)" using k(1) by (rule close_law)
  then have "lowest_free (look t1) 0" by (simp add: lowest_free_0)
  then have "look t2 = (look t1)(0 \<mapsto> f)" using tab by (intro dup_to [OF k(2)]) (auto simp: l1)
  then show ?thesis using q by (simp add: l1 close_law [OF k(3)] close_law [OF k(4)])
qed

lemma redir_plumbing:
  assumes run: "kpath kern t (run_redir fd file mode c) [r1, r2] t' q" and ok: "0 \<le> rax r2"
    and tab: "fd = 0 \<or> fd = 1 \<and> look t 0 \<noteq> None"
  shows "q = then_io c (Exit 0) \<and> (\<exists>f. opened file mode f \<and> look t' = (look t)(fd \<mapsto> f))"
proof -
  obtain t1 where k: "kern t (SysClose fd) r1 t1" "kern t1 (SysOpen file mode 420) r2 t'"
    and q: "q = then_io c (Exit 0)" using run ok by (auto simp: run_redir_def)
  have l1: "look t1 = (look t)(fd := None)" using k(1) by (rule close_law)
  have "lowest_free (look t1) fd" using tab by (auto simp: l1 intro: lowest_free_0 lowest_free_1)
  moreover obtain f where "lowest_free (look t1) (rax r2)" "opened file mode f" "look t' = (look t1)(rax r2 \<mapsto> f)"
    using open_law [OF k(2) ok] by auto
  ultimately show ?thesis using q lowest_free_unique l1 by (metis fun_upd_upd)
qed

lemma pipe_tables:
  assumes "kern t SysPipe r0 t1" "0 \<le> rax r0" and std: "look t 0 \<noteq> None" "look t 1 \<noteq> None" "look t 2 \<noteq> None"
  obtains a b where "ends a b" "look t1 = (look t)(fst (pfd r0) \<mapsto> a, snd (pfd r0) \<mapsto> b)"
    "2 < fst (pfd r0)" "2 < snd (pfd r0)" "fst (pfd r0) \<noteq> snd (pfd r0)"
    "look t (fst (pfd r0)) = None" "look t (snd (pfd r0)) = None"
proof -
  obtain a b where ab: "ends a b" "lowest_free (look t) (fst (pfd r0))"
      "lowest_free ((look t)(fst (pfd r0) \<mapsto> a)) (snd (pfd r0))"
      "look t1 = (look t)(fst (pfd r0) \<mapsto> a, snd (pfd r0) \<mapsto> b)"
    using pipe_law [OF assms(1,2)] by auto
  have "2 < fst (pfd r0)" "2 < snd (pfd r0)"
    using lowest_free_std [OF ab(2) std] lowest_free_std [OF ab(3)] std by auto
  moreover have "look t (fst (pfd r0)) = None" "fst (pfd r0) \<noteq> snd (pfd r0)" "look t (snd (pfd r0)) = None"
    using ab(2,3) by (auto simp: lowest_free_def split: if_splits)
  ultimately show thesis using ab that by blast
qed

lemma run_pipe_wires:
  assumes run: "kpath kern t (run_pipe l r) [r0] t1 p1" and ok: "0 \<le> rax r0"
    and std: "look t 0 \<noteq> None" "look t 1 \<noteq> None" "look t 2 \<noteq> None" and ex: "exits l" "exits r"
  shows "\<exists>a b. ends a b \<and>
    (\<forall>r1 s1 s2 s3 s4 t' q. kpath kern t1 p1 [r1, s1, s2, s3, s4] t' q \<and> rax r1 = 0 \<longrightarrow>
       q = l \<and> look t' = (look t)(1 \<mapsto> b)) \<and>
    (\<forall>r1 r2 s1 s2 s3 s4 t' q. kpath kern t1 p1 [r1, r2, s1, s2, s3, s4] t' q \<and> rax r1 \<noteq> 0 \<and> rax r2 = 0 \<longrightarrow>
       q = r \<and> look t' = (look t)(0 \<mapsto> a)) \<and>
    (\<forall>r1 r2 s1 s2 t' q. kpath kern t1 p1 [r1, r2, s1, s2] t' q \<and> rax r1 \<noteq> 0 \<and> rax r2 \<noteq> 0 \<longrightarrow> look t' = look t)"
proof -
  let ?p0 = "fst (pfd r0)" and ?p1 = "snd (pfd r0)"
  let ?rest = "Sys (SysClose ?p0) (\<lambda>_. Sys (SysClose ?p1) (\<lambda>_. Sys (SysWait4 (-1)) (\<lambda>_. Sys (SysWait4 (-1)) (\<lambda>_. Exit 0))))"
  let ?snd = "Sys SysFork (\<lambda>r2. then_io (if rax r2 = 0 then pipe_right_setup (pfd r0) r else Return) ?rest)"
  have k: "kern t SysPipe r0 t1"
    and p1: "p1 = Sys SysFork (\<lambda>r1. then_io (if rax r1 = 0 then pipe_left_setup (pfd r0) l else Return) ?snd)"
    using run ok by (auto simp: run_pipe_def assert_io_def Let_def)
  obtain a b where ab: "ends a b" and t1: "look t1 = (look t)(?p0 \<mapsto> a, ?p1 \<mapsto> b)"
    and p: "2 < ?p0" "2 < ?p1" "?p0 \<noteq> ?p1" "look t ?p0 = None" "look t ?p1 = None"
    by (rule pipe_tables [OF k ok std])
  have set: "pfd r0 = (?p0, ?p1)" by simp
  have L: "then_io (pipe_left_setup (pfd r0) l) c = pipe_left_setup (?p0, ?p1) l" for c
    by (simp add: pipe_left_setup_def then_io_exits ex)
  have R: "then_io (pipe_right_setup (pfd r0) r) c = pipe_right_setup (?p0, ?p1) r" for c
    by (simp add: pipe_right_setup_def then_io_exits ex)
  have undo: "(look t)(?p0 := None, ?p1 := None) = look t" using p by (auto simp: fun_eq_iff)
  have left: "q = l \<and> look t' = (look t)(1 \<mapsto> b)"
    if h: "kpath kern t1 p1 [r1, s1, s2, s3, s4] t' q" "rax r1 = 0" for r1 s1 s2 s3 s4 t' q
  proof -
    obtain t2 where f: "kern t1 SysFork r1 t2" and k2: "kpath kern t2 (pipe_left_setup (?p0, ?p1) l) [s1, s2, s3, s4] t' q"
      using h unfolding p1 by (auto simp only: kpath.simps simp_thms if_True L)
    have "look t2 = (look t)(?p0 \<mapsto> a, ?p1 \<mapsto> b)" using fork_law [OF f] t1 by simp
    then have "q = l \<and> look t' = (look t)(?p0 \<mapsto> a, ?p1 \<mapsto> b, 1 \<mapsto> b, ?p0 := None, ?p1 := None)"
      using pipe_left_plumbing [OF k2, of b] std p by simp
    then show ?thesis using undo p by (auto simp: fun_eq_iff)
  qed
  have right: "q = r \<and> look t' = (look t)(0 \<mapsto> a)"
    if h: "kpath kern t1 p1 [r1, r2, s1, s2, s3, s4] t' q" "rax r1 \<noteq> 0" "rax r2 = 0" for r1 r2 s1 s2 s3 s4 t' q
  proof -
    obtain t2 t3 where f: "kern t1 SysFork r1 t2" "kern t2 SysFork r2 t3"
      and k2: "kpath kern t3 (pipe_right_setup (?p0, ?p1) r) [s1, s2, s3, s4] t' q"
      using h unfolding p1 by (auto simp only: kpath.simps simp_thms if_True if_False then_io.simps R)
    have "look t3 = (look t)(?p0 \<mapsto> a, ?p1 \<mapsto> b)" using fork_law [OF f(1)] fork_law [OF f(2)] t1 by simp
    then have "q = r \<and> look t' = (look t)(?p0 \<mapsto> a, ?p1 \<mapsto> b, 0 \<mapsto> a, ?p0 := None, ?p1 := None)"
      using pipe_right_plumbing [OF k2, of a] std p by simp
    then show ?thesis using undo p by (auto simp: fun_eq_iff)
  qed
  have par: "look t' = look t"
    if h: "kpath kern t1 p1 [r1, r2, s1, s2] t' q" "rax r1 \<noteq> 0" "rax r2 \<noteq> 0" for r1 r2 s1 s2 t' q
  proof -
    obtain t2 t3 t4 where "kern t1 SysFork r1 t2" "kern t2 SysFork r2 t3" "kern t3 (SysClose ?p0) s1 t4"
      "kern t4 (SysClose ?p1) s2 t'"
      using h unfolding p1 by auto
    then have "look t' = (look t)(?p0 \<mapsto> a, ?p1 \<mapsto> b, ?p0 := None, ?p1 := None)"
      by (metis fork_law close_law t1)
    then show ?thesis using undo p by (auto simp: fun_eq_iff)
  qed
  have A: "\<forall>r1 s1 s2 s3 s4 t' q. kpath kern t1 p1 [r1, s1, s2, s3, s4] t' q \<and> rax r1 = 0 \<longrightarrow>
       q = l \<and> look t' = (look t)(1 \<mapsto> b)" by (intro allI impI, elim conjE) (rule left)
  have B: "\<forall>r1 r2 s1 s2 s3 s4 t' q. kpath kern t1 p1 [r1, r2, s1, s2, s3, s4] t' q \<and> rax r1 \<noteq> 0 \<and> rax r2 = 0 \<longrightarrow>
       q = r \<and> look t' = (look t)(0 \<mapsto> a)" by (intro allI impI, elim conjE) (rule right)
  have C: "\<forall>r1 r2 s1 s2 t' q. kpath kern t1 p1 [r1, r2, s1, s2] t' q \<and> rax r1 \<noteq> 0 \<and> rax r2 \<noteq> 0 \<longrightarrow> look t' = look t"
    by (intro allI impI, elim conjE) (rule par)
  show ?thesis by (intro exI [of _ a] exI [of _ b] conjI ab A B C)
qed

end

text \<open>A descriptor table that has these laws.\<close>

datatype kfile = KFile string int | KRead nat | KWrite nat

type_synonym fdtab = "(int \<Rightarrow> kfile option) \<times> nat"

fun posix_kern :: "fdtab \<Rightarrow> sysc \<Rightarrow> reply \<Rightarrow> fdtab \<Rightarrow> bool" where
  "posix_kern (t, n) (SysClose d) r t' \<longleftrightarrow> t' = (t(d := None), n)"
| "posix_kern (t, n) (SysDup d) r t' \<longleftrightarrow>
     (case t d of None \<Rightarrow> rax r = -9 \<and> t' = (t, n)
      | Some f \<Rightarrow> lowest_free t (rax r) \<and> t' = (t(rax r \<mapsto> f), n))"
| "posix_kern (t, n) (SysOpen p m x) r t' \<longleftrightarrow>
     rax r = -2 \<and> t' = (t, n) \<or> lowest_free t (rax r) \<and> t' = (t(rax r \<mapsto> KFile p m), n)"
| "posix_kern (t, n) SysPipe r t' \<longleftrightarrow>
     rax r = 0 \<and> lowest_free t (fst (pfd r)) \<and> lowest_free (t(fst (pfd r) \<mapsto> KRead n)) (snd (pfd r)) \<and>
     t' = (t(fst (pfd r) \<mapsto> KRead n, snd (pfd r) \<mapsto> KWrite n), Suc n)"
| "posix_kern (t, n) s r t' \<longleftrightarrow> t' = (t, n)"

definition posix_ends :: "kfile \<Rightarrow> kfile \<Rightarrow> bool" where
  "posix_ends a b \<longleftrightarrow> (case (a, b) of (KRead n, KWrite m) \<Rightarrow> n = m | _ \<Rightarrow> False)"

interpretation posix: fd_kernel posix_kern fst "\<lambda>p m f. f = KFile p m" posix_ends
proof unfold_locales
  fix t :: fdtab and d r t' assume "posix_kern t (SysClose d) r t'"
  then show "fst t' = (fst t)(d := None)" by (cases t) auto
next
  fix t :: fdtab and d r t' f assume "posix_kern t (SysDup d) r t'" "fst t d = Some f"
  then show "lowest_free (fst t) (rax r) \<and> fst t' = (fst t)(rax r \<mapsto> f)" by (cases t) auto
next
  fix t :: fdtab and p m x r t' assume "posix_kern t (SysOpen p m x) r t'" "0 \<le> rax r"
  then show "lowest_free (fst t) (rax r) \<and> (\<exists>f. f = KFile p m \<and> fst t' = (fst t)(rax r \<mapsto> f))"
    by (cases t) auto
next
  fix t :: fdtab and r t' assume "posix_kern t SysPipe r t'" "0 \<le> rax r"
  then show "\<exists>a b. posix_ends a b \<and> lowest_free (fst t) (fst (pfd r)) \<and>
      lowest_free ((fst t)(fst (pfd r) \<mapsto> a)) (snd (pfd r)) \<and>
      fst t' = (fst t)(fst (pfd r) \<mapsto> a, snd (pfd r) \<mapsto> b)"
    by (intro exI [of _ "KRead (snd t)"] exI [of _ "KWrite (snd t)"], cases t) (auto simp: posix_ends_def)
next
  fix t :: fdtab and r t' assume "posix_kern t SysFork r t'"
  then show "fst t' = fst t" by (cases t) auto
qed

text \<open>
  C4: a pipeline is wired as the shell means it. Whatever the kernel does within the laws of
  its descriptor table, if the shell's process has its three standard descriptors open and
  the pipe is made, then the left child runs its command with the write end as its standard
  output, the right child runs its command with the read end of the same pipe as its
  standard input, no other descriptor of either differs from the parent's, in particular no
  pipe end leaks into them, and the parent that waits holds no end of the pipe.
\<close>

theorem run_pipe_plumbing:
  assumes "fd_kernel kern look opened ends"
    and "kpath kern t (run_pipe (run_ast l) (run_ast r)) [r0] t1 p1" "0 \<le> rax r0"
    and "look t 0 \<noteq> None" "look t 1 \<noteq> None" "look t 2 \<noteq> None"
  shows "\<exists>a b. ends a b \<and>
    (\<forall>r1 s1 s2 s3 s4 t' q. kpath kern t1 p1 [r1, s1, s2, s3, s4] t' q \<and> rax r1 = 0 \<longrightarrow>
       q = run_ast l \<and> look t' = (look t)(1 \<mapsto> b)) \<and>
    (\<forall>r1 r2 s1 s2 s3 s4 t' q. kpath kern t1 p1 [r1, r2, s1, s2, s3, s4] t' q \<and> rax r1 \<noteq> 0 \<and> rax r2 = 0 \<longrightarrow>
       q = run_ast r \<and> look t' = (look t)(0 \<mapsto> a)) \<and>
    (\<forall>r1 r2 s1 s2 t' q. kpath kern t1 p1 [r1, r2, s1, s2] t' q \<and> rax r1 \<noteq> 0 \<and> rax r2 \<noteq> 0 \<longrightarrow> look t' = look t)"
  using fd_kernel.run_pipe_wires [OF assms] exits_run_ast by blast

definition std_tab :: fdtab where
  "std_tab = ((\<lambda>d. if 0 \<le> d \<and> d < 3 then Some (KFile ''/dev/console'' 2) else None), 0)"

lemma std_tab_lowest: "lowest_free (fst std_tab) 3" "lowest_free ((fst std_tab)(3 \<mapsto> f)) 4"
  by (auto simp: lowest_free_def std_tab_def)

theorem run_pipe_plumbing_witness:
  "\<exists>p1. kpath posix_kern std_tab (run_pipe (run_ast (Exec [''ls''])) (run_ast (Exec [''wc''])))
      [\<lparr>rax = 0, pfd = (3, 4)\<rparr>] ((fst std_tab)(3 \<mapsto> KRead 0, 4 \<mapsto> KWrite 0), 1) p1 \<and>
    (\<exists>a b. posix_ends a b \<and>
    (\<forall>r1 s1 s2 s3 s4 t' q. kpath posix_kern ((fst std_tab)(3 \<mapsto> KRead 0, 4 \<mapsto> KWrite 0), 1) p1 [r1, s1, s2, s3, s4] t' q
       \<and> rax r1 = 0 \<longrightarrow> q = run_exec ''ls'' [''ls''] \<and> fst t' = (fst std_tab)(1 \<mapsto> b)))"
proof -
  let ?t1 = "((fst std_tab)(3 \<mapsto> KRead 0, 4 \<mapsto> KWrite 0), 1)"
  obtain p1 where p: "kpath posix_kern std_tab (run_pipe (run_ast (Exec [''ls''])) (run_ast (Exec [''wc''])))
      [\<lparr>rax = 0, pfd = (3, 4)\<rparr>] ?t1 p1"
    using std_tab_lowest by (simp add: run_pipe_def std_tab_def)
  have "fst std_tab 0 \<noteq> None" "fst std_tab 1 \<noteq> None" "fst std_tab 2 \<noteq> None"
    and ok: "0 \<le> rax \<lparr>rax = 0, pfd = (3, 4)\<rparr>" by (simp_all add: std_tab_def)
  from run_pipe_plumbing [OF posix.fd_kernel_axioms p ok this(1,2,3)] obtain a b where ab: "posix_ends a b"
      "\<forall>r1 s1 s2 s3 s4 t' q. kpath posix_kern ?t1 p1 [r1, s1, s2, s3, s4] t' q \<and> rax r1 = 0 \<longrightarrow>
       q = run_ast (Exec [''ls'']) \<and> fst t' = (fst std_tab)(1 \<mapsto> b)" by (elim exE conjE) (rule that; assumption)
  show ?thesis
    by (intro exI [of _ p1] conjI p exI [of _ a] exI [of _ b] ab(1)) (rule ab(2) [unfolded run_ast.simps])
qed

text \<open>
  A redirection puts the opened file, and nothing else, on its descriptor: with standard
  input open (or being the one redirected), after the calls of the REDIR case that succeed,
  the command below it runs with exactly that descriptor replaced by the file opened with
  the flags of the node.
\<close>

theorem run_redir_plumbing:
  assumes "fd_kernel kern look opened ends"
    and "kpath kern t (run_ast (Redir c file mode fd)) [r1, r2] t' q" "0 \<le> rax r2"
    and "fd = 0 \<or> fd = 1 \<and> look t 0 \<noteq> None"
  shows "q = run_ast c \<and> (\<exists>f. opened file mode f \<and> look t' = (look t)(fd \<mapsto> f))"
  using fd_kernel.redir_plumbing [OF assms(1) _ assms(3,4)] assms(2)
  by (metis run_ast.simps(3) then_io_exits exits_run_ast)

theorem run_redir_plumbing_witness:
  "kpath posix_kern std_tab (run_ast (Redir (Exec [''wc'']) ''f'' 0 0)) [\<lparr>rax = 0, pfd = (0, 0)\<rparr>, \<lparr>rax = 0, pfd = (0, 0)\<rparr>]
     ((fst std_tab)(0 \<mapsto> KFile ''f'' 0), 0) (run_exec ''wc'' [''wc'']) \<and>
   (\<exists>f. f = KFile ''f'' 0 \<and> (fst std_tab)(0 \<mapsto> KFile ''f'' 0) = (fst std_tab)(0 \<mapsto> f))"
proof -
  have p: "kpath posix_kern std_tab (run_ast (Redir (Exec [''wc'']) ''f'' 0 0)) [\<lparr>rax = 0, pfd = (0, 0)\<rparr>, \<lparr>rax = 0, pfd = (0, 0)\<rparr>]
     ((fst std_tab)(0 \<mapsto> KFile ''f'' 0), 0) (run_exec ''wc'' [''wc''])"
    by (simp add: run_redir_def std_tab_def lowest_free_0 then_io_exits exits_run)
  with run_redir_plumbing [OF posix.fd_kernel_axioms p] show ?thesis by simp
qed

end
