(* ===== verification/Shell_Main.thy ===== *)
theory Shell_Main
  imports Shell_Run
begin

text \<open>
  The xv6 shell, last part: \<open>getcmd\<close>, which reads a line byte by byte into the 100-byte
  buffer, and the main loop of \<open>_start\<close>. The bytes still to come on standard input are a
  list; a read at its end is the end-of-file (or error) reply. The loop's effects are a list
  of events; the children it starts do not take from this input. Shown: the input is handled
  piece by piece, in order and unchanged, where a piece is a line or, of a line too long for the
  buffer, 99 characters; for every input the loop ends with exit(0), no access leaves the buffer, and no child
  crashes.
\<close>

definition BUFSZ :: nat where "BUFSZ = 100"

text \<open>\<open>getcmd_loop n i buf inp\<close>: \<^verbatim>\<open>nbuf\<close> is \<open>n\<close> and \<^verbatim>\<open>buf\<close> points to cell \<open>i\<close>.\<close>

fun getcmd_loop :: "nat \<Rightarrow> nat \<Rightarrow> char list \<Rightarrow> char list \<Rightarrow> int \<times> char list \<times> char list" where
  "getcmd_loop n i buf inp =
     (if n > 1
      then (case inp of
              [] \<Rightarrow> (-1, buf, [])
            | c # cs \<Rightarrow>
                (let buf = buf[i := c]
                 in if c = NL then (0, buf, cs) else getcmd_loop (n - 1) (Suc i) buf cs))
      else (0, buf, inp))"

declare getcmd_loop.simps [simp del]

definition getcmd :: "nat \<Rightarrow> char list \<Rightarrow> int \<times> char list \<times> char list" where
  "getcmd nbuf inp = getcmd_loop nbuf 0 (replicate nbuf NUL) inp"

text \<open>The child of \<open>_start\<close>: \<^verbatim>\<open>runcmd(parsecmd(buf))\<close>.\<close>

definition child_io :: "char list \<Rightarrow> io" where
  "child_io buf =
     (case parsecmd buf of
        Inl Panic \<Rightarrow> then_io (assert_io False) Crash
      | Inl _ \<Rightarrow> Crash
      | Inr (c, st, b) \<Rightarrow> runcmd (Suc c) (heap st) b (Some c))"

datatype event = EvPrint "string list" | EvChdir string | EvChild "char list" | EvWait | EvExit int | EvCrash

lemma getcmd_loop_rest: "getcmd_loop n i buf inp = (r, buf', rest) \<Longrightarrow>
  length rest \<le> length inp \<and> (1 < n \<longrightarrow> 0 \<le> r \<longrightarrow> length rest < length inp)"
proof (induction n i buf inp rule: getcmd_loop.induct)
  case (1 n i buf inp)
  show ?case
  proof (cases inp)
    case Nil
    then show ?thesis using "1.prems" by (auto simp: getcmd_loop.simps [of n] split: if_splits)
  next
    case (Cons c cs)
    show ?thesis
    proof (cases "1 < n \<and> c \<noteq> NL")
      case True
      then have "getcmd_loop (n - 1) (Suc i) (buf[i := c]) cs = (r, buf', rest)"
        using "1.prems" Cons by (simp add: getcmd_loop.simps [of n])
      then show ?thesis using "1.IH" [of c cs] True Cons by (simp add: less_Suc_eq_le)
    next
      case False
      then show ?thesis using "1.prems" Cons by (auto simp: getcmd_loop.simps [of n] split: if_splits)
    qed
  qed
qed

text \<open>\<open>cd i d\<close> is the kernel's reply to the \<^verbatim>\<open>chdir\<close> of round \<open>i\<close>.\<close>

function shell :: "(nat \<Rightarrow> string \<Rightarrow> int) \<Rightarrow> nat \<Rightarrow> char list \<Rightarrow> event list" where
  "shell cd i inp =
     EvPrint [''> ''] #
     (case getcmd BUFSZ inp of (r, buf, rest) \<Rightarrow>
        if r < 0 then [EvExit 0]
        else if buf ! 0 = CHR ''c'' \<and> buf ! 1 = CHR ''d'' \<and> buf ! 2 = CHR '' ''
        then (case strlen buf 0 of
                Inl _ \<Rightarrow> [EvCrash]
              | Inr n \<Rightarrow>
                  (let buf = buf[n - 1 := NUL]; dir = cstr buf 3
                   in EvChdir dir #
                      (if cd i dir < 0 then [EvPrint [''cannot cd '', dir, [NL]]] else []) @
                      shell cd (Suc i) rest))
        else EvChild buf # EvWait # shell cd (Suc i) rest)"
  by pat_completeness auto
termination
  by (relation "measure (\<lambda>(_, _, inp). length inp)")
    (auto simp: getcmd_def BUFSZ_def dest!: getcmd_loop_rest [OF sym])

declare shell.simps [simp del]

subsection \<open>The input in pieces\<close>

text \<open>A piece is a line with its newline when this has at most \<open>n\<close> characters, otherwise the next \<open>n\<close>
  characters; there is none when the input ends before.\<close>

definition piece_len :: "nat \<Rightarrow> char list \<Rightarrow> nat option" where
  "piece_len n inp =
     (let k = length (takeWhile (\<lambda>c. c \<noteq> NL) inp)
      in if n \<le> k then Some n else if k < length inp then Some (Suc k) else None)"

lemma piece_len_Cons:
  "piece_len (Suc n) (c # cs) = (if c = NL then Some 1 else map_option Suc (piece_len n cs))"
  by (simp add: piece_len_def)

lemma piece_len_bounds: "piece_len n inp = Some k \<Longrightarrow> k \<le> n \<and> k \<le> length inp \<and> (0 < n \<longrightarrow> 0 < k)"
  using length_takeWhile_le [of "\<lambda>c. c \<noteq> NL" inp] by (auto simp: piece_len_def Let_def split: if_splits)

function pieces :: "char list \<Rightarrow> string list" where
  "pieces inp = (case piece_len 99 inp of None \<Rightarrow> [] | Some k \<Rightarrow> take k inp # pieces (drop k inp))"
  by pat_completeness auto
termination
  by (relation "measure length") (auto dest: piece_len_bounds)

declare pieces.simps [simp del]

definition piece_buf :: "char list \<Rightarrow> char list" where
  "piece_buf b = b @ replicate (BUFSZ - length b) NUL"

lemma getcmd_loop_piece:
  "case piece_len n inp of
     None \<Rightarrow> fst (getcmd_loop (Suc n) (length p) (p @ replicate (Suc n) NUL) inp) < 0
   | Some k \<Rightarrow> getcmd_loop (Suc n) (length p) (p @ replicate (Suc n) NUL) inp =
       (0, p @ take k inp @ replicate (Suc n - k) NUL, drop k inp)"
proof (induction n arbitrary: p inp)
  case 0
  then show ?case by (simp add: piece_len_def getcmd_loop.simps)
next
  case (Suc n)
  show ?case
  proof (cases inp)
    case Nil
    then show ?thesis by (simp add: piece_len_def getcmd_loop.simps)
  next
    case (Cons c cs)
    have "getcmd_loop (Suc (Suc n)) (length p) (p @ replicate (Suc (Suc n)) NUL) inp =
        (if c = NL then (0, p @ c # replicate (Suc n) NUL, cs)
         else getcmd_loop (Suc n) (length (p @ [c])) ((p @ [c]) @ replicate (Suc n) NUL) cs)"
      using Cons by (simp add: getcmd_loop.simps [of "Suc (Suc n)"] list_update_append)
    then show ?thesis using Suc.IH [of "p @ [c]" cs] Cons by (auto simp: piece_len_Cons split: option.splits)
  qed
qed

lemma getcmd_piece:
  "case piece_len 99 inp of
     None \<Rightarrow> fst (getcmd BUFSZ inp) < 0
   | Some k \<Rightarrow> getcmd BUFSZ inp = (0, piece_buf (take k inp), drop k inp)"
proof (cases "piece_len 99 inp")
  case None
  then show ?thesis using getcmd_loop_piece [of 99 "[]" inp] by (simp add: getcmd_def BUFSZ_def)
next
  case (Some k)
  then have "min (length inp) k = k" using piece_len_bounds [of 99 inp k] by simp
  then show ?thesis using Some getcmd_loop_piece [of 99 "[]" inp] by (simp add: getcmd_def BUFSZ_def piece_buf_def)
qed

abbreviation c_part :: "char list \<Rightarrow> char list" where
  "c_part b \<equiv> takeWhile (\<lambda>c. c \<noteq> NUL) b"

lemma piece_buf_strlen: "length b \<le> 99 \<Longrightarrow> strlen (piece_buf b) 0 = Inr (length (c_part b))"
proof -
  assume b: "length b \<le> 99"
  have le: "length (c_part b) \<le> length b" by (rule length_takeWhile_le)
  have "b ! i \<noteq> NUL" if "i < length (c_part b)" for i using nth_mem [OF that] takeWhile_nth [OF that] set_takeWhileD by fastforce
  moreover have "piece_buf b ! length (c_part b) = NUL"
  proof (cases "length (c_part b) = length b")
    case False
    then have "length (c_part b) < length b" using le by simp
    then show ?thesis using nth_length_takeWhile [of "\<lambda>c. c \<noteq> NUL" b] by (simp add: piece_buf_def nth_append)
  qed (use b in \<open>simp add: piece_buf_def nth_append BUFSZ_def\<close>)
  ultimately have "lexbuf (piece_buf b) (length (c_part b))"
    using b le by (auto simp: lexbuf_def piece_buf_def nth_append BUFSZ_def)
  then show ?thesis by (rule lexbuf_strlen)
qed

lemma piece_buf_cd: "length b \<le> 99 \<Longrightarrow>
  piece_buf b ! 0 = CHR ''c'' \<and> piece_buf b ! 1 = CHR ''d'' \<and> piece_buf b ! 2 = CHR '' '' \<longleftrightarrow> take 3 b = ''cd ''"
  by (cases b; cases "tl b"; cases "tl (tl b)")
    (auto simp: piece_buf_def nth_Cons' numeral_eq_Suc BUFSZ_def)

lemma piece_buf_chop:
  assumes "take 3 b = ''cd ''" "length b \<le> 99"
  shows "cstr ((piece_buf b)[length (c_part b) - 1 := NUL]) 3 = drop 3 (butlast (c_part b))"
proof -
  obtain x where x: "b = ''cd '' @ x" using assms(1) by (metis append_take_drop_id)
  let ?z = "replicate (BUFSZ - length b) NUL"
  have z: "c_part ?z = []" by (cases "BUFSZ - length b") auto
  have nul: "c_part (u @ NUL # v) = u" if "NUL \<notin> set u" for u v using that by (induction u) auto
  have p: "piece_buf b = ''cd '' @ x @ ?z" by (simp add: piece_buf_def x)
  show ?thesis
  proof (cases "c_part x" rule: rev_cases)
    case Nil
    then have "c_part (x @ ?z) = []" using z by (cases x) (auto split: if_splits)
    then show ?thesis using Nil by (simp add: x piece_buf_def cstr_def numeral_eq_Suc)
  next
    case (snoc u v)
    obtain y where y: "x = u @ v # y" using takeWhile_dropWhile_id [of "\<lambda>c. c \<noteq> NUL" x] snoc by (metis append.assoc append_Cons append_Nil)
    have n: "NUL \<notin> set u" using set_takeWhileD [of NUL "\<lambda>c. c \<noteq> NUL" x] snoc by auto
    have "(piece_buf b)[length (c_part b) - 1 := NUL] = ''cd '' @ u @ NUL # y @ ?z"
      using snoc unfolding p by (simp add: x) (simp add: y list_update_append)
    then show ?thesis using snoc n by (simp add: x cstr_def nul)
  qed
qed

text \<open>What the shell does with the pieces.\<close>

fun session :: "(nat \<Rightarrow> string \<Rightarrow> int) \<Rightarrow> nat \<Rightarrow> string list \<Rightarrow> event list" where
  "session cd i [] = [EvPrint [''> ''], EvExit 0]"
| "session cd i (b # bs) = EvPrint [''> ''] #
     (if take 3 b = ''cd ''
      then let d = drop 3 (butlast (c_part b)) in EvChdir d # (if cd i d < 0 then [EvPrint [''cannot cd '', d, [NL]]] else [])
      else [EvChild (piece_buf b), EvWait]) @ session cd (Suc i) bs"

lemma shell_piece:
  assumes "piece_len 99 inp = Some k"
  shows "shell cd i inp = EvPrint [''> ''] #
     (if take 3 (take k inp) = ''cd ''
      then let d = drop 3 (butlast (c_part (take k inp))) in EvChdir d # (if cd i d < 0 then [EvPrint [''cannot cd '', d, [NL]]] else [])
      else [EvChild (piece_buf (take k inp)), EvWait]) @ shell cd (Suc i) (drop k inp)"
proof -
  let ?b = "take k inp"
  have g: "getcmd BUFSZ inp = (0, piece_buf ?b, drop k inp)" using getcmd_piece [of inp] assms by simp
  have l: "length ?b \<le> 99" using piece_len_bounds [OF assms] by simp
  note c = piece_buf_cd [OF l]
  show ?thesis
  proof (cases "take 3 ?b = ''cd ''")
    case True
    then have "piece_buf ?b ! 0 = CHR ''c'' \<and> piece_buf ?b ! 1 = CHR ''d'' \<and> piece_buf ?b ! 2 = CHR '' ''" using c by blast
    then show ?thesis using True piece_buf_strlen [OF l] piece_buf_chop [OF True l]
      by (subst shell.simps) (simp add: g Let_def del: take_take)
  next
    case False
    then have "\<not> (piece_buf ?b ! 0 = CHR ''c'' \<and> piece_buf ?b ! 1 = CHR ''d'' \<and> piece_buf ?b ! 2 = CHR '' '')" using c by blast
    then show ?thesis using False by (subst shell.simps) (simp add: g del: de_Morgan_conj take_take)
  qed
qed

lemma shell_pieces: "shell cd i inp = session cd i (pieces inp)"
proof (induction inp arbitrary: i rule: pieces.induct)
  case (1 inp)
  show ?case
  proof (cases "piece_len 99 inp")
    case None
    then show ?thesis using getcmd_piece [of inp]
      by (subst shell.simps) (auto simp: pieces.simps [of inp] split: prod.splits)
  next
    case (Some k)
    show ?thesis using shell_piece [OF Some, of cd i] "1.IH" [OF Some, of "Suc i"] Some by (simp add: pieces.simps [of inp])
  qed
qed

lemma pieces_rest: "\<exists>u. inp = concat (pieces inp) @ u \<and> NL \<notin> set u \<and> length u < 99"
proof (induction inp rule: pieces.induct)
  case (1 inp)
  show ?case
  proof (cases "piece_len 99 inp")
    case None
    then have "length (takeWhile (\<lambda>c. c \<noteq> NL) inp) = length inp \<and> length inp < 99"
      using length_takeWhile_le [of "\<lambda>c. c \<noteq> NL" inp] by (auto simp: piece_len_def Let_def split: if_splits)
    then have "takeWhile (\<lambda>c. c \<noteq> NL) inp = inp" "length inp < 99" by (metis takeWhile_eq_take take_all_iff order_refl, simp)
    then show ?thesis using None by (auto simp: pieces.simps [of inp])
  next
    case (Some k)
    obtain u where u: "drop k inp = concat (pieces (drop k inp)) @ u" "NL \<notin> set u" "length u < 99" using "1.IH" [OF Some] by blast
    have "inp = take k inp @ concat (pieces (drop k inp)) @ u" using u(1) by (metis append_take_drop_id)
    then show ?thesis using u(2,3) Some by (auto simp: pieces.simps [of inp])
  qed
qed

lemma pieces_lines:
  "(\<And>l. l \<in> set ls \<Longrightarrow> NL \<notin> set l \<and> length l \<le> 98) \<Longrightarrow> pieces (concat (map (\<lambda>l. l @ [NL]) ls)) = map (\<lambda>l. l @ [NL]) ls"
proof (induction ls)
  case Nil
  then show ?case by (simp add: pieces.simps piece_len_def)
next
  case (Cons l ls)
  let ?r = "concat (map (\<lambda>l. l @ [NL]) ls)"
  have "takeWhile (\<lambda>c. c \<noteq> NL) (l @ NL # ?r) = l" using Cons.prems [of l] by (induction l) auto
  then have "piece_len 99 (l @ NL # ?r) = Some (Suc (length l))" using Cons.prems [of l] by (simp add: piece_len_def)
  then have "pieces (l @ NL # ?r) = (l @ [NL]) # pieces ?r" by (simp add: pieces.simps [of "l @ NL # ?r"])
  then show ?case using Cons by simp
qed

text \<open>
  C5: the main loop is faithful to its input. On every input the shell prompts and handles one
  piece after the other in their order, each unchanged: a piece that begins with ``cd '' is one
  chdir by the shell itself, to the rest of the piece without its last character (what comes before
  a NUL, if there is one), with a message when the kernel refuses it; every other piece is handed,
  complete, to one child which is waited for; then the shell exits with status 0. The pieces are
  the whole input up to a last line without newline of less than 99 characters. For a script whose
  lines have at most 98 characters the pieces are its lines; of a longer line, 99 characters at a
  time are a command of their own, since the buffer has 100 bytes.
\<close>

theorem shell_session:
  "shell cd i inp = session cd i (pieces inp) \<and>
   (\<exists>u. inp = concat (pieces inp) @ u \<and> NL \<notin> set u \<and> length u < 99) \<and>
   ((\<forall>l \<in> set ls. NL \<notin> set l \<and> length l \<le> 98) \<longrightarrow>
     pieces (concat (map (\<lambda>l. l @ [NL]) ls)) = map (\<lambda>l. l @ [NL]) ls)"
  using shell_pieces [of cd i inp] pieces_rest [of inp] pieces_lines [of ls] by blast

theorem shell_session_witness:
  "shell (\<lambda>_ _. 0) 0 (''cd /tmp'' @ [NL] @ ''ls'' @ [NL]) =
     [EvPrint [''> ''], EvChdir ''/tmp'', EvPrint [''> ''], EvChild (piece_buf (''ls'' @ [NL])), EvWait, EvPrint [''> ''], EvExit 0]"
  using shell_session [of "\<lambda>_ _. 0" 0 "''cd /tmp'' @ [NL] @ ''ls'' @ [NL]" "[''cd /tmp'', ''ls'']"] by simp

subsection \<open>Every input\<close>

lemma getcmd_loop_buf:
  "getcmd_loop n i buf inp = (r, buf', rest) \<Longrightarrow> i + n \<le> Suc j \<Longrightarrow> length buf' = length buf \<and> buf' ! j = buf ! j"
proof (induction n i buf inp rule: getcmd_loop.induct)
  case (1 n i buf inp)
  show ?case
  proof (cases "\<exists>c cs. inp = c # cs \<and> 1 < n \<and> c \<noteq> NL")
    case True
    then obtain c cs where c: "inp = c # cs" "1 < n" "c \<noteq> NL" by blast
    then have "getcmd_loop (n - 1) (Suc i) (buf[i := c]) cs = (r, buf', rest)"
      using "1.prems" by (simp add: getcmd_loop.simps [of n])
    then show ?thesis using "1.IH" [of c cs] "1.prems"(2) c by simp
  next
    case False
    then show ?thesis using "1.prems"
      by (auto simp: getcmd_loop.simps [of n] split: if_splits list.splits)
  qed
qed

lemma getcmd_NUL: "getcmd BUFSZ inp = (r, buf, rest) \<Longrightarrow> length buf = BUFSZ \<and> NUL \<in> set buf"
  using getcmd_loop_buf [of BUFSZ 0 "replicate BUFSZ NUL" inp r buf rest 99] nth_mem [of 99 buf]
  by (simp add: getcmd_def BUFSZ_def)

lemma child_exits: "NUL \<in> set buf \<Longrightarrow> exits (child_io buf)"
proof -
  assume "NUL \<in> set buf"
  then obtain es where "lexbuf buf es" using NUL_lexbuf by blast
  then have p: "parsecmd buf = Inl Panic \<or> (\<exists>c st b'. parsecmd buf = Inr (c, st, b'))"
    using parsecmd_outc [of buf es] by (cases "parsecmd buf") auto
  show ?thesis
  proof (cases "parsecmd buf")
    case (Inl e)
    with p show ?thesis by (auto simp: child_io_def assert_io_def)
  next
    case (Inr x)
    obtain c st b' where x: "x = (c, st, b')" by (cases x)
    with Inr obtain t where "runcmd (Suc c) (heap st) b' (Some c) = run_ast t"
      using runcmd_parsed [of buf c st b'] by blast
    then show ?thesis using Inr x exits_run_ast by (simp add: child_io_def del: runcmd.simps)
  qed
qed

text \<open>
  C6: on every input whatsoever, long lines, NUL bytes and a missing last newline included,
  the shell's loop ends with exit(0) at the end of the input, no access leaves the line
  buffer or reads past its NUL, and every child it forks ends in an exit (or in execve),
  whatever the kernel replies to the child's calls.
\<close>

theorem shell_total:
  "last (shell cd i inp) = EvExit 0 \<and> EvCrash \<notin> set (shell cd i inp) \<and>
   (\<forall>buf. EvChild buf \<in> set (shell cd i inp) \<longrightarrow> length buf = BUFSZ \<and> exits (child_io buf))"
proof (induction cd i inp rule: shell.induct)
  case (1 cd i inp)
  obtain r buf rest where g: "getcmd BUFSZ inp = (r, buf, rest)" by (cases "getcmd BUFSZ inp")
  have b: "length buf = BUFSZ" "NUL \<in> set buf" using getcmd_NUL [OF g] by auto
  obtain es where "lexbuf buf es" using NUL_lexbuf [OF b(2)] by blast
  then have s: "strlen buf 0 = Inr es" by (rule lexbuf_strlen)
  have ne: "shell cd j xs \<noteq> []" for j xs by (subst shell.simps) simp
  let ?cd = "buf ! 0 = CHR ''c'' \<and> buf ! 1 = CHR ''d'' \<and> buf ! 2 = CHR '' ''"
  consider "r < 0" | "\<not> r < 0" "?cd" | "\<not> r < 0" "\<not> ?cd" by blast
  then show ?case
  proof cases
    case 1
    then have "shell cd i inp = [EvPrint [''> ''], EvExit 0]" using g by (subst shell.simps) simp
    then show ?thesis by simp
  next
    case 2
    have IH: "last (shell cd (Suc i) rest) = EvExit 0 \<and> EvCrash \<notin> set (shell cd (Suc i) rest) \<and>
       (\<forall>buf. EvChild buf \<in> set (shell cd (Suc i) rest) \<longrightarrow> length buf = BUFSZ \<and> exits (child_io buf))"
      using "1.IH"(1) g s 2 by auto
    have "\<exists>d ps. shell cd i inp = EvPrint [''> ''] # EvChdir d # map EvPrint ps @ shell cd (Suc i) rest"
    proof -
      let ?d = "cstr (buf[es - 1 := NUL]) 3"
      have "shell cd i inp = EvPrint [''> ''] # EvChdir ?d #
          map EvPrint (if cd i ?d < 0 then [[''cannot cd '', ?d, [NL]]] else []) @ shell cd (Suc i) rest"
        using g s 2 by (subst shell.simps) (simp add: Let_def)
      then show ?thesis by blast
    qed
    then show ?thesis using IH ne by auto
  next
    case 3
    have IH: "last (shell cd (Suc i) rest) = EvExit 0 \<and> EvCrash \<notin> set (shell cd (Suc i) rest) \<and>
       (\<forall>buf. EvChild buf \<in> set (shell cd (Suc i) rest) \<longrightarrow> length buf = BUFSZ \<and> exits (child_io buf))"
      using "1.IH"(2) g s 3 by auto
    have "shell cd i inp = EvPrint [''> ''] # EvChild buf # EvWait # shell cd (Suc i) rest"
      using g 3 by (subst shell.simps) (simp del: de_Morgan_conj)
    then show ?thesis using IH ne b child_exits [OF b(2)] by auto
  qed
qed

theorem shell_total_witness:
  "EvChild (piece_buf (''ls'' @ [NL])) \<in> set (shell (\<lambda>_ _. 0) 0 (''ls'' @ [NL])) \<and>
   last (shell (\<lambda>_ _. 0) 0 (''ls'' @ [NL])) = EvExit 0 \<and> exits (child_io (piece_buf (''ls'' @ [NL])))"
proof -
  have "EvChild (piece_buf (''ls'' @ [NL])) \<in> set (shell (\<lambda>_ _. 0) 0 (''ls'' @ [NL]))"
    using shell_pieces [of "\<lambda>_ _. 0" 0 "''ls'' @ [NL]"] pieces_lines [of "[''ls'']"] by simp
  then show ?thesis using shell_total [of "\<lambda>_ _. 0" 0 "''ls'' @ [NL]"] by blast
qed

end
