(* ===== verification/Threads.thy ===== *)
theory Threads
  imports Prelude
begin

text \<open>
  Threads. First the thread pool of \<^verbatim>\<open>concurrency/include/thread.h\<close>
  (\<open>create\<close>, \<open>wrapper\<close>, \<open>join\<close>), then what all concurrent programs of the library share: a
  program is a function that gives, for a thread and a configuration, the configuration after
  the next atomic step of this thread, or \<open>None\<close> when the thread is blocked or has ended;
  the program's steps are those of any of its threads, one at a time. A schedule (the list of
  the threads that move) makes these programs executable.
\<close>

subsection \<open>thread.h\<close>

datatype tstatus = T_FREE | T_LIVE | T_DEAD

text \<open>A function pointer is its name; a \<^verbatim>\<open>pthread_t\<close> is the number the thread library hands out.\<close>

record thread =
  id :: int
  status :: tstatus
  handle :: nat
  entry :: string

definition NTHREAD :: nat where "NTHREAD = 6400"

record pool =
  tpool :: "thread list"
  tptr :: nat

definition pool0 :: pool where
  "pool0 = \<lparr>tpool = replicate NTHREAD \<lparr>id = 0, status = T_FREE, handle = 0, entry = []\<rparr>, tptr = 0\<rparr>"

text \<open>\<open>h\<close> is the handle that \<^verbatim>\<open>pthread_create\<close> stores; \<open>None\<close> is the failed assertion.\<close>

definition create :: "string \<Rightarrow> nat \<Rightarrow> pool \<Rightarrow> pool option" where
  "create fn h p =
     (if tptr p < NTHREAD
      then let t = \<lparr>id = int (tptr p) + 1, status = T_LIVE, handle = 0, entry = fn\<rparr>;
               p1 = p\<lparr>tpool := (tpool p)[tptr p := t]\<rparr>;
               p2 = p1\<lparr>tpool := (tpool p1)[tptr p := (tpool p1 ! tptr p)\<lparr>handle := h\<rparr>]\<rparr>
           in Some (p2\<lparr>tptr := Suc (tptr p)\<rparr>)
      else None)"

text \<open>What the thread that was given slot \<open>i\<close> runs: the function and its argument.\<close>

definition wrapper :: "pool \<Rightarrow> nat \<Rightarrow> string \<times> int" where
  "wrapper p i = (entry (tpool p ! i), id (tpool p ! i))"

text \<open>The loop of \<open>join\<close> over the rest of the table: the table after it and the handles waited for.\<close>

fun join_loop :: "thread list \<Rightarrow> thread list \<times> nat list" where
  "join_loop [] = ([], [])"
| "join_loop (t # ts) =
     (let (ts', hs) = join_loop ts
      in if status t = T_LIVE then (t\<lparr>status := T_DEAD\<rparr> # ts', handle t # hs) else (t # ts', hs))"

definition join :: "pool \<Rightarrow> pool \<times> nat list" where
  "join p = (let (ts, hs) = join_loop (tpool p) in (p\<lparr>tpool := ts\<rparr>, hs))"

fun creates :: "(string \<times> nat) list \<Rightarrow> pool \<Rightarrow> pool option" where
  "creates [] p = Some p"
| "creates ((fn, h) # cs) p = Option.bind (create fn h p) (creates cs)"

abbreviation live_thread :: "nat \<Rightarrow> string \<times> nat \<Rightarrow> thread" where
  "live_thread i c \<equiv> \<lparr>id = int i + 1, status = T_LIVE, handle = snd c, entry = fst c\<rparr>"

definition created :: "(string \<times> nat) list \<Rightarrow> pool" where
  "created cs =
     \<lparr>tpool = map (\<lambda>i. live_thread i (cs ! i)) [0..<length cs] @ drop (length cs) (tpool pool0), tptr = length cs\<rparr>"

lemma create_created:
  assumes "length cs < NTHREAD"
  shows "create (fst c) (snd c) (created cs) = Some (created (cs @ [c]))"
proof -
  have "drop (length cs) (tpool pool0) = tpool pool0 ! length cs # drop (Suc (length cs)) (tpool pool0)"
    using assms by (intro Cons_nth_drop_Suc [symmetric]) (simp add: pool0_def)
  then show ?thesis using assms
    by (simp add: create_def created_def list_update_append nth_append Let_def)
qed

lemma creates_created:
  "length ds + length cs \<le> NTHREAD \<Longrightarrow> creates cs (created ds) = Some (created (ds @ cs))"
proof (induction cs arbitrary: ds)
  case Nil
  then show ?case by simp
next
  case (Cons c cs)
  then have "create (fst c) (snd c) (created ds) = Some (created (ds @ [c]))"
    by (intro create_created) simp
  then show ?case using Cons by (cases c) simp
qed

lemma created_Nil: "created [] = pool0"
  by (simp add: created_def pool0_def)

lemma join_loop_eq:
  "join_loop ts = (map (\<lambda>t. if status t = T_LIVE then t\<lparr>status := T_DEAD\<rparr> else t) ts,
     map handle (filter (\<lambda>t. status t = T_LIVE) ts))"
  by (induction ts) auto

lemma map_nth_map: "map (\<lambda>i. f (cs ! i)) [0..<length cs] = map f cs"
  by (rule nth_equalityI) auto

text \<open>
  C17: the thread pool of thread.h. After up to 6400 calls of \<^verbatim>\<open>create\<close>, each slot
  carries the function it was created with and its number counted from 1, and that is what
  its thread runs, also when it starts only after later creations; \<^verbatim>\<open>join\<close> waits
  for every created thread exactly once, in the order of creation, and the second
  \<^verbatim>\<open>join\<close> made by the destructor waits for nothing. One more
  \<^verbatim>\<open>create\<close> on the full pool stops at the assertion.
\<close>

theorem thread_pool:
  assumes "length cs \<le> NTHREAD"
  shows "\<exists>p. creates cs pool0 = Some p \<and> tptr p = length cs \<and>
     (\<forall>i < length cs. wrapper p i = (fst (cs ! i), int i + 1)) \<and>
     snd (join p) = map snd cs \<and> snd (join (fst (join p))) = [] \<and>
     (length cs = NTHREAD \<longrightarrow> create fn h p = None)"
proof -
  have p: "creates cs pool0 = Some (created cs)"
    using creates_created [of "[]" cs] assms by (simp add: created_Nil)
  have w: "wrapper (created cs) i = (fst (cs ! i), int i + 1)" if "i < length cs" for i
    using that by (simp add: wrapper_def created_def nth_append)
  have free: "filter (\<lambda>t. status t = T_LIVE) (drop n (tpool pool0)) = []" for n
    by (auto simp: pool0_def filter_empty_conv dest: in_set_dropD)
  have j: "snd (join (created cs)) = map snd cs"
    by (simp add: join_def join_loop_eq created_def free comp_def map_nth_map split: prod.splits)
  have "filter (\<lambda>t. status t = T_LIVE) (map (\<lambda>t. if status t = T_LIVE then t\<lparr>status := T_DEAD\<rparr> else t) ts) = []" for ts
    by (auto simp: filter_empty_conv)
  then have "snd (join (fst (join (created cs)))) = []"
    by (simp add: join_def join_loop_eq split: prod.splits)
  then show ?thesis using p w j by (auto simp: created_def create_def)
qed

theorem thread_pool_witness:
  "length [(''Ta'', 7), (''Tb'', 9)] \<le> NTHREAD \<and>
   (\<exists>p. creates [(''Ta'', 7), (''Tb'', 9)] pool0 = Some p \<and> wrapper p 1 = (''Tb'', 2) \<and> snd (join p) = [7, 9])"
proof -
  have len: "length [(''Ta'', 7::nat), (''Tb'', 9)] \<le> NTHREAD" by (simp add: NTHREAD_def)
  obtain p where p: "creates [(''Ta'', 7), (''Tb'', 9)] pool0 = Some p"
    and w: "\<forall>i < length [(''Ta'', 7::nat), (''Tb'', 9)]. wrapper p i = (fst ([(''Ta'', 7::nat), (''Tb'', 9)] ! i), int i + 1)"
    and j: "snd (join p) = map snd [(''Ta'', 7::nat), (''Tb'', 9)]"
    using thread_pool [OF len] by blast
  have "wrapper p 1 = (''Tb'', 2)" using w by (simp add: All_less_Suc)
  with len p j show ?thesis by auto
qed

subsection \<open>Interleaving\<close>

text \<open>The moves of a program are mostly its threads; where the environment can move as well
  (the spurious wake-up of a waiting thread), they are actions \<open>Go t\<close> and \<open>Spurious t\<close>.\<close>

datatype act = Go tid | Spurious tid

definition threads_step :: "('a \<Rightarrow> 'c \<Rightarrow> 'c option) \<Rightarrow> 'a set \<Rightarrow> 'c \<Rightarrow> 'c \<Rightarrow> bool" where
  "threads_step tstep T c c' \<longleftrightarrow> (\<exists>t \<in> T. tstep t c = Some c')"

fun schedule :: "('a \<Rightarrow> 'c \<Rightarrow> 'c option) \<Rightarrow> 'a list \<Rightarrow> 'c \<Rightarrow> 'c option" where
  "schedule tstep [] c = Some c"
| "schedule tstep (t # ts) c = Option.bind (tstep t c) (schedule tstep ts)"

lemma schedule_append: "schedule tstep (xs @ ys) c = Option.bind (schedule tstep xs c) (schedule tstep ys)"
proof (induction xs arbitrary: c)
  case (Cons a xs)
  then show ?case by (cases "tstep a c") simp_all
qed simp

abbreviation reachable :: "'c \<Rightarrow> ('a \<Rightarrow> 'c \<Rightarrow> 'c option) \<Rightarrow> 'a set \<Rightarrow> 'c \<Rightarrow> bool" where
  "reachable c0 tstep T \<equiv> reach (\<lambda>c. c = c0) (threads_step tstep T)"

lemma schedule_reach:
  "reach start (threads_step tstep T) c \<Longrightarrow> set ts \<subseteq> T \<Longrightarrow> schedule tstep ts c = Some c' \<Longrightarrow>
   reach start (threads_step tstep T) c'"
proof (induction ts arbitrary: c)
  case (Cons t ts)
  then obtain d where "tstep t c = Some d" "schedule tstep ts d = Some c'" by (auto simp: bind_eq_Some_conv)
  moreover from this have "reach start (threads_step tstep T) d"
    using Cons.prems by (auto intro!: reach_step [OF Cons.prems(1)] simp: threads_step_def)
  ultimately show ?case using Cons by auto
qed simp

lemma schedule_reachable:
  "schedule tstep ts c0 = Some c \<Longrightarrow> set ts \<subseteq> T \<Longrightarrow> reachable c0 tstep T c"
  by (rule schedule_reach [OF reach_start]) auto

text \<open>Programs of threads: an invariant that every step of every thread keeps.\<close>

locale threads_invariant =
  fixes c0 :: 'c and tstep :: "'a \<Rightarrow> 'c \<Rightarrow> 'c option" and T :: "'a set" and inv :: "'c \<Rightarrow> bool"
  assumes inv_init: "inv c0"
    and inv_tstep: "inv c \<Longrightarrow> t \<in> T \<Longrightarrow> tstep t c = Some c' \<Longrightarrow> inv c'"

sublocale threads_invariant \<subseteq> invariant_system "\<lambda>c. c = c0" "threads_step tstep T" inv
  by unfold_locales (auto simp: threads_step_def intro: inv_init inv_tstep)

text \<open>Programs of threads whose every step makes a measure smaller: no schedule is longer than the
  measure of its start.\<close>

locale threads_measure =
  fixes tstep :: "'a \<Rightarrow> 'c \<Rightarrow> 'c option" and T :: "'a set" and work :: "'c \<Rightarrow> nat"
  assumes work_step: "t \<in> T \<Longrightarrow> tstep t c = Some c' \<Longrightarrow> work c' < work c"
begin

lemma schedule_bound: "schedule tstep ts c = Some c' \<Longrightarrow> set ts \<subseteq> T \<Longrightarrow> length ts + work c' \<le> work c"
proof (induction ts arbitrary: c)
  case (Cons t ts)
  then obtain d where d: "tstep t c = Some d" "schedule tstep ts d = Some c'" by (auto simp: bind_eq_Some_conv)
  then have "length ts + work c' \<le> work d" using Cons by simp
  then show ?case using work_step [OF _ d(1)] Cons.prems(2) by simp
qed simp

end

end
