(* ===== verification/Sync.thy ===== *)
theory Sync
  imports Threads
begin

text \<open>
  The synchronisation primitives of \<^verbatim>\<open>concurrency/include/thread-sync.h\<close>: the
  spinlock, which is the program's own code on top of an atomic exchange, and what the
  programs use of POSIX mutexes and semaphores. The interface \<open>lock\<close> is what a client of
  a lock relies on; \<^verbatim>\<open>sum-scalability.c\<close>, which can be compiled with either lock,
  is its client: the counter it protects is exact for every lock with these laws.
\<close>

subsection \<open>Spinlock\<close>

definition SPIN_INIT :: int where "SPIN_INIT = 0"

text \<open>The memory cell after the exchange, and the value it had.\<close>

definition atomic_xchg :: "int \<Rightarrow> int \<Rightarrow> int \<times> int" where
  "atomic_xchg addr newval = (newval, addr)"

text \<open>One round of the loop of \<^verbatim>\<open>spin_lock\<close>: whether it ends the loop, and the lock.\<close>

definition spin_lock :: "tid \<Rightarrow> int \<Rightarrow> bool \<times> int" where
  "spin_lock t lk = (let (lk', val) = atomic_xchg lk 1 in (val = 0, lk'))"

definition spin_unlock :: "tid \<Rightarrow> int \<Rightarrow> int" where
  "spin_unlock t lk = fst (atomic_xchg lk 0)"

subsection \<open>Mutex and semaphore\<close>

text \<open>A mutex is its owner. \<open>mutex_lock\<close> is one attempt: a thread that does not get the
  mutex is blocked and tries again later.\<close>

type_synonym mutex = "tid option"

definition mutex_lock :: "tid \<Rightarrow> mutex \<Rightarrow> bool \<times> mutex" where
  "mutex_lock t m = (case m of None \<Rightarrow> (True, Some t) | Some u \<Rightarrow> (False, Some u))"

definition mutex_unlock :: "tid \<Rightarrow> mutex \<Rightarrow> mutex" where
  "mutex_unlock t m = None"

text \<open>\<^verbatim>\<open>P\<close> (\<open>None\<close>: the caller is blocked) and \<^verbatim>\<open>V\<close> on the semaphore's value.\<close>

definition sem_P :: "nat \<Rightarrow> nat option" where
  "sem_P s = (if 0 < s then Some (s - 1) else None)"

definition sem_V :: "nat \<Rightarrow> nat" where
  "sem_V s = s + 1"

lemma sem_P_Some [simp]: "sem_P s = Some s' \<longleftrightarrow> s = Suc s'"
  by (auto simp: sem_P_def)

lemma sem_P_None [simp]: "sem_P s = None \<longleftrightarrow> s = 0"
  by (auto simp: sem_P_def)

subsection \<open>The interface of a lock\<close>

locale lock =
  fixes lk :: "tid \<Rightarrow> 'k \<Rightarrow> bool \<times> 'k" and unlk :: "tid \<Rightarrow> 'k \<Rightarrow> 'k" and held :: "'k \<Rightarrow> bool"
  assumes lk_free: "\<not> held k \<Longrightarrow> fst (lk t k)"
    and lk_held: "held k \<Longrightarrow> \<not> fst (lk t k)"
    and lk_takes: "held (snd (lk t k))"
    and unlk_frees: "\<not> held (unlk t k)"

interpretation spin: lock spin_lock spin_unlock "\<lambda>k. k \<noteq> 0"
  by unfold_locales (simp_all add: spin_lock_def spin_unlock_def atomic_xchg_def)

interpretation mutex: lock mutex_lock mutex_unlock "\<lambda>k. k \<noteq> None"
  by unfold_locales (auto simp: mutex_lock_def mutex_unlock_def split: option.splits)

subsection \<open>sum-scalability.c\<close>

text \<open>\<open>sum++\<close> is a load and a store, two steps of the machine. \<open>reg\<close> is the register between them.\<close>

datatype sum_pc = SLoop | SLock | SLoad | SStore | SUnlock | SDone

record 'k sumc =
  lockv :: 'k
  sumv :: int
  spc :: "tid \<Rightarrow> sum_pc"
  si :: "tid \<Rightarrow> int"
  sreg :: "tid \<Rightarrow> int"

definition sum_init :: "'k \<Rightarrow> 'k sumc" where
  "sum_init k = \<lparr>lockv = k, sumv = 0, spc = (\<lambda>_. SLoop), si = (\<lambda>_. 0), sreg = (\<lambda>_. 0)\<rparr>"

definition Tsum_step :: "(tid \<Rightarrow> 'k \<Rightarrow> bool \<times> 'k) \<Rightarrow> (tid \<Rightarrow> 'k \<Rightarrow> 'k) \<Rightarrow> int \<Rightarrow> tid \<Rightarrow> 'k sumc \<Rightarrow> 'k sumc option" where
  "Tsum_step lk unlk n t c =
     (case spc c t of
        SLoop \<Rightarrow> Some (c\<lparr>spc := (spc c)(t := if si c t < n then SLock else SDone)\<rparr>)
      | SLock \<Rightarrow> (let (ok, k) = lk t (lockv c)
                  in Some (c\<lparr>lockv := k, spc := (spc c)(t := if ok then SLoad else SLock)\<rparr>))
      | SLoad \<Rightarrow> Some (c\<lparr>sreg := (sreg c)(t := sumv c), spc := (spc c)(t := SStore)\<rparr>)
      | SStore \<Rightarrow> Some (c\<lparr>sumv := sreg c t + 1, spc := (spc c)(t := SUnlock)\<rparr>)
      | SUnlock \<Rightarrow> Some (c\<lparr>lockv := unlk t (lockv c), si := (si c)(t := si c t + 1), spc := (spc c)(t := SLoop)\<rparr>)
      | SDone \<Rightarrow> None)"

text \<open>The share of each thread that \<^verbatim>\<open>main\<close> computes; \<open>N\<close> is the constant of that name.\<close>

definition sum_share :: "int \<Rightarrow> nat \<Rightarrow> int" where
  "sum_share N nthread = N div int nthread"

text \<open>How many of its additions a thread has already made.\<close>

definition added :: "'k sumc \<Rightarrow> tid \<Rightarrow> int" where
  "added c t = si c t + (if spc c t = SUnlock then 1 else 0)"

definition in_cs :: "'k sumc \<Rightarrow> tid \<Rightarrow> bool" where
  "in_cs c t \<longleftrightarrow> spc c t \<in> {SLoad, SStore, SUnlock}"

text \<open>Mutual exclusion: those in the critical section \<open>cs\<close> are one at most, and none while
  the lock is free.\<close>

definition excl :: "tid set \<Rightarrow> (tid \<Rightarrow> bool) \<Rightarrow> bool \<Rightarrow> bool" where
  "excl T cs h \<longleftrightarrow> (\<forall>t\<in>T. cs t \<longrightarrow> h) \<and> (\<forall>t\<in>T. \<forall>u\<in>T. cs t \<longrightarrow> cs u \<longrightarrow> t = u)"

lemma excl_enter: "excl T cs h \<Longrightarrow> \<not> h \<Longrightarrow> (\<And>u. cs' u \<Longrightarrow> u = t \<or> cs u) \<Longrightarrow> h' \<Longrightarrow> excl T cs' h'"
  unfolding excl_def by metis

lemma excl_leave: "excl T cs h \<Longrightarrow> cs t \<Longrightarrow> t \<in> T \<Longrightarrow> (\<And>u. cs' u \<Longrightarrow> u \<noteq> t \<and> cs u) \<Longrightarrow> excl T cs' h'"
  unfolding excl_def by metis

lemma excl_other: "excl T cs h \<Longrightarrow> cs t \<Longrightarrow> t \<in> T \<Longrightarrow> u \<in> T \<Longrightarrow> u \<noteq> t \<Longrightarrow> \<not> cs u"
  unfolding excl_def by metis

definition thread_inv :: "int \<Rightarrow> 'k sumc \<Rightarrow> tid \<Rightarrow> bool" where
  "thread_inv n c t \<longleftrightarrow>
     (spc c t = SStore \<longrightarrow> sreg c t = sumv c) \<and> 0 \<le> si c t \<and>
     (if spc c t \<in> {SLoop, SDone} then si c t \<le> n else si c t < n) \<and> (spc c t = SDone \<longrightarrow> si c t = n)"

definition sum_inv :: "('k \<Rightarrow> bool) \<Rightarrow> int \<Rightarrow> tid set \<Rightarrow> 'k sumc \<Rightarrow> bool" where
  "sum_inv held n T c \<longleftrightarrow>
     sumv c = (\<Sum>t\<in>T. added c t) \<and> excl T (in_cs c) (held (lockv c)) \<and> (\<forall>t\<in>T. thread_inv n c t)"

lemma sum_inv_init: "0 \<le> n \<Longrightarrow> sum_inv held n T (sum_init k)"
  by (simp add: sum_inv_def sum_init_def added_def excl_def in_cs_def thread_inv_def)

text \<open>A step of one thread changes the sum over all threads by its own change.\<close>

lemma sum_change_one:
  fixes f g :: "'a \<Rightarrow> int"
  assumes "finite T" "t \<in> T" "\<And>u. u \<in> T \<Longrightarrow> u \<noteq> t \<Longrightarrow> g u = f u"
  shows "sum g T = sum f T - f t + g t"
proof -
  have "sum g (T - {t}) = sum f (T - {t})" using assms(3) by (intro sum.cong) auto
  then show ?thesis using assms(1,2) by (simp add: sum.remove)
qed

lemmas Tsum_cases = Tsum_step_def in_cs_def

context lock
begin

lemma excl_step:
  assumes t: "t \<in> T" and ex: "excl T (in_cs c) (held (lockv c))" and step: "Tsum_step lk unlk n t c = Some c'"
  shows "excl T (in_cs c') (held (lockv c'))"
proof -
  consider "spc c t \<in> {SLoop, SLoad, SStore}" | (SLock) "spc c t = SLock" | (SUnlock) "spc c t = SUnlock"
    | (SDone) "spc c t = SDone" by (cases "spc c t") auto
  then show ?thesis
  proof cases
    case 1
    then have "in_cs c' = in_cs c" "lockv c' = lockv c"
      using step by (auto simp: Tsum_cases fun_eq_iff split: if_splits)
    then show ?thesis using ex by simp
  next
    case SLock
    obtain ok k where lk: "lk t (lockv c) = (ok, k)" by (cases "lk t (lockv c)")
    have k: "held k" and ok: "ok \<longleftrightarrow> \<not> held (lockv c)"
      using lk lk_takes [of t "lockv c"] lk_free [of "lockv c" t] lk_held [of "lockv c" t] by auto
    have c': "c' = c\<lparr>lockv := k, spc := (spc c)(t := if ok then SLoad else SLock)\<rparr>"
      using step SLock lk by (simp add: Tsum_step_def)
    show ?thesis
    proof (cases "held (lockv c)")
      case True
      then have "in_cs c' = in_cs c" using ok SLock by (auto simp: c' in_cs_def fun_eq_iff)
      then show ?thesis using ex True k by (simp add: c')
    next
      case False
      from ex False show ?thesis by (rule excl_enter [where t = t]) (use k in \<open>auto simp: c' in_cs_def split: if_splits\<close>)
    qed
  next
    case SUnlock
    from ex show ?thesis
      by (rule excl_leave [where t = t]) (use step SUnlock t in \<open>auto simp: Tsum_cases split: if_splits\<close>)
  next
    case SDone
    with step show ?thesis by (simp add: Tsum_step_def)
  qed
qed

lemma sum_inv_step:
  assumes fin: "finite T" "t \<in> T" and inv: "sum_inv held n T c" and step: "Tsum_step lk unlk n t c = Some c'"
  shows "sum_inv held n T c'"
proof -
  have ex: "excl T (in_cs c) (held (lockv c))" and th: "thread_inv n c u" if "u \<in> T" for u
    using inv that fin unfolding sum_inv_def by blast+
  have "added c' u = added c u" if "u \<noteq> t" for u
    using step that by (auto simp: Tsum_step_def added_def split: sum_pc.splits prod.splits if_splits)
  then have "(\<Sum>u\<in>T. added c' u) = (\<Sum>u\<in>T. added c u) - added c t + added c' t"
    using fin by (intro sum_change_one) auto
  moreover have "sumv c' - sumv c = added c' t - added c t"
    using step th [OF fin(2)]
    by (auto simp: Tsum_step_def added_def thread_inv_def split: sum_pc.splits prod.splits if_splits)
  ultimately have "sumv c' = (\<Sum>u\<in>T. added c' u)" using inv by (simp add: sum_inv_def)
  moreover have "thread_inv n c' t"
    using step th [OF fin(2)] by (auto simp: Tsum_step_def thread_inv_def split: sum_pc.splits prod.splits if_splits)
  moreover have "thread_inv n c' u" if u: "u \<in> T" "u \<noteq> t" for u
  proof (cases "spc c t = SStore")
    case True
    then have "\<not> in_cs c u" using excl_other [OF ex [OF fin(2)] _ fin(2) u] by (simp add: in_cs_def)
    then show ?thesis using step True th [OF u(1)] u(2) by (auto simp: Tsum_cases thread_inv_def)
  next
    case False
    then show ?thesis using step th [OF u(1)] u(2)
      by (auto simp: Tsum_step_def thread_inv_def split: sum_pc.splits prod.splits if_splits)
  qed
  ultimately show ?thesis using excl_step [OF fin(2) ex step] fin(2) unfolding sum_inv_def by metis
qed

lemma sum_exact:
  assumes "reachable (sum_init k0) (Tsum_step lk unlk n) T c" "finite T" "0 \<le> n" "\<forall>t\<in>T. spc c t = SDone"
  shows "sumv c = n * int (card T)"
proof -
  have "sum_inv held n T c"
    using assms(1)
  proof (induction rule: reach.induct)
    case (reach_step s u)
    then show ?case using sum_inv_step [OF assms(2)] by (auto simp: threads_step_def)
  qed (use assms(3) sum_inv_init in auto)
  then have "sumv c = (\<Sum>t\<in>T. added c t)" and "\<forall>t\<in>T. si c t = n"
    using assms(4) unfolding sum_inv_def thread_inv_def by auto
  moreover have "(\<Sum>t\<in>T. added c t) = (\<Sum>t\<in>T. n)"
    using assms(4) calculation(2) by (intro sum.cong) (auto simp: added_def)
  ultimately show ?thesis by simp
qed

end

text \<open>
  C15: \<^verbatim>\<open>sum-scalability.c\<close> with its spinlock: for every number of threads and every
  interleaving of their steps (the load and the store of \<^verbatim>\<open>sum++\<close> and every
  exchange of the lock being separate steps), when all threads have ended the assertion of
  \<^verbatim>\<open>main\<close> holds: no addition is lost.
\<close>

theorem spin_sum_exact:
  assumes "reachable (sum_init SPIN_INIT) (Tsum_step spin_lock spin_unlock (sum_share N nthread)) {1..nthread} c"
    and "0 \<le> N" "0 < nthread" and "\<forall>t \<in> {1..nthread}. spc c t = SDone"
  shows "sumv c = sum_share N nthread * int nthread"
  using spin.sum_exact [OF assms(1)] assms(2-4) by (simp add: sum_share_def pos_imp_zdiv_nonneg_iff)

theorem spin_sum_exact_witness:
  "\<exists>c. reachable (sum_init SPIN_INIT) (Tsum_step spin_lock spin_unlock (sum_share 2 2)) {1..2} c \<and>
     (\<forall>t \<in> {1..2}. spc c t = SDone) \<and> sumv c = 2"
proof -
  let ?S = "schedule (Tsum_step spin_lock spin_unlock (sum_share 2 2)) [1,2,1,2,1,2,1,2,1,2,2,2,2,2,1] (sum_init SPIN_INIT)"
  have "case ?S of None \<Rightarrow> False | Some c \<Rightarrow> spc c 1 = SDone \<and> spc c 2 = SDone" by code_simp
  then obtain c where c: "?S = Some c" and d: "spc c 1 = SDone" "spc c 2 = SDone" by (auto split: option.splits)
  have r: "reachable (sum_init SPIN_INIT) (Tsum_step spin_lock spin_unlock (sum_share 2 2)) {1..2} c"
    using c by (rule schedule_reachable) simp
  have a: "\<forall>t \<in> {1..2}. spc c t = SDone" using d by (auto simp: numeral_2_eq_2 le_Suc_eq)
  show ?thesis using r a spin_sum_exact [OF r _ _ a] by (auto simp: sum_share_def)
qed

text \<open>
  The same with the mutex that the program uses when it is compiled without
  \<^verbatim>\<open>SPIN\<close>.
\<close>

theorem mutex_sum_exact:
  assumes "reachable (sum_init None) (Tsum_step mutex_lock mutex_unlock (sum_share N nthread)) {1..nthread} c"
    and "0 \<le> N" "0 < nthread" and "\<forall>t \<in> {1..nthread}. spc c t = SDone"
  shows "sumv c = sum_share N nthread * int nthread"
  using mutex.sum_exact [OF assms(1)] assms(2-4) by (simp add: sum_share_def pos_imp_zdiv_nonneg_iff)

theorem mutex_sum_exact_witness:
  "\<exists>c. reachable (sum_init None) (Tsum_step mutex_lock mutex_unlock (sum_share 1 1)) {1..1} c \<and>
     (\<forall>t \<in> {1..1}. spc c t = SDone) \<and> sumv c = 1"
proof -
  let ?S = "schedule (Tsum_step mutex_lock mutex_unlock (sum_share 1 1)) [1,1,1,1,1,1] (sum_init None)"
  have "case ?S of None \<Rightarrow> False | Some c \<Rightarrow> spc c 1 = SDone" by code_simp
  then obtain c where c: "?S = Some c" and d: "spc c 1 = SDone" by (auto split: option.splits)
  have r: "reachable (sum_init None) (Tsum_step mutex_lock mutex_unlock (sum_share 1 1)) {1..1} c"
    using c by (rule schedule_reachable) simp
  have a: "\<forall>t \<in> {1..1}. spc c t = SDone" using d by auto
  show ?thesis using r a mutex_sum_exact [OF r _ _ a] by (auto simp: sum_share_def)
qed

end
