(* ===== verification/Race.thy ===== *)
theory Race
  imports Sync
begin

text \<open>
  Additions without a lock: \<^verbatim>\<open>concurrency/sum.c\<close> (the instruction
  \<^verbatim>\<open>addq\<close> on memory is a load, an addition and a store when several processors
  run it) and \<^verbatim>\<open>concurrency/midterm/midterm-demo.c\<close>, which writes the same three
  steps out as numbered statements, three times. The counter says how many of its \<open>3 * n\<close>
  statements a thread has executed. Shown: the exact range of the final sum, and that the
  schedule noted in a comment of the midterm solutions does reach its minimum.
\<close>

record racec =
  rsum :: int
  rpc :: "tid \<Rightarrow> nat"
  rt :: "tid \<Rightarrow> int"

definition race_init :: racec where
  "race_init = \<lparr>rsum = 0, rpc = (\<lambda>_. 0), rt = (\<lambda>_. 0)\<rparr>"

definition do_sum_step :: "nat \<Rightarrow> tid \<Rightarrow> racec \<Rightarrow> racec option" where
  "do_sum_step n t c =
     (if rpc c t < 3 * n
      then let c1 = c\<lparr>rpc := (rpc c)(t := Suc (rpc c t))\<rparr>
           in if rpc c t mod 3 = 0 then Some (c1\<lparr>rt := (rt c)(t := rsum c)\<rparr>)
              else if rpc c t mod 3 = 1 then Some (c1\<lparr>rt := (rt c)(t := rt c t + 1)\<rparr>)
              else Some (c1\<lparr>rsum := rt c t\<rparr>)
      else None)"

definition stores :: "racec \<Rightarrow> tid \<Rightarrow> int" where
  "stores c t = int (rpc c t div 3)"

text \<open>What is known of a thread: \<open>s\<close> is the number of stores of all threads so far.\<close>

definition race_thread :: "nat \<Rightarrow> int \<Rightarrow> racec \<Rightarrow> tid \<Rightarrow> bool" where
  "race_thread n s c t \<longleftrightarrow>
     rpc c t \<le> 3 * n \<and>
     (3 \<le> rpc c t \<longrightarrow> 1 \<le> rsum c) \<and>
     (rpc c t mod 3 = 1 \<longrightarrow> 0 \<le> rt c t \<and> rt c t \<le> s \<and> (3 < rpc c t \<longrightarrow> 1 \<le> rt c t)) \<and>
     (rpc c t mod 3 = 2 \<longrightarrow> 1 \<le> rt c t \<and> rt c t \<le> s + 1 \<and> (3 < rpc c t \<longrightarrow> 2 \<le> rt c t))"

definition race_inv :: "nat \<Rightarrow> tid set \<Rightarrow> racec \<Rightarrow> bool" where
  "race_inv n T c \<longleftrightarrow>
     0 \<le> rsum c \<and> rsum c \<le> (\<Sum>t\<in>T. stores c t) \<and> (\<forall>t\<in>T. race_thread n (\<Sum>t\<in>T. stores c t) c t) \<and>
     ((\<forall>t\<in>T. rpc c t = 3 * n) \<longrightarrow> 2 \<le> rsum c)"

lemma race_inv_init: "2 \<le> n \<Longrightarrow> T \<noteq> {} \<Longrightarrow> race_inv n T race_init"
  by (auto simp: race_inv_def race_init_def race_thread_def stores_def)

lemma stores_step:
  assumes "finite T" "t \<in> T" "do_sum_step n t c = Some c'"
  shows "(\<Sum>u\<in>T. stores c' u) = (\<Sum>u\<in>T. stores c u) + (if rpc c t mod 3 = 2 then 1 else 0)"
proof -
  have "(\<Sum>u\<in>T. stores c' u) = (\<Sum>u\<in>T. stores c u) - stores c t + stores c' t"
    using assms by (intro sum_change_one) (auto simp: do_sum_step_def stores_def Let_def split: if_splits)
  moreover have "stores c' t = stores c t + (if rpc c t mod 3 = 2 then 1 else 0)"
    using assms(3) by (auto simp: do_sum_step_def stores_def Let_def div_Suc mod_Suc split: if_splits)
  ultimately show ?thesis by simp
qed

lemma race_inv_step:
  assumes fin: "finite T" "t \<in> T" and inv: "race_inv n T c" and n: "2 \<le> n" and step: "do_sum_step n t c = Some c'"
  shows "race_inv n T c'"
proof -
  let ?s = "\<Sum>u\<in>T. stores c u" and ?s' = "\<Sum>u\<in>T. stores c' u"
  have s': "?s' = ?s + (if rpc c t mod 3 = 2 then 1 else 0)" by (rule stores_step [OF fin step])
  have th: "race_thread n ?s c u" if "u \<in> T" for u using inv that by (simp add: race_inv_def)
  have rng: "0 \<le> rsum c" "rsum c \<le> ?s" using inv by (auto simp: race_inv_def)
  have lt: "rpc c t < 3 * n" using step by (simp add: do_sum_step_def split: if_splits)
  consider (load) "rpc c t mod 3 = 0" | (inc) "rpc c t mod 3 = 1" | (store) "rpc c t mod 3 = 2" by linarith
  then show ?thesis
  proof cases
    case load
    then have c': "c' = c\<lparr>rpc := (rpc c)(t := Suc (rpc c t)), rt := (rt c)(t := rsum c)\<rparr>"
      using step lt by (simp add: do_sum_step_def)
    have "race_thread n ?s' c' u" if "u \<in> T" for u
      using th [OF that] th [OF fin(2)] rng load lt s' by (auto simp: race_thread_def c' mod_Suc)
    moreover have "Suc (rpc c t) \<noteq> 3 * n" using load by presburger
    ultimately show ?thesis using rng s' load fin(2) by (auto simp: race_inv_def c')
  next
    case inc
    then have c': "c' = c\<lparr>rpc := (rpc c)(t := Suc (rpc c t)), rt := (rt c)(t := rt c t + 1)\<rparr>"
      using step lt by (simp add: do_sum_step_def)
    have "rpc c t \<noteq> 3" using inc by auto
    then have "race_thread n ?s' c' u" if "u \<in> T" for u
      using th [OF that] th [OF fin(2)] rng inc lt s' by (auto simp: race_thread_def c' mod_Suc)
    moreover have "Suc (rpc c t) \<noteq> 3 * n" using inc by presburger
    ultimately show ?thesis using rng s' inc fin(2) by (auto simp: race_inv_def c')
  next
    case store
    then have c': "c' = c\<lparr>rpc := (rpc c)(t := Suc (rpc c t)), rsum := rt c t\<rparr>"
      using step lt by (simp add: do_sum_step_def)
    have r: "1 \<le> rt c t" "rt c t \<le> ?s + 1" "3 < rpc c t \<longrightarrow> 2 \<le> rt c t"
      using th [OF fin(2)] store by (auto simp: race_thread_def)
    have "race_thread n ?s' c' u" if "u \<in> T" for u
      using th [OF that] r store lt s' by (auto simp: race_thread_def c' mod_Suc)
    moreover have "2 \<le> rt c t" if "Suc (rpc c t) = 3 * n" using that r n by linarith
    ultimately show ?thesis using r s' store fin(2) by (auto simp: race_inv_def c')
  qed
qed

interpretation race: threads_invariant race_init "do_sum_step n" T
  "\<lambda>c. finite T \<and> T \<noteq> {} \<and> 2 \<le> n \<longrightarrow> race_inv n T c" for n T
  by unfold_locales (auto intro: race_inv_init race_inv_step)

lemma race_range:
  assumes "reachable race_init (do_sum_step n) T c" "finite T" "T \<noteq> {}" "2 \<le> n"
    and "\<forall>t\<in>T. rpc c t = 3 * n"
  shows "2 \<le> rsum c \<and> rsum c \<le> int n * int (card T)"
proof -
  have "race_inv n T c" using race.inv_reach [OF assms(1)] assms(2-4) by simp
  moreover have "(\<Sum>t\<in>T. stores c t) = (\<Sum>t\<in>T. int n)" using assms(5) by (intro sum.cong) (auto simp: stores_def)
  ultimately show ?thesis using assms(5) by (simp add: race_inv_def mult.commute)
qed

text \<open>
  C16: additions without a lock. For every number of threads and every interleaving of their
  loads, additions and stores, once each thread has made its \<open>n \<ge> 2\<close> additions the sum is at
  least 2 and at most the number of additions: updates can be lost, but never more than that,
  and the sum never exceeds the intended one.
\<close>

theorem race_bounds:
  assumes "reachable race_init (do_sum_step n) T c" "finite T" "T \<noteq> {}" "2 \<le> n"
    and "\<forall>t\<in>T. rpc c t = 3 * n"
  shows "2 \<le> rsum c \<and> rsum c \<le> int n * int (card T)"
  using assms by (rule race_range)

text \<open>\<^verbatim>\<open>sum.c\<close>: its addition is one instruction, but not a locked one, so that the processors still load, add and
  store one after the other.\<close>

definition sum_N :: nat where "sum_N = 100000000"

definition Tsum_asm :: "tid \<Rightarrow> racec \<Rightarrow> racec option" where
  "Tsum_asm = do_sum_step sum_N"

lemma sum_c_range:
  assumes "reachable race_init Tsum_asm {1, 2} c" and "rpc c 1 = 3 * sum_N" and "rpc c 2 = 3 * sum_N"
  shows "2 \<le> rsum c \<and> rsum c \<le> 200000000"
  using race_range [of sum_N "{1, 2}" c] assms by (simp add: Tsum_asm_def sum_N_def)

text \<open>An example: the schedule of the comment at the end of midterm-v1.c (the same in midterm-v2.c and midterm-tle.c).\<close>

definition comment_schedule :: "tid list" where
  "comment_schedule = [1,1, 2,2, 1,1,1,1, 2, 1,1, 2,2,2,2,2,2, 1]"

theorem race_bounds_witness:
  "\<exists>c. reachable race_init (do_sum_step 3) {1, 2} c \<and> (\<forall>t \<in> {1, 2}. rpc c t = 3 * 3) \<and> 2 \<le> rsum c \<and> rsum c \<le> 3 * 2"
proof -
  have "case schedule (do_sum_step 3) comment_schedule race_init of None \<Rightarrow> False | Some c \<Rightarrow> rpc c 1 = 9 \<and> rpc c 2 = 9"
    by code_simp
  then obtain c where c: "schedule (do_sum_step 3) comment_schedule race_init = Some c" and d: "rpc c 1 = 9" "rpc c 2 = 9"
    by (auto split: option.splits)
  have r: "reachable race_init (do_sum_step 3) {1, 2} c"
    using c by (rule schedule_reachable) (simp add: comment_schedule_def)
  show ?thesis using r d race_bounds [OF r] by (intro exI [of _ c]) simp
qed

text \<open>
  The lower bound is reached, by the very schedule that the comments in the midterm
  solutions give for \<^verbatim>\<open>midterm-demo.c\<close>: two threads of three additions each can
  end with the sum 2.
\<close>

theorem comment_schedule_sum:
  "\<exists>c. schedule (do_sum_step 3) comment_schedule race_init = Some c \<and> reachable race_init (do_sum_step 3) {1, 2} c \<and>
     rpc c 1 = 9 \<and> rpc c 2 = 9 \<and> rsum c = 2"
proof -
  have "case schedule (do_sum_step 3) comment_schedule race_init of None \<Rightarrow> False
     | Some c \<Rightarrow> rpc c 1 = 9 \<and> rpc c 2 = 9 \<and> rsum c = 2"
    by code_simp
  then obtain c where c: "schedule (do_sum_step 3) comment_schedule race_init = Some c"
    and d: "rpc c 1 = 9" "rpc c 2 = 9" "rsum c = 2"
    by (auto split: option.splits)
  have "reachable race_init (do_sum_step 3) {1, 2} c"
    using c by (rule schedule_reachable) (simp add: comment_schedule_def)
  with c d show ?thesis by blast
qed

end
