(* ===== verification/Fish.thy ===== *)
theory Fish
  imports Sync
begin

text \<open>
  \<^verbatim>\<open>concurrency/fish.c\<close>: threads that may each print only one character print
  fish, by a condition variable that guards an automaton. A step of the model is one
  statement; waiting on the condition variable releases the mutex and sleeps, and ends by a
  broadcast or spuriously, after which the mutex has to be taken again. Shown, for the 13
  threads that \<^verbatim>\<open>main\<close> creates and every interleaving: the output is always a
  prefix of a sequence of fish, the assertion never fails, and some thread can always go on.
\<close>

definition st_A :: int where "st_A = 1"
definition st_B :: int where "st_B = 2"
definition st_C :: int where "st_C = 3"
definition st_D :: int where "st_D = 4"
definition st_E :: int where "st_E = 5"
definition st_F :: int where "st_F = 6"

lemmas st_defs = st_A_def st_B_def st_C_def st_D_def st_E_def st_F_def

record rule =
  r_from :: int
  r_ch :: char
  r_to :: int

definition rules :: "rule list" where
  "rules =
    [\<lparr>r_from = st_A, r_ch = CHR ''<'', r_to = st_B\<rparr>,
     \<lparr>r_from = st_B, r_ch = CHR ''>'', r_to = st_C\<rparr>,
     \<lparr>r_from = st_C, r_ch = CHR ''<'', r_to = st_D\<rparr>,
     \<lparr>r_from = st_A, r_ch = CHR ''>'', r_to = st_E\<rparr>,
     \<lparr>r_from = st_E, r_ch = CHR ''<'', r_to = st_F\<rparr>,
     \<lparr>r_from = st_F, r_ch = CHR ''>'', r_to = st_D\<rparr>,
     \<lparr>r_from = st_D, r_ch = CHR ''_'', r_to = st_A\<rparr>]"

fun next_loop :: "rule list \<Rightarrow> int \<Rightarrow> char \<Rightarrow> int" where
  "next_loop [] cur ch = 0"
| "next_loop (r # rs) cur ch = (if r_from r = cur \<and> r_ch r = ch then r_to r else next_loop rs cur ch)"

definition next_st :: "int \<Rightarrow> char \<Rightarrow> int" where
  "next_st cur ch = next_loop rules cur ch"

datatype fish_pc = BLock | BTest | BSleep | BWake | BQuota | BUnlock | Put
  | ALock | AInc | ANext | AAssert | ABcast | AUnlock | AFail

record fishc =
  current :: int
  quota :: int
  flk :: mutex
  fout :: string
  fpc :: "tid \<Rightarrow> fish_pc"

definition fish_init :: fishc where
  "fish_init = \<lparr>current = st_A, quota = 1, flk = None, fout = [], fpc = (\<lambda>_. BLock)\<rparr>"

definition goto :: "tid \<Rightarrow> fish_pc \<Rightarrow> fishc \<Rightarrow> fishc" where
  "goto t p c = c\<lparr>fpc := (fpc c)(t := p)\<rparr>"

text \<open>Taking the mutex, then going on at \<open>p\<close>.\<close>

definition take_lk :: "tid \<Rightarrow> fish_pc \<Rightarrow> fishc \<Rightarrow> fishc option" where
  "take_lk t p c = (let (ok, m) = mutex_lock t (flk c) in if ok then Some (goto t p (c\<lparr>flk := m\<rparr>)) else None)"

definition fish_before :: "char \<Rightarrow> tid \<Rightarrow> fishc \<Rightarrow> fishc option" where
  "fish_before ch t c =
     (case fpc c t of
        BLock \<Rightarrow> take_lk t BTest c
      | BTest \<Rightarrow>
          if \<not> (next_st (current c) ch \<noteq> 0 \<and> quota c \<noteq> 0)
          then Some (goto t BSleep (c\<lparr>flk := mutex_unlock t (flk c)\<rparr>))
          else Some (goto t BQuota c)
      | BWake \<Rightarrow> take_lk t BTest c
      | BQuota \<Rightarrow> Some (goto t BUnlock (c\<lparr>quota := quota c - 1\<rparr>))
      | BUnlock \<Rightarrow> Some (goto t Put (c\<lparr>flk := mutex_unlock t (flk c)\<rparr>))
      | _ \<Rightarrow> None)"

definition fish_after :: "char \<Rightarrow> tid \<Rightarrow> fishc \<Rightarrow> fishc option" where
  "fish_after ch t c =
     (case fpc c t of
        ALock \<Rightarrow> take_lk t AInc c
      | AInc \<Rightarrow> Some (goto t ANext (c\<lparr>quota := quota c + 1\<rparr>))
      | ANext \<Rightarrow> Some (goto t AAssert (c\<lparr>current := next_st (current c) ch\<rparr>))
      | AAssert \<Rightarrow> Some (goto t (if current c \<noteq> 0 then ABcast else AFail) c)
      | ABcast \<Rightarrow> Some (goto t AUnlock (c\<lparr>fpc := (\<lambda>u. if fpc c u = BSleep then BWake else fpc c u)\<rparr>))
      | AUnlock \<Rightarrow> Some (goto t BLock (c\<lparr>flk := mutex_unlock t (flk c)\<rparr>))
      | _ \<Rightarrow> None)"

definition roles :: string where "roles = ''.<<<<<>>>>___''"

text \<open>\<^verbatim>\<open>roles[id]\<close>, the terminating NUL included.\<close>

definition role_of :: "tid \<Rightarrow> char" where
  "role_of t = (roles @ [NUL]) ! t"

definition fish_thread :: "tid \<Rightarrow> fishc \<Rightarrow> fishc option" where
  "fish_thread t c =
     (if fpc c t \<in> {BLock, BTest, BWake, BQuota, BUnlock} then fish_before (role_of t) t c
      else if fpc c t = Put then Some (goto t ALock (c\<lparr>fout := fout c @ [role_of t]\<rparr>))
      else fish_after (role_of t) t c)"

primrec fish_step :: "act \<Rightarrow> fishc \<Rightarrow> fishc option" where
  "fish_step (Go t) c = fish_thread t c"
| "fish_step (Spurious t) c = (if fpc c t = BSleep then Some (goto t BWake c) else None)"

text \<open>The threads \<^verbatim>\<open>main\<close> creates: as many as \<^verbatim>\<open>strlen(roles)\<close>, numbered from 1.\<close>

definition fish_ids :: "tid set" where
  "fish_ids = {1..length roles}"

definition fish_acts :: "act set" where
  "fish_acts = Go ` fish_ids \<union> Spurious ` fish_ids"

subsection \<open>Invariant\<close>

primrec locked :: "fish_pc \<Rightarrow> bool" where
  "locked BLock = False" | "locked BTest = True" | "locked BSleep = False" | "locked BWake = False"
| "locked BQuota = True" | "locked BUnlock = True" | "locked Put = False" | "locked ALock = False"
| "locked AInc = True" | "locked ANext = True" | "locked AAssert = True" | "locked ABcast = True"
| "locked AUnlock = True" | "locked AFail = True"

text \<open>Between the decrement of the quota and the move of the automaton.\<close>

primrec granted :: "fish_pc \<Rightarrow> bool" where
  "granted BLock = False" | "granted BTest = False" | "granted BSleep = False" | "granted BWake = False"
| "granted BQuota = False" | "granted BUnlock = True" | "granted Put = True" | "granted ALock = True"
| "granted AInc = True" | "granted ANext = True" | "granted AAssert = False" | "granted ABcast = False"
| "granted AUnlock = False" | "granted AFail = False"

fun run_auto :: "int \<Rightarrow> string \<Rightarrow> int" where
  "run_auto s [] = s"
| "run_auto s (ch # w) = run_auto (next_st s ch) w"

definition printed :: "fish_pc \<Rightarrow> bool" where
  "printed p \<longleftrightarrow> p \<in> {ALock, AInc, ANext}"

text \<open>Who has the mutex; who has been granted the right to print (\<open>None\<close>: nobody).\<close>

definition lk_inv :: "fishc \<Rightarrow> bool" where
  "lk_inv c \<longleftrightarrow> set_option (flk c) \<subseteq> fish_ids \<and> (\<forall>t \<in> fish_ids. flk c = Some t \<longleftrightarrow> locked (fpc c t))"

definition grant_inv :: "tid option \<Rightarrow> fishc \<Rightarrow> bool" where
  "grant_inv g c \<longleftrightarrow> (\<forall>t \<in> fish_ids. g = Some t \<longleftrightarrow> granted (fpc c t)) \<and>
     (case g of
        None \<Rightarrow> quota c = 1 \<and> run_auto st_A (fout c) = current c
      | Some t \<Rightarrow> t \<in> fish_ids \<and> quota c = (if fpc c t = ANext then 1 else 0) \<and> next_st (current c) (role_of t) \<noteq> 0 \<and>
          run_auto st_A (fout c) = (if printed (fpc c t) then next_st (current c) (role_of t) else current c))"

definition fpc_inv :: "fishc \<Rightarrow> bool" where
  "fpc_inv c \<longleftrightarrow> 1 \<le> current c \<and> current c \<le> 6 \<and> (\<forall>t \<in> fish_ids. fpc c t \<noteq> AFail \<and>
     (fpc c t = BQuota \<longrightarrow> next_st (current c) (role_of t) \<noteq> 0 \<and> quota c \<noteq> 0))"

definition wake_inv :: "fishc \<Rightarrow> bool" where
  "wake_inv c \<longleftrightarrow> (\<forall>t \<in> fish_ids. fpc c t = BSleep \<and> next_st (current c) (role_of t) \<noteq> 0 \<and> quota c \<noteq> 0 \<longrightarrow>
     (\<exists>u \<in> fish_ids. fpc c u \<in> {ANext, AAssert, ABcast}))"

definition fish_inv :: "fishc \<Rightarrow> bool" where
  "fish_inv c \<longleftrightarrow> lk_inv c \<and> (\<exists>g. grant_inv g c) \<and> fpc_inv c \<and> wake_inv c"

lemma run_auto_append [simp]: "run_auto s (v @ w) = run_auto (run_auto s v) w"
  by (induction v arbitrary: s) auto

lemma next_st_range: "next_st s ch \<noteq> 0 \<Longrightarrow> 1 \<le> next_st s ch \<and> next_st s ch \<le> 6"
  by (auto simp: next_st_def rules_def st_defs split: if_splits)

lemma fish_inv_init: "fish_inv fish_init"
  by (auto simp: fish_inv_def lk_inv_def grant_inv_def fpc_inv_def wake_inv_def fish_init_def st_A_def intro!: exI [of _ None])

lemmas fish_defs = fish_thread_def fish_before_def fish_after_def take_lk_def mutex_lock_def mutex_unlock_def goto_def

lemma locked_only:
  assumes "lk_inv c" "t \<in> fish_ids" "locked (fpc c t)"
  shows "flk c = Some t" "\<And>u. u \<in> fish_ids \<Longrightarrow> u \<noteq> t \<Longrightarrow> \<not> locked (fpc c u)"
  using assms unfolding lk_inv_def by (metis option.inject)+

lemma granted_only:
  assumes "grant_inv g c" "t \<in> fish_ids" "granted (fpc c t)"
  shows "g = Some t" "\<And>u. u \<in> fish_ids \<Longrightarrow> u \<noteq> t \<Longrightarrow> \<not> granted (fpc c u)"
  using assms unfolding grant_inv_def by (metis option.inject)+

lemma lk_inv_step:
  assumes "lk_inv c" "t \<in> fish_ids" "fish_thread t c = Some c'"
  shows "lk_inv c'"
  using assms locked_only(2) [OF assms(1,2)]
  by (cases "fpc c t") (auto simp: lk_inv_def fish_defs split: if_splits option.splits)

text \<open>A thread that is not granted, and is not just being granted, changes nothing that matters here.\<close>

lemma bystander_step:
  assumes "fish_thread t c = Some c'" "\<not> granted (fpc c t)" "fpc c t \<noteq> BQuota"
  shows "quota c' = quota c \<and> current c' = current c \<and> fout c' = fout c \<and> \<not> granted (fpc c' t) \<and>
    (\<forall>u. u \<noteq> t \<longrightarrow> fpc c' u = fpc c u \<or> fpc c u = BSleep \<and> fpc c' u = BWake)"
  using assms by (cases "fpc c t") (auto simp: fish_defs split: if_splits option.splits)

lemma bystander_grant:
  assumes g: "grant_inv g c" "t \<in> fish_ids" and step: "fish_thread t c = Some c'" "\<not> granted (fpc c t)" "fpc c t \<noteq> BQuota"
  shows "grant_inv g c'"
proof -
  note b = bystander_step [OF step]
  have gr: "granted (fpc c' u) = granted (fpc c u)" for u
    using b step(2) by (cases "u = t") (fastforce, metis granted.simps(3,4))
  have "fpc c' w = fpc c w" if "g = Some w" for w
  proof -
    have "granted (fpc c w)" using g(1) that by (auto simp: grant_inv_def)
    then show ?thesis using b step(2) by (metis granted.simps(3))
  qed
  then show ?thesis using g(1) b gr by (auto simp: grant_inv_def split: option.splits)
qed

lemma grantee_grant:
  assumes g: "grant_inv g c" "t \<in> fish_ids" and step: "fish_thread t c = Some c'" "granted (fpc c t)"
  shows "grant_inv (if fpc c t = ANext then None else g) c'"
proof -
  have gt: "g = Some t" and o: "\<not> granted (fpc c u)" if "u \<in> fish_ids" "u \<noteq> t" for u
    using granted_only [OF g step(2)] that by auto
  have gt: "g = Some t" using granted_only(1) [OF g step(2)] .
  have oth: "fpc c' u = fpc c u" if "u \<noteq> t" for u
    using step that by (cases "fpc c t") (auto simp: fish_defs split: if_splits option.splits)
  have self: "fpc c t = ANext \<and> c' = goto t AAssert (c\<lparr>current := next_st (current c) (role_of t)\<rparr>) \<or>
     fpc c t = AInc \<and> c' = goto t ANext (c\<lparr>quota := quota c + 1\<rparr>) \<or>
     fpc c t = ALock \<and> c' = goto t AInc (c\<lparr>flk := Some t\<rparr>) \<or>
     fpc c t = Put \<and> c' = goto t ALock (c\<lparr>fout := fout c @ [role_of t]\<rparr>) \<or>
     fpc c t = BUnlock \<and> c' = goto t Put (c\<lparr>flk := None\<rparr>)"
    using step by (cases "fpc c t") (auto simp: fish_defs split: if_splits option.splits)
  have main: "quota c = (if fpc c t = ANext then 1 else 0)" "next_st (current c) (role_of t) \<noteq> 0"
     "run_auto st_A (fout c) = (if printed (fpc c t) then next_st (current c) (role_of t) else current c)"
    using g(1) gt by (auto simp: grant_inv_def)
  have "granted (fpc c' u) \<longleftrightarrow> fpc c t \<noteq> ANext \<and> u = t" if "u \<in> fish_ids" for u
    using oth [of u] o [OF that] self by (cases "u = t") (auto simp: goto_def)
  then show ?thesis using self main gt g(2) by (auto simp: grant_inv_def printed_def goto_def)
qed

lemma grant_inv_step:
  assumes g: "grant_inv g c" "t \<in> fish_ids" and inv: "fpc_inv c" "lk_inv c" and step: "fish_thread t c = Some c'"
  shows "\<exists>g. grant_inv g c'"
proof (cases "fpc c t = BQuota")
  case True
  then have q: "quota c \<noteq> 0" "next_st (current c) (role_of t) \<noteq> 0" using g inv by (auto simp: fpc_inv_def)
  have "g = None"
  proof (cases g)
    case (Some u)
    then have "u \<in> fish_ids" "fpc c u = ANext" using g(1) q by (auto simp: grant_inv_def split: if_splits)
    then show ?thesis using locked_only(2) [OF inv(2) g(2), of u] True by (cases "u = t") auto
  qed simp
  then have "grant_inv (Some t) c'" using g q True step
    by (auto simp: grant_inv_def fish_defs printed_def split: if_splits)
  then show ?thesis by blast
next
  case False
  then show ?thesis using bystander_grant [OF g step] grantee_grant [OF g step] by blast
qed

lemma fpc_inv_step:
  assumes inv: "lk_inv c" "fpc_inv c" "grant_inv g c" and t: "t \<in> fish_ids" and step: "fish_thread t c = Some c'"
  shows "fpc_inv c'"
proof -
  have cur: "1 \<le> current c" "current c \<le> 6" using inv by (auto simp: fpc_inv_def)
  have nx: "next_st (current c) (role_of t) \<noteq> 0" if "fpc c t = ANext"
    using granted_only(1) [OF inv(3) t] inv(3) that by (auto simp: grant_inv_def)
  have "1 \<le> current c' \<and> current c' \<le> 6"
    using step cur nx next_st_range by (cases "fpc c t") (auto simp: fish_defs split: if_splits option.splits)
  moreover have "fpc c' t \<noteq> AFail \<and> (fpc c' t = BQuota \<longrightarrow> next_st (current c') (role_of t) \<noteq> 0 \<and> quota c' \<noteq> 0)"
    using step cur by (cases "fpc c t") (auto simp: fish_defs split: if_splits option.splits)
  moreover have "fpc c' u \<noteq> AFail \<and> (fpc c' u = BQuota \<longrightarrow> next_st (current c') (role_of u) \<noteq> 0 \<and> quota c' \<noteq> 0)"
    if u: "u \<in> fish_ids" "u \<noteq> t" for u
  proof (cases "fpc c u = BQuota")
    case True
    then have "\<not> locked (fpc c t)" using locked_only(2) [OF inv(1) u(1), of t] t u(2) by auto
    then have "current c' = current c \<and> quota c' = quota c \<and> fpc c' u = fpc c u"
      using step u(2) by (cases "fpc c t") (auto simp: fish_defs split: if_splits option.splits)
    then show ?thesis using inv(2) u(1) by (auto simp: fpc_inv_def)
  next
    case False
    then have "fpc c' u \<noteq> BQuota" "fpc c' u = fpc c u \<or> fpc c' u = BWake"
      using step u(2) by (cases "fpc c t"; auto simp: fish_defs split: if_splits option.splits)+
    then show ?thesis using inv(2) u(1) by (auto simp: fpc_inv_def)
  qed
  ultimately show ?thesis unfolding fpc_inv_def by metis
qed

lemma wake_inv_step:
  assumes inv: "fpc_inv c" "wake_inv c" and t: "t \<in> fish_ids" and step: "fish_thread t c = Some c'"
  shows "wake_inv c'"
  unfolding wake_inv_def
proof (intro ballI impI, elim conjE)
  fix u assume u: "u \<in> fish_ids" "fpc c' u = BSleep" "next_st (current c') (role_of u) \<noteq> 0" "quota c' \<noteq> 0"
  have q: "fpc c t = BQuota \<longrightarrow> quota c \<noteq> 0" and cur: "current c \<noteq> 0" using inv(1) t by (auto simp: fpc_inv_def)
  consider (w) "fpc c t \<in> {AInc, ANext, AAssert}" | (b) "fpc c t = ABcast" | (o) "fpc c t \<notin> {AInc, ANext, AAssert, ABcast}"
    by blast
  then show "\<exists>u \<in> fish_ids. fpc c' u \<in> {ANext, AAssert, ABcast}"
  proof cases
    case w
    then have "fpc c' t \<in> {ANext, AAssert, ABcast}" using step cur by (auto simp: fish_defs)
    then show ?thesis using t by blast
  next
    case b
    then show ?thesis using step u(2) by (auto simp: fish_defs split: if_splits)
  next
    case o
    have "fpc c u = BSleep \<and> current c' = current c \<and> quota c \<noteq> 0"
      using step u o q by (cases "fpc c t") (auto simp: fish_defs split: if_splits option.splits)
    then obtain w where w: "w \<in> fish_ids" "fpc c w \<in> {ANext, AAssert, ABcast}"
      using inv(2) u by (auto simp: wake_inv_def)
    moreover have "fpc c' w = fpc c w"
      using step w(2) o by (cases "fpc c t") (auto simp: fish_defs split: if_splits option.splits)
    ultimately show ?thesis by metis
  qed
qed

lemma fish_inv_thread: "fish_inv c \<Longrightarrow> t \<in> fish_ids \<Longrightarrow> fish_thread t c = Some c' \<Longrightarrow> fish_inv c'"
  unfolding fish_inv_def using lk_inv_step grant_inv_step fpc_inv_step wake_inv_step by metis

lemma fish_inv_spurious:
  assumes "fish_inv c" "t \<in> fish_ids" "fpc c t = BSleep"
  shows "fish_inv (goto t BWake c)"
proof -
  obtain g where g: "grant_inv g c" using assms(1) by (auto simp: fish_inv_def)
  have "granted (fpc (goto t BWake c) u) = granted (fpc c u)" for u using assms(3) by (simp add: goto_def)
  moreover have "fpc (goto t BWake c) w = fpc c w" if "g = Some w" for w
  proof -
    have "granted (fpc c w)" using g that by (auto simp: grant_inv_def)
    then show ?thesis using assms(3) by (auto simp: goto_def)
  qed
  ultimately have "grant_inv g (goto t BWake c)"
    using g by (cases g) (simp_all add: grant_inv_def, simp_all add: goto_def)
  moreover have "lk_inv (goto t BWake c)" "fpc_inv (goto t BWake c)"
    using assms by (auto simp: fish_inv_def lk_inv_def fpc_inv_def goto_def)
  moreover have "wake_inv (goto t BWake c)"
    unfolding wake_inv_def
  proof (intro ballI impI, elim conjE)
    fix u assume "u \<in> fish_ids" "fpc (goto t BWake c) u = BSleep"
      "next_st (current (goto t BWake c)) (role_of u) \<noteq> 0" "quota (goto t BWake c) \<noteq> 0"
    then obtain w where w: "w \<in> fish_ids" "fpc c w \<in> {ANext, AAssert, ABcast}"
      using assms(1) by (auto simp: fish_inv_def wake_inv_def goto_def split: if_splits)
    then have "fpc (goto t BWake c) w = fpc c w" using assms(3) by (auto simp: goto_def)
    then show "\<exists>u \<in> fish_ids. fpc (goto t BWake c) u \<in> {ANext, AAssert, ABcast}" using w by metis
  qed
  ultimately show ?thesis by (auto simp: fish_inv_def)
qed

interpretation fish: threads_invariant fish_init fish_step fish_acts fish_inv
  by unfold_locales
    (auto simp: fish_acts_def fish_inv_init fish_inv_thread fish_inv_spurious split: if_splits)

subsection \<open>Properties\<close>

definition fishes :: "string set" where "fishes = {''<><_'', ''><>_''}"

text \<open>What has been printed since the last complete fish, by the state of the automaton.\<close>

definition part_of :: "int \<Rightarrow> string set" where
  "part_of s =
     (if s = st_A then {[]} else if s = st_B then {''<''} else if s = st_C then {''<>''}
      else if s = st_D then {''<><'', ''><>''} else if s = st_E then {''>''} else if s = st_F then {''><''} else {})"

lemma next_st_cases:
  assumes "next_st s ch \<noteq> 0"
  shows "(s, ch, next_st s ch) \<in> {(st_A, CHR ''<'', st_B), (st_B, CHR ''>'', st_C), (st_C, CHR ''<'', st_D),
    (st_A, CHR ''>'', st_E), (st_E, CHR ''<'', st_F), (st_F, CHR ''>'', st_D), (st_D, CHR ''_'', st_A)}"
  using assms by (auto simp: next_st_def rules_def split: if_splits)

lemma run_auto_0: "run_auto 0 w = 0"
  by (induction w) (auto simp: next_st_def rules_def st_defs)

lemma run_auto_fishes:
  assumes "run_auto st_A w \<noteq> 0"
  shows "\<exists>fs p. w = concat fs @ p \<and> set fs \<subseteq> fishes \<and> p \<in> part_of (run_auto st_A w)"
  using assms
proof (induction w rule: rev_induct)
  case Nil
  show ?case by (intro exI [of _ "[]"]) (auto simp: part_of_def)
next
  case (snoc ch w)
  let ?s = "run_auto st_A w"
  have n: "next_st ?s ch \<noteq> 0" using snoc.prems by simp
  then have "?s \<noteq> 0" using run_auto_0 [of "[ch]"] by auto
  then obtain fs p where w: "w = concat fs @ p" "set fs \<subseteq> fishes" "p \<in> part_of ?s" using snoc.IH by blast
  show ?case
  proof (cases "?s = st_D")
    case True
    then have c: "ch = CHR ''_''" "next_st ?s ch = st_A" "p \<in> {''<><'', ''><>''}"
      using next_st_cases [OF n] w(3) by (auto simp: st_defs part_of_def)
    then have "p @ [ch] \<in> fishes" by (auto simp: fishes_def)
    then show ?thesis using w c by (intro exI [of _ "fs @ [p @ [ch]]"] exI [of _ "[]"]) (auto simp: part_of_def)
  next
    case False
    then have "p @ [ch] \<in> part_of (next_st ?s ch)"
      using next_st_cases [OF n] w(3) by (auto simp: st_defs part_of_def)
    then show ?thesis using w by (intro exI [of _ fs] exI [of _ "p @ [ch]"]) simp
  qed
qed

lemma fish_inv_output: "fish_inv c \<Longrightarrow> run_auto st_A (fout c) \<noteq> 0"
  by (auto simp: fish_inv_def grant_inv_def fpc_inv_def split: option.splits if_splits)

text \<open>
  C7: fish.c prints fish only. In every reachable state of the 13 threads, whatever the
  interleaving and with spurious wake-ups, the output consists of complete fish (each
  \<^verbatim>\<open><><_\<close> or \<^verbatim>\<open>><>_\<close>) followed by a beginning of one.
\<close>

theorem fish_output:
  assumes "reachable fish_init fish_step fish_acts c"
  shows "\<exists>fs p q. fout c = concat fs @ p \<and> set fs \<subseteq> fishes \<and> p @ q \<in> fishes"
proof -
  obtain fs p where f: "fout c = concat fs @ p" "set fs \<subseteq> fishes" "p \<in> part_of (run_auto st_A (fout c))"
    using run_auto_fishes [OF fish_inv_output [OF fish.inv_reach [OF assms]]] by blast
  have "\<exists>q. p @ q \<in> fishes" using f(3) by (auto simp: part_of_def fishes_def split: if_splits)
  then show ?thesis using f by blast
qed

text \<open>
  The assertion of \<^verbatim>\<open>fish_after\<close> never fails, and although
  \<^verbatim>\<open>putchar\<close> runs without the mutex, at most one thread is printing; the quota stays
  0 or 1.
\<close>

theorem fish_exclusive:
  assumes "reachable fish_init fish_step fish_acts c" "t \<in> fish_ids" "u \<in> fish_ids"
  shows "fpc c t \<noteq> AFail \<and> quota c \<in> {0, 1} \<and> (fpc c t = Put \<and> fpc c u = Put \<longrightarrow> t = u)"
proof -
  have inv: "fpc_inv c" "\<exists>g. grant_inv g c" using fish.inv_reach [OF assms(1)] by (auto simp: fish_inv_def)
  then obtain g where g: "grant_inv g c" by blast
  have "quota c \<in> {0, 1}" using g by (auto simp: grant_inv_def split: option.splits)
  moreover have "t = u" if "fpc c t = Put" "fpc c u = Put"
    using granted_only(2) [OF g assms(2), of u] assms(3) that by auto
  ultimately show ?thesis using inv(1) assms(2) by (auto simp: fpc_inv_def)
qed

text \<open>
  C8: fish.c never comes to a standstill: in every reachable state, spurious wake-ups aside,
  at least one of the threads can make a step.
\<close>

theorem fish_no_deadlock:
  assumes "reachable fish_init fish_step fish_acts c"
  shows "\<exists>t \<in> fish_ids. fish_step (Go t) c \<noteq> None"
proof (rule ccontr)
  assume "\<not> ?thesis"
  then have stuck: "fish_thread t c = None" if "t \<in> fish_ids" for t using that by auto
  have "fish_inv c" using assms by (rule fish.inv_reach)
  then obtain g where inv: "lk_inv c" "grant_inv g c" "fpc_inv c" "wake_inv c" by (auto simp: fish_inv_def)
  have nl: "\<not> locked (fpc c t)" if "t \<in> fish_ids" for t
    using stuck [OF that] inv(3) that by (cases "fpc c t") (auto simp: fish_defs fpc_inv_def split: if_splits)
  then have "flk c = None" using inv(1) by (cases "flk c") (auto simp: lk_inv_def)
  then have sl: "fpc c t = BSleep" if "t \<in> fish_ids" for t
    using stuck [OF that] nl [OF that] by (cases "fpc c t") (auto simp: fish_defs)
  have "g = None" using inv(2) sl by (cases g) (auto simp: grant_inv_def)
  then have "quota c = 1" using inv(2) by (simp add: grant_inv_def)
  moreover obtain t where "t \<in> fish_ids" "next_st (current c) (role_of t) \<noteq> 0"
  proof -
    have "current c \<in> {1, 2, 3, 4, 5, 6}" using inv(3) by (auto simp: fpc_inv_def)
    then have "next_st (current c) (role_of 1) \<noteq> 0 \<or> next_st (current c) (role_of 6) \<noteq> 0 \<or> next_st (current c) (role_of 10) \<noteq> 0"
      by (auto simp: next_st_def rules_def st_defs role_of_def roles_def)
    moreover have "1 \<in> fish_ids" "6 \<in> fish_ids" "10 \<in> fish_ids" by (simp_all add: fish_ids_def roles_def)
    ultimately show thesis using that by blast
  qed
  ultimately show False using inv(4) sl by (auto simp: wake_inv_def)
qed

text \<open>Witnesses: two fish characters printed, by the threads 1 and 6.\<close>

definition fish_run :: "act list" where
  "fish_run = replicate 11 (Go 1) @ replicate 5 (Go 6)"

lemma fish_run_reach: obtains c where "schedule fish_step fish_run fish_init = Some c" "fout c = ''<>''"
    "reachable fish_init fish_step fish_acts c"
proof -
  have "case schedule fish_step fish_run fish_init of None \<Rightarrow> False | Some c \<Rightarrow> fout c = ''<>''" by code_simp
  then obtain c where c: "schedule fish_step fish_run fish_init = Some c" "fout c = ''<>''"
    by (auto split: option.splits)
  moreover have "reachable fish_init fish_step fish_acts c"
    using c(1) by (rule schedule_reachable) (auto simp: fish_run_def fish_acts_def fish_ids_def roles_def)
  ultimately show thesis by (rule that)
qed

theorem fish_output_witness:
  "\<exists>c. reachable fish_init fish_step fish_acts c \<and> fout c = ''<>'' \<and>
     (\<exists>fs p q. fout c = concat fs @ p \<and> set fs \<subseteq> fishes \<and> p @ q \<in> fishes)"
  using fish_run_reach fish_output by metis

theorem fish_exclusive_witness:
  "\<exists>c. reachable fish_init fish_step fish_acts c \<and> fout c = ''<>'' \<and> quota c \<in> {0, 1} \<and> fpc c 1 \<noteq> AFail"
proof -
  have "1 \<in> fish_ids" by (simp add: fish_ids_def roles_def)
  then show ?thesis using fish_run_reach fish_exclusive by metis
qed

theorem fish_no_deadlock_witness:
  "\<exists>c. reachable fish_init fish_step fish_acts c \<and> fout c = ''<>'' \<and> (\<exists>t \<in> fish_ids. fish_step (Go t) c \<noteq> None)"
  using fish_run_reach fish_no_deadlock by metis

end
