(* ===== verification/Producer_Consumer.thy ===== *)
theory Producer_Consumer
  imports Sync
begin

text \<open>
  The three producer-consumer programs: \<^verbatim>\<open>concurrency/pc.c\<close> (a mutex and
  retries), \<^verbatim>\<open>pc-cv.c\<close> (a condition variable) and \<^verbatim>\<open>pc-sem.c\<close>
  (semaphores). \<^verbatim>\<open>main\<close> creates eight producers and eight consumers in turn, so the
  odd thread numbers produce. What they promise is what \<^verbatim>\<open>pc-check.py\<close> checks of
  their output: the nesting depth of the parentheses stays between 0 and \<open>n\<close> at every
  character. Shown for each program and every interleaving; for the condition variable also
  that the program never comes to a standstill.
\<close>

definition producer :: "tid \<Rightarrow> bool" where
  "producer t \<longleftrightarrow> odd t"

definition pc_ids :: "tid set" where
  "pc_ids = {1..16}"

text \<open>The output specification: the running count of \<^verbatim>\<open>pc-check.py\<close>.\<close>

definition paren :: "char \<Rightarrow> int" where
  "paren ch = (if ch = CHR ''('' then 1 else if ch = CHR '')'' then -1 else 0)"

fun depth :: "string \<Rightarrow> int" where
  "depth [] = 0"
| "depth (ch # w) = paren ch + depth w"

definition pc_check :: "int \<Rightarrow> string \<Rightarrow> bool" where
  "pc_check n w \<longleftrightarrow> (\<forall>k \<le> length w. 0 \<le> depth (take k w) \<and> depth (take k w) \<le> n)"

lemma depth_append [simp]: "depth (v @ w) = depth v + depth w"
  by (induction v) auto

lemma pc_check_snoc [simp]:
  "pc_check n (w @ [ch]) \<longleftrightarrow> pc_check n w \<and> 0 \<le> depth w + paren ch \<and> depth w + paren ch \<le> n"
  by (auto simp: pc_check_def le_Suc_eq)

lemma pc_check_depth: "pc_check n w \<Longrightarrow> 0 \<le> depth w \<and> depth w \<le> n"
  unfolding pc_check_def by (metis order_refl take_all)

lemma pc_check_Nil [simp]: "pc_check n [] \<longleftrightarrow> 0 \<le> n"
  by (simp add: pc_check_def)

text \<open>The character a thread prints and what it does to the count.\<close>

definition sign_ch :: "tid \<Rightarrow> char" where
  "sign_ch t = (if producer t then CHR ''('' else CHR '')'')"

definition delta :: "tid \<Rightarrow> int" where
  "delta t = (if producer t then 1 else -1)"

lemma paren_sign [simp]: "paren (sign_ch t) = delta t"
  by (simp add: paren_def sign_ch_def delta_def)

subsection \<open>pc.c\<close>

datatype pc_pc = PLock | PTest | PRetry | PCount | PPrint | PUnlock

record pcc =
  pcount :: int
  plk :: mutex
  pout :: string
  ppc :: "tid \<Rightarrow> pc_pc"

definition pc_init :: pcc where
  "pc_init = \<lparr>pcount = 0, plk = None, pout = [], ppc = (\<lambda>_. PLock)\<rparr>"

definition p_goto :: "tid \<Rightarrow> pc_pc \<Rightarrow> pcc \<Rightarrow> pcc" where
  "p_goto t p c = c\<lparr>ppc := (ppc c)(t := p)\<rparr>"

definition Tproduce :: "int \<Rightarrow> tid \<Rightarrow> pcc \<Rightarrow> pcc option" where
  "Tproduce n t c =
     (case ppc c t of
        PLock \<Rightarrow> (let (ok, m) = mutex_lock t (plk c) in if ok then Some (p_goto t PTest (c\<lparr>plk := m\<rparr>)) else None)
      | PTest \<Rightarrow> Some (p_goto t (if pcount c = n then PRetry else PCount) c)
      | PRetry \<Rightarrow> Some (p_goto t PLock (c\<lparr>plk := mutex_unlock t (plk c)\<rparr>))
      | PCount \<Rightarrow> Some (p_goto t PPrint (c\<lparr>pcount := pcount c + 1\<rparr>))
      | PPrint \<Rightarrow> Some (p_goto t PUnlock (c\<lparr>pout := pout c @ ''(''\<rparr>))
      | PUnlock \<Rightarrow> Some (p_goto t PLock (c\<lparr>plk := mutex_unlock t (plk c)\<rparr>)))"

definition Tconsume :: "tid \<Rightarrow> pcc \<Rightarrow> pcc option" where
  "Tconsume t c =
     (case ppc c t of
        PLock \<Rightarrow> (let (ok, m) = mutex_lock t (plk c) in if ok then Some (p_goto t PTest (c\<lparr>plk := m\<rparr>)) else None)
      | PTest \<Rightarrow> Some (p_goto t (if pcount c = 0 then PRetry else PCount) c)
      | PRetry \<Rightarrow> Some (p_goto t PLock (c\<lparr>plk := mutex_unlock t (plk c)\<rparr>))
      | PCount \<Rightarrow> Some (p_goto t PPrint (c\<lparr>pcount := pcount c - 1\<rparr>))
      | PPrint \<Rightarrow> Some (p_goto t PUnlock (c\<lparr>pout := pout c @ '')''\<rparr>))
      | PUnlock \<Rightarrow> Some (p_goto t PLock (c\<lparr>plk := mutex_unlock t (plk c)\<rparr>)))"

definition pc_step :: "int \<Rightarrow> tid \<Rightarrow> pcc \<Rightarrow> pcc option" where
  "pc_step n t c = (if producer t then Tproduce n t c else Tconsume t c)"

text \<open>The count is ahead of the output while its owner is about to print.\<close>

definition pc_ahead :: "pcc \<Rightarrow> int" where
  "pc_ahead c = (case plk c of None \<Rightarrow> 0 | Some t \<Rightarrow> if ppc c t = PPrint then delta t else 0)"

definition pc_inv :: "int \<Rightarrow> pcc \<Rightarrow> bool" where
  "pc_inv n c \<longleftrightarrow>
     (\<forall>t. plk c = Some t \<longleftrightarrow> ppc c t \<noteq> PLock) \<and>
     0 \<le> pcount c \<and> pcount c \<le> n \<and> pc_check n (pout c) \<and> depth (pout c) = pcount c - pc_ahead c \<and>
     (\<forall>t. ppc c t = PCount \<longrightarrow> 0 \<le> pcount c + delta t \<and> pcount c + delta t \<le> n)"

lemma pc_inv_init: "0 \<le> n \<Longrightarrow> pc_inv n pc_init"
  by (simp add: pc_inv_def pc_init_def pc_ahead_def)

lemmas pc_defs = pc_step_def Tproduce_def Tconsume_def p_goto_def mutex_lock_def mutex_unlock_def

lemma pc_inv_step:
  assumes inv: "pc_inv n c" and step: "pc_step n t c = Some c'"
  shows "pc_inv n c'"
proof (cases "ppc c t = PLock")
  case True
  then have l: "plk c = None" and c': "c' = p_goto t PTest (c\<lparr>plk := Some t\<rparr>)"
    using step by (auto simp: pc_defs split: if_splits option.splits)
  have "ppc c u = PLock" for u using inv l by (auto simp: pc_inv_def)
  then show ?thesis using inv l by (auto simp: pc_inv_def pc_ahead_def c' p_goto_def)
next
  case False
  then have l: "plk c = Some t" using inv by (auto simp: pc_inv_def)
  then have o: "ppc c u = PLock" if "u \<noteq> t" for u
    using inv that unfolding pc_inv_def by (metis option.inject)
  show ?thesis
    using inv step l o False
    by (cases "ppc c t"; cases "producer t")
      (auto simp: pc_inv_def pc_defs pc_ahead_def delta_def paren_def split: if_splits)
qed

interpretation pc: threads_invariant pc_init "pc_step n" pc_ids "\<lambda>c. 0 \<le> n \<longrightarrow> pc_inv n c" for n
  by unfold_locales (auto intro: pc_inv_init pc_inv_step)

text \<open>
  pc.c. For every \<open>n \<ge> 0\<close> and every interleaving of the sixteen threads the count stays
  between 0 and \<open>n\<close> and the output passes the check of \<^verbatim>\<open>pc-check.py\<close>.
\<close>

theorem pc_output:
  assumes "reachable pc_init (pc_step n) pc_ids c" "0 \<le> n"
  shows "pc_check n (pout c) \<and> 0 \<le> pcount c \<and> pcount c \<le> n"
  using pc.inv_reach [OF assms(1)] assms(2) by (simp add: pc_inv_def)

theorem pc_output_witness:
  "\<exists>c. reachable pc_init (pc_step 1) pc_ids c \<and> pout c = ''()'' \<and> pc_check 1 (pout c)"
proof -
  let ?S = "schedule (pc_step 1) [1,1,1,1,1,2,2,2,2] pc_init"
  have "case ?S of None \<Rightarrow> False | Some c \<Rightarrow> pout c = ''()''" by code_simp
  then obtain c where c: "?S = Some c" and o: "pout c = ''()''" by (auto split: option.splits)
  have r: "reachable pc_init (pc_step 1) pc_ids c"
    using c by (rule schedule_reachable) (simp add: pc_ids_def)
  show ?thesis using r o pc_output [OF r] by auto
qed

subsection \<open>pc-cv.c\<close>

datatype cv_pc = CLock | CTest | CSleep | CWake | CPrint | CCount | CBcast | CUnlock

record cvc =
  vcount :: int
  vlk :: mutex
  vout :: string
  vpc :: "tid \<Rightarrow> cv_pc"

definition cv_init :: cvc where
  "cv_init = \<lparr>vcount = 0, vlk = None, vout = [], vpc = (\<lambda>_. CLock)\<rparr>"

definition v_goto :: "tid \<Rightarrow> cv_pc \<Rightarrow> cvc \<Rightarrow> cvc" where
  "v_goto t p c = c\<lparr>vpc := (vpc c)(t := p)\<rparr>"

definition cv_take :: "tid \<Rightarrow> cvc \<Rightarrow> cvc option" where
  "cv_take t c = (let (ok, m) = mutex_lock t (vlk c) in if ok then Some (v_goto t CTest (c\<lparr>vlk := m\<rparr>)) else None)"

text \<open>\<^verbatim>\<open>cond_wait\<close> gives the mutex back and sleeps; \<^verbatim>\<open>cond_broadcast\<close> wakes all sleepers.\<close>

definition cv_wait :: "tid \<Rightarrow> cvc \<Rightarrow> cvc" where
  "cv_wait t c = v_goto t CSleep (c\<lparr>vlk := mutex_unlock t (vlk c)\<rparr>)"

definition cv_broadcast :: "cvc \<Rightarrow> cvc" where
  "cv_broadcast c = c\<lparr>vpc := (\<lambda>u. if vpc c u = CSleep then CWake else vpc c u)\<rparr>"

definition cv_Tproduce :: "int \<Rightarrow> tid \<Rightarrow> cvc \<Rightarrow> cvc option" where
  "cv_Tproduce n t c =
     (case vpc c t of
        CLock \<Rightarrow> cv_take t c
      | CTest \<Rightarrow> Some (if vcount c = n then cv_wait t c else v_goto t CPrint c)
      | CSleep \<Rightarrow> None
      | CWake \<Rightarrow> cv_take t c
      | CPrint \<Rightarrow> Some (v_goto t CCount (c\<lparr>vout := vout c @ ''(''\<rparr>))
      | CCount \<Rightarrow> Some (v_goto t CBcast (c\<lparr>vcount := vcount c + 1\<rparr>))
      | CBcast \<Rightarrow> Some (v_goto t CUnlock (cv_broadcast c))
      | CUnlock \<Rightarrow> Some (v_goto t CLock (c\<lparr>vlk := mutex_unlock t (vlk c)\<rparr>)))"

definition cv_Tconsume :: "tid \<Rightarrow> cvc \<Rightarrow> cvc option" where
  "cv_Tconsume t c =
     (case vpc c t of
        CLock \<Rightarrow> cv_take t c
      | CTest \<Rightarrow> Some (if vcount c = 0 then cv_wait t c else v_goto t CPrint c)
      | CSleep \<Rightarrow> None
      | CWake \<Rightarrow> cv_take t c
      | CPrint \<Rightarrow> Some (v_goto t CCount (c\<lparr>vout := vout c @ '')''\<rparr>))
      | CCount \<Rightarrow> Some (v_goto t CBcast (c\<lparr>vcount := vcount c - 1\<rparr>))
      | CBcast \<Rightarrow> Some (v_goto t CUnlock (cv_broadcast c))
      | CUnlock \<Rightarrow> Some (v_goto t CLock (c\<lparr>vlk := mutex_unlock t (vlk c)\<rparr>)))"

primrec cv_step :: "int \<Rightarrow> act \<Rightarrow> cvc \<Rightarrow> cvc option" where
  "cv_step n (Go t) c = (if producer t then cv_Tproduce n t c else cv_Tconsume t c)"
| "cv_step n (Spurious t) c = (if vpc c t = CSleep then Some (v_goto t CWake c) else None)"

definition pc_acts :: "act set" where
  "pc_acts = Go ` pc_ids \<union> Spurious ` pc_ids"

primrec cv_locked :: "cv_pc \<Rightarrow> bool" where
  "cv_locked CLock = False" | "cv_locked CTest = True" | "cv_locked CSleep = False" | "cv_locked CWake = False"
| "cv_locked CPrint = True" | "cv_locked CCount = True" | "cv_locked CBcast = True" | "cv_locked CUnlock = True"

text \<open>The output is ahead of the count while its owner is about to count.\<close>

definition cv_ahead :: "cvc \<Rightarrow> int" where
  "cv_ahead c = (case vlk c of None \<Rightarrow> 0 | Some t \<Rightarrow> if vpc c t = CCount then delta t else 0)"

definition cv_can :: "int \<Rightarrow> cvc \<Rightarrow> tid \<Rightarrow> bool" where
  "cv_can n c t \<longleftrightarrow> (if producer t then vcount c \<noteq> n else vcount c \<noteq> 0)"

definition cv_lk_inv :: "cvc \<Rightarrow> bool" where
  "cv_lk_inv c \<longleftrightarrow> (\<forall>t. vlk c = Some t \<longleftrightarrow> cv_locked (vpc c t))"

definition cv_num_inv :: "int \<Rightarrow> cvc \<Rightarrow> bool" where
  "cv_num_inv n c \<longleftrightarrow> 0 \<le> vcount c \<and> vcount c \<le> n \<and> pc_check n (vout c) \<and> depth (vout c) = vcount c + cv_ahead c"

definition cv_can_inv :: "int \<Rightarrow> cvc \<Rightarrow> bool" where
  "cv_can_inv n c \<longleftrightarrow> (\<forall>t. vpc c t = CPrint \<or> vpc c t = CCount \<longrightarrow> cv_can n c t)"

text \<open>No wake-up is lost: a sleeper that could go on will be woken by the owner of the mutex.\<close>

definition cv_wake_inv :: "int \<Rightarrow> cvc \<Rightarrow> bool" where
  "cv_wake_inv n c \<longleftrightarrow> (\<forall>t. vpc c t = CSleep \<and> cv_can n c t \<longrightarrow> (\<exists>u. vlk c = Some u \<and> vpc c u = CBcast))"

definition cv_ids_inv :: "cvc \<Rightarrow> bool" where
  "cv_ids_inv c \<longleftrightarrow> set_option (vlk c) \<subseteq> pc_ids"

definition cv_inv :: "int \<Rightarrow> cvc \<Rightarrow> bool" where
  "cv_inv n c \<longleftrightarrow> cv_lk_inv c \<and> cv_num_inv n c \<and> cv_can_inv n c \<and> cv_wake_inv n c \<and> cv_ids_inv c"

lemmas cv_invs = cv_lk_inv_def cv_num_inv_def cv_can_inv_def cv_wake_inv_def cv_ids_inv_def

lemma cv_inv_init: "0 \<le> n \<Longrightarrow> cv_inv n cv_init"
  by (simp add: cv_inv_def cv_invs cv_init_def cv_ahead_def)

lemmas cv_defs = cv_Tproduce_def cv_Tconsume_def v_goto_def cv_take_def cv_wait_def cv_broadcast_def
  mutex_lock_def mutex_unlock_def

lemma cv_owner:
  assumes "cv_lk_inv c" "cv_locked (vpc c t)"
  shows "vlk c = Some t" "\<And>u. u \<noteq> t \<Longrightarrow> \<not> cv_locked (vpc c u)"
  using assms unfolding cv_lk_inv_def by (metis option.inject)+

lemma cv_lk_step:
  assumes "cv_lk_inv c" "cv_step n (Go t) c = Some c'"
  shows "cv_lk_inv c'"
  using assms cv_owner [OF assms(1), of t]
  by (cases "vpc c t") (auto simp: cv_lk_inv_def cv_defs split: if_splits option.splits)

lemma cv_num_step:
  assumes inv: "cv_lk_inv c" "cv_num_inv n c" "cv_can_inv n c" and step: "cv_step n (Go t) c = Some c'"
  shows "cv_num_inv n c'"
proof -
  have can: "cv_can n c t" if "vpc c t = CPrint \<or> vpc c t = CCount" using inv(3) that by (auto simp: cv_can_inv_def)
  have own: "vlk c = Some t" if "cv_locked (vpc c t)" using cv_owner(1) [OF inv(1) that] .
  show ?thesis
    using inv(2) step can own
    by (cases "vpc c t"; cases "producer t")
      (auto simp: cv_num_inv_def cv_defs cv_ahead_def cv_can_def delta_def paren_def split: if_splits option.splits)
qed

text \<open>Only the owner of the mutex changes the count, and only when it counts.\<close>

lemma cv_frame:
  assumes "cv_step n (Go t) c = Some c'"
  shows "vpc c t \<noteq> CCount \<longrightarrow> vcount c' = vcount c"
    "u \<noteq> t \<Longrightarrow> vpc c' u = vpc c u \<or> vpc c u = CSleep \<and> vpc c' u = CWake"
  using assms by (cases "vpc c t"; auto simp: cv_defs split: if_splits option.splits)+

lemma cv_can_step:
  assumes inv: "cv_lk_inv c" "cv_can_inv n c" and step: "cv_step n (Go t) c = Some c'"
  shows "cv_can_inv n c'"
  unfolding cv_can_inv_def
proof (intro allI impI)
  fix u assume u: "vpc c' u = CPrint \<or> vpc c' u = CCount"
  show "cv_can n c' u"
  proof (cases "u = t")
    case True
    then show ?thesis using u step inv(2)
      by (cases "vpc c t") (auto simp: cv_can_inv_def cv_can_def cv_defs split: if_splits option.splits)
  next
    case False
    then have cu: "vpc c u = CPrint \<or> vpc c u = CCount" using cv_frame(2) [OF step False] u by auto
    then have "\<not> cv_locked (vpc c t)" using cv_owner(2) [OF inv(1), of u t] False by auto
    then have "vcount c' = vcount c" using cv_frame(1) [OF step] by (cases "vpc c t") auto
    then show ?thesis using inv(2) cu by (auto simp: cv_can_inv_def cv_can_def)
  qed
qed

lemma cv_wake_step:
  assumes inv: "cv_lk_inv c" "cv_wake_inv n c" and step: "cv_step n (Go t) c = Some c'"
  shows "cv_wake_inv n c'"
  unfolding cv_wake_inv_def
proof (intro allI impI, elim conjE)
  fix u assume u: "vpc c' u = CSleep" "cv_can n c' u"
  show "\<exists>w. vlk c' = Some w \<and> vpc c' w = CBcast"
  proof (cases "vpc c t = CCount")
    case True
    then have "vlk c' = Some t \<and> vpc c' t = CBcast"
      using step cv_owner(1) [OF inv(1), of t] by (auto simp: cv_defs split: if_splits)
    then show ?thesis by blast
  next
    case False
    have "u \<noteq> t"
    proof
      assume "u = t"
      then have "\<not> cv_can n c' t" using step u(1)
        by (cases "vpc c t") (auto simp: cv_can_def cv_defs split: if_splits option.splits)
      then show False using u(2) \<open>u = t\<close> by simp
    qed
    then have "vpc c u = CSleep \<and> cv_can n c u"
      using u cv_frame(1) [OF step] cv_frame(2) [OF step, of u] False by (auto simp: cv_can_def)
    then obtain w where w: "vlk c = Some w" "vpc c w = CBcast" using inv(2) by (auto simp: cv_wake_inv_def)
    have "w \<noteq> t"
    proof
      assume "w = t"
      then have "vpc c' u \<noteq> CSleep" using step w(2) by (auto simp: cv_defs split: if_splits)
      then show False using u(1) by simp
    qed
    then have "\<not> cv_locked (vpc c t)" using cv_owner(2) [OF inv(1), of w t] w(2) by auto
    then show ?thesis using step w by (cases "vpc c t") (auto simp: cv_defs split: if_splits)
  qed
qed

lemma cv_ids_step: "cv_ids_inv c \<Longrightarrow> t \<in> pc_ids \<Longrightarrow> cv_step n (Go t) c = Some c' \<Longrightarrow> cv_ids_inv c'"
  by (cases "vpc c t") (auto simp: cv_ids_inv_def cv_defs split: if_splits option.splits)

lemma cv_inv_go: "cv_inv n c \<Longrightarrow> t \<in> pc_ids \<Longrightarrow> cv_step n (Go t) c = Some c' \<Longrightarrow> cv_inv n c'"
  unfolding cv_inv_def using cv_lk_step cv_num_step cv_can_step cv_wake_step cv_ids_step by metis

lemma cv_inv_spurious:
  assumes "cv_inv n c" "vpc c t = CSleep"
  shows "cv_inv n (v_goto t CWake c)"
proof -
  have "cv_lk_inv (v_goto t CWake c)" "cv_can_inv n (v_goto t CWake c)" "cv_ids_inv (v_goto t CWake c)"
    using assms by (auto simp: cv_inv_def cv_lk_inv_def cv_can_inv_def cv_ids_inv_def cv_can_def v_goto_def)
  moreover have "cv_ahead (v_goto t CWake c) = cv_ahead c"
    using assms(2) by (auto simp: cv_ahead_def v_goto_def split: option.splits)
  then have "cv_num_inv n (v_goto t CWake c)" using assms(1) by (simp add: cv_inv_def cv_num_inv_def v_goto_def)
  moreover have "cv_wake_inv n (v_goto t CWake c)"
    unfolding cv_wake_inv_def
  proof (intro allI impI, elim conjE)
    fix u assume "vpc (v_goto t CWake c) u = CSleep" "cv_can n (v_goto t CWake c) u"
    then have "vpc c u = CSleep" "cv_can n c u" by (auto simp: v_goto_def cv_can_def split: if_splits)
    then obtain w where "vlk c = Some w" "vpc c w = CBcast" using assms(1) by (auto simp: cv_inv_def cv_wake_inv_def)
    then show "\<exists>w. vlk (v_goto t CWake c) = Some w \<and> vpc (v_goto t CWake c) w = CBcast"
      using assms(2) by (intro exI [of _ w]) (auto simp: v_goto_def)
  qed
  ultimately show ?thesis by (simp add: cv_inv_def)
qed

interpretation cv: threads_invariant cv_init "cv_step n" pc_acts "\<lambda>c. 0 \<le> n \<longrightarrow> cv_inv n c" for n
proof unfold_locales
  show "0 \<le> n \<longrightarrow> cv_inv n cv_init" using cv_inv_init by blast
  fix c a c' assume "0 \<le> n \<longrightarrow> cv_inv n c" "a \<in> pc_acts" "cv_step n a c = Some c'"
  then show "0 \<le> n \<longrightarrow> cv_inv n c'"
    by (cases a) (auto simp: pc_acts_def simp del: cv_step.simps(1) intro: cv_inv_go cv_inv_spurious split: if_splits)
qed

text \<open>
  C11: pc-cv.c. For every \<open>n \<ge> 0\<close> and every interleaving of the sixteen threads, spurious
  wake-ups included, the count stays between 0 and \<open>n\<close> and the output passes the check of
  \<^verbatim>\<open>pc-check.py\<close>.
\<close>

theorem cv_output:
  assumes "reachable cv_init (cv_step n) pc_acts c" "0 \<le> n"
  shows "pc_check n (vout c) \<and> 0 \<le> vcount c \<and> vcount c \<le> n"
  using cv.inv_reach [OF assms(1)] assms(2) by (simp add: cv_inv_def cv_num_inv_def)

text \<open>
  C12: with one condition variable for both sides and a broadcast after every change, no
  wake-up is lost: for \<open>n \<ge> 1\<close>, in every reachable state of pc-cv.c some thread can go on
  without any spurious wake-up.
\<close>

theorem cv_no_deadlock:
  assumes "reachable cv_init (cv_step n) pc_acts c" "1 \<le> n"
  shows "\<exists>t \<in> pc_ids. cv_step n (Go t) c \<noteq> None"
proof (rule ccontr)
  assume "\<not> ?thesis"
  then have stuck: "cv_step n (Go t) c = None" if "t \<in> pc_ids" for t using that by auto
  have inv: "cv_inv n c" using cv.inv_reach [OF assms(1)] assms(2) by simp
  have nl: "\<not> cv_locked (vpc c t)" if "t \<in> pc_ids" for t
    using stuck [OF that] by (cases "vpc c t") (auto simp: cv_defs split: if_splits)
  then have l: "vlk c = None" using inv by (cases "vlk c") (auto simp: cv_inv_def cv_lk_inv_def cv_ids_inv_def)
  then have sl: "vpc c t = CSleep" if "t \<in> pc_ids" for t
    using stuck [OF that] nl [OF that] by (cases "vpc c t") (auto simp: cv_defs split: if_splits)
  have "vpc c 1 = CSleep" "vpc c 2 = CSleep" using sl by (simp_all add: pc_ids_def)
  moreover have "cv_can n c 1 \<or> cv_can n c 2" using assms(2) by (auto simp: cv_can_def producer_def)
  ultimately show False using inv l by (auto simp: cv_inv_def cv_wake_inv_def)
qed

definition cv_run :: "act list" where
  "cv_run = [Go 2, Go 2] @ replicate 6 (Go 1) @ [Go 3, Go 3, Go 2, Go 2, Go 2, Spurious 3]"

lemma cv_run_reach: obtains c where "reachable cv_init (cv_step 1) pc_acts c" "vout c = ''()''"
proof -
  have "case schedule (cv_step 1) cv_run cv_init of None \<Rightarrow> False | Some c \<Rightarrow> vout c = ''()''" by code_simp
  then obtain c where c: "schedule (cv_step 1) cv_run cv_init = Some c" "vout c = ''()''"
    by (auto split: option.splits)
  moreover have "reachable cv_init (cv_step 1) pc_acts c"
    using c(1) by (rule schedule_reachable) (auto simp: cv_run_def pc_acts_def pc_ids_def)
  ultimately show thesis using that by blast
qed

theorem cv_output_witness:
  "\<exists>c. reachable cv_init (cv_step 1) pc_acts c \<and> vout c = ''()'' \<and> pc_check 1 (vout c)"
proof -
  obtain c where c: "reachable cv_init (cv_step 1) pc_acts c" "vout c = ''()''" by (rule cv_run_reach)
  then show ?thesis using cv_output [OF c(1)] by auto
qed

theorem cv_no_deadlock_witness:
  "\<exists>c. reachable cv_init (cv_step 1) pc_acts c \<and> vout c = ''()'' \<and> (\<exists>t \<in> pc_ids. cv_step 1 (Go t) c \<noteq> None)"
proof -
  obtain c where c: "reachable cv_init (cv_step 1) pc_acts c" "vout c = ''()''" by (rule cv_run_reach)
  moreover have "\<exists>t \<in> pc_ids. cv_step 1 (Go t) c \<noteq> None" using cv_no_deadlock [OF c(1)] by simp
  ultimately show ?thesis by blast
qed

subsection \<open>pc-sem.c\<close>

datatype sem_pc = MP | MPrint | MV

record semc =
  fill :: nat
  empty :: nat
  mout :: string
  mpc :: "tid \<Rightarrow> sem_pc"

definition sem_init :: "nat \<Rightarrow> semc" where
  "sem_init n = \<lparr>fill = 0, empty = n, mout = [], mpc = (\<lambda>_. MP)\<rparr>"

definition m_goto :: "tid \<Rightarrow> sem_pc \<Rightarrow> semc \<Rightarrow> semc" where
  "m_goto t p c = c\<lparr>mpc := (mpc c)(t := p)\<rparr>"

definition sem_producer :: "tid \<Rightarrow> semc \<Rightarrow> semc option" where
  "sem_producer t c =
     (case mpc c t of
        MP \<Rightarrow> map_option (\<lambda>e. m_goto t MPrint (c\<lparr>empty := e\<rparr>)) (sem_P (empty c))
      | MPrint \<Rightarrow> Some (m_goto t MV (c\<lparr>mout := mout c @ ''(''\<rparr>))
      | MV \<Rightarrow> Some (m_goto t MP (c\<lparr>fill := sem_V (fill c)\<rparr>)))"

definition sem_consumer :: "tid \<Rightarrow> semc \<Rightarrow> semc option" where
  "sem_consumer t c =
     (case mpc c t of
        MP \<Rightarrow> map_option (\<lambda>f. m_goto t MPrint (c\<lparr>fill := f\<rparr>)) (sem_P (fill c))
      | MPrint \<Rightarrow> Some (m_goto t MV (c\<lparr>mout := mout c @ '')''\<rparr>))
      | MV \<Rightarrow> Some (m_goto t MP (c\<lparr>empty := sem_V (empty c)\<rparr>)))"

definition sem_step :: "tid \<Rightarrow> semc \<Rightarrow> semc option" where
  "sem_step t c = (if producer t then sem_producer t c else sem_consumer t c)"

text \<open>The units of the semaphores that thread \<open>t\<close> holds, and those of them that count as printed.\<close>

definition units :: "semc \<Rightarrow> tid \<Rightarrow> int" where
  "units c t = (if mpc c t = MP then 0 else 1)"

definition shown :: "semc \<Rightarrow> tid \<Rightarrow> int" where
  "shown c t = (if mpc c t = (if producer t then MV else MPrint) then 1 else 0)"

definition sem_inv :: "nat \<Rightarrow> semc \<Rightarrow> bool" where
  "sem_inv n c \<longleftrightarrow>
     int (fill c) + int (empty c) + (\<Sum>t\<in>pc_ids. units c t) = int n \<and>
     depth (mout c) = int (fill c) + (\<Sum>t\<in>pc_ids. shown c t) \<and> pc_check (int n) (mout c)"

lemma sem_inv_init: "sem_inv n (sem_init n)"
  by (auto simp: sem_inv_def sem_init_def units_def shown_def intro!: sum.neutral)

lemmas sem_defs = sem_step_def sem_producer_def sem_consumer_def m_goto_def sem_V_def

lemma sem_change:
  assumes "sem_step t c = Some c'" "t \<in> pc_ids"
  shows "(\<Sum>u\<in>pc_ids. units c' u) = (\<Sum>u\<in>pc_ids. units c u) - units c t + units c' t"
    "(\<Sum>u\<in>pc_ids. shown c' u) = (\<Sum>u\<in>pc_ids. shown c u) - shown c t + shown c' t"
proof -
  have "mpc c' u = mpc c u" if "u \<noteq> t" for u
    using assms(1) that by (auto simp: sem_defs split: if_splits sem_pc.splits)
  then have "units c' u = units c u" "shown c' u = shown c u" if "u \<noteq> t" for u
    using that by (simp_all add: units_def shown_def)
  moreover have "finite pc_ids" by (simp add: pc_ids_def)
  ultimately show "(\<Sum>u\<in>pc_ids. units c' u) = (\<Sum>u\<in>pc_ids. units c u) - units c t + units c' t"
    "(\<Sum>u\<in>pc_ids. shown c' u) = (\<Sum>u\<in>pc_ids. shown c u) - shown c t + shown c' t"
    using assms(2) by (auto intro: sum_change_one)
qed

text \<open>What is shown of the threads' units is no more than their units.\<close>

lemma shown_bounds:
  assumes "t \<in> pc_ids"
  shows "shown c t \<le> (\<Sum>u\<in>pc_ids. shown c u)"
    "(\<Sum>u\<in>pc_ids. shown c u) \<le> (\<Sum>u\<in>pc_ids. units c u) - (units c t - shown c t)"
proof -
  have fin: "finite pc_ids" by (simp add: pc_ids_def)
  show "shown c t \<le> (\<Sum>u\<in>pc_ids. shown c u)"
    using assms fin by (intro member_le_sum) (auto simp: shown_def)
  have "(\<Sum>u\<in>pc_ids - {t}. shown c u) \<le> (\<Sum>u\<in>pc_ids - {t}. units c u)"
    by (intro sum_mono) (auto simp: shown_def units_def)
  then show "(\<Sum>u\<in>pc_ids. shown c u) \<le> (\<Sum>u\<in>pc_ids. units c u) - (units c t - shown c t)"
    using assms fin by (simp add: sum.remove)
qed

lemma sem_inv_step:
  assumes inv: "sem_inv n c" and t: "t \<in> pc_ids" and step: "sem_step t c = Some c'"
  shows "sem_inv n c'"
proof -
  note ch = sem_change [OF step t] and sb = shown_bounds [OF t, of c]
  show ?thesis
  proof (cases "mpc c t")
    case MP
    then show ?thesis using inv step ch
      by (cases "producer t") (auto simp: sem_inv_def sem_defs units_def [of _ t] shown_def [of _ t] split: if_splits)
  next
    case MPrint
    have "0 \<le> depth (mout c) + delta t \<and> depth (mout c) + delta t \<le> int n"
      using inv sb MPrint pc_check_depth [of "int n" "mout c"]
      by (auto simp: sem_inv_def units_def [of _ t] shown_def [of _ t] delta_def split: if_splits)
    then show ?thesis using inv step ch MPrint
      by (cases "producer t")
        (auto simp: sem_inv_def sem_defs units_def [of _ t] shown_def [of _ t] delta_def paren_def split: if_splits)
  next
    case MV
    then show ?thesis using inv step ch
      by (cases "producer t") (auto simp: sem_inv_def sem_defs units_def [of _ t] shown_def [of _ t] split: if_splits)
  qed
qed

interpretation sem: threads_invariant "sem_init n" sem_step pc_ids "sem_inv n" for n
  by unfold_locales (auto intro: sem_inv_init sem_inv_step)

text \<open>
  C37: pc-sem.c. Although the threads print without a mutex, for every \<open>n\<close> and every
  interleaving the output passes the check of \<^verbatim>\<open>pc-check.py\<close>, and the two
  semaphores never exceed \<open>n\<close> together.
\<close>

theorem sem_output:
  assumes "reachable (sem_init n) sem_step pc_ids c"
  shows "pc_check (int n) (mout c) \<and> fill c + empty c \<le> n"
proof -
  have inv: "sem_inv n c" using assms by (rule sem.inv_reach)
  moreover have "0 \<le> (\<Sum>t\<in>pc_ids. units c t)" by (intro sum_nonneg) (simp add: units_def)
  ultimately show ?thesis by (simp add: sem_inv_def)
qed

theorem sem_output_witness:
  "\<exists>c. reachable (sem_init 2) sem_step pc_ids c \<and> mout c = ''(()'' \<and> pc_check 2 (mout c) \<and> fill c + empty c \<le> 2"
proof -
  let ?S = "schedule sem_step [1,3,3,3,2,1,2] (sem_init 2)"
  have "case ?S of None \<Rightarrow> False | Some c \<Rightarrow> mout c = ''(()''" by code_simp
  then obtain c where c: "?S = Some c" and o: "mout c = ''(()''" by (auto split: option.splits)
  have r: "reachable (sem_init 2) sem_step pc_ids c"
    using c by (rule schedule_reachable) (simp add: pc_ids_def)
  show ?thesis using r o sem_output [OF r] by auto
qed

end
