(* ===== verification/Store_Buffer.thy ===== *)
theory Store_Buffer
  imports Threads
begin

text \<open>
  The memory of an x86 machine: every processor has a store buffer from which its stores reach
  the memory later and in order; a load sees the processor's own buffer first. A move of such a
  machine is an instruction of a processor or the draining of a buffer. Beside it, the
  sequentially consistent store, for the same programs.
\<close>

record ('i, 'l) tso =
  mem :: "'l \<Rightarrow> int"
  buf :: "'i \<Rightarrow> ('l \<times> int) list"

definition tso_write :: "'i \<Rightarrow> 'l \<Rightarrow> int \<Rightarrow> ('i, 'l) tso \<Rightarrow> ('i, 'l) tso" where
  "tso_write t l v m = m\<lparr>buf := (buf m)(t := buf m t @ [(l, v)])\<rparr>"

definition tso_read :: "'i \<Rightarrow> 'l \<Rightarrow> ('i, 'l) tso \<Rightarrow> int" where
  "tso_read t l m = (case map_of (rev (buf m t)) l of Some v \<Rightarrow> v | None \<Rightarrow> mem m l)"

text \<open>The oldest store of a processor reaches the memory.\<close>

definition tso_drain :: "'i \<Rightarrow> ('i, 'l) tso \<Rightarrow> ('i, 'l) tso option" where
  "tso_drain t m =
     (case buf m t of
        [] \<Rightarrow> None
      | (l, v) # b \<Rightarrow> Some (m\<lparr>mem := (mem m)(l := v), buf := (buf m)(t := b)\<rparr>))"

text \<open>The sequentially consistent memory: a store is done at once.\<close>

definition sc_write :: "'i \<Rightarrow> 'l \<Rightarrow> int \<Rightarrow> ('i, 'l) tso \<Rightarrow> ('i, 'l) tso" where
  "sc_write t l v m = m\<lparr>mem := (mem m)(l := v)\<rparr>"

lemma tso_read_empty [simp]: "buf m t = [] \<Longrightarrow> tso_read t l m = mem m l"
  by (simp add: tso_read_def)

datatype 'i tso_act = Exec 'i | Drain 'i

text \<open>The programs of this memory have two threads that mirror each other.\<close>

datatype side = A | B

fun other :: "side \<Rightarrow> side" where
  "other A = B" | "other B = A"

lemma other_other [simp]: "other (other t) = t" "other t \<noteq> t" "t \<noteq> other t"
  by (cases t; simp)+

lemma all_sides: "P t \<Longrightarrow> P (other t) \<Longrightarrow> \<forall>u. P u"
  by (metis other.simps side.exhaust)

end
