(* ===== verification/Peterson.thy ===== *)
theory Peterson
  imports Store_Buffer
begin

text \<open>
  Peterson's mutual exclusion, \<^verbatim>\<open>concurrency/peterson-simple.c\<close> and
  \<^verbatim>\<open>peterson-barrier.c\<close>, on the store buffers of an x86 machine; a barrier waits for the
  buffer of its processor to be empty. Shown: with the
  barriers the two threads exclude each other on this machine, and the assertion in the
  critical section never fails; without them the algorithm is right on a sequentially
  consistent memory but fails on the x86 machine, by a concrete run.
\<close>

subsection \<open>The two programs\<close>

text \<open>Thread \<open>A\<close> runs \<^verbatim>\<open>TA\<close>, thread \<open>B\<close> runs \<^verbatim>\<open>TB\<close>; its own flag is
  \<^verbatim>\<open>x\<close> and \<^verbatim>\<open>y\<close> respectively.\<close>

fun turn_of :: "side \<Rightarrow> int" where
  "turn_of A = 1" | "turn_of B = 2"

datatype loc = Flag side | Turn

datatype pet_pc = SetFlag | Bar1 | SetTurn | Bar2 | TestFlag | Bar3 | TestTurn | Bar4
  | CsCount | CsEnter | CsLeave | ClearFlag | Bar5 | PFail

record petc =
  pmem :: "(side, loc) tso"
  nested :: int
  cscount :: int
  ppc :: "side \<Rightarrow> pet_pc"

definition pet_init :: "int \<Rightarrow> petc" where
  "pet_init turn0 =
     \<lparr>pmem = \<lparr>mem = (\<lambda>l. if l = Turn then turn0 else 0), buf = (\<lambda>_. [])\<rparr>, nested = 0, cscount = 0, ppc = (\<lambda>_. SetFlag)\<rparr>"

definition pgoto :: "side \<Rightarrow> pet_pc \<Rightarrow> petc \<Rightarrow> petc" where
  "pgoto t p c = c\<lparr>ppc := (ppc c)(t := p)\<rparr>"

text \<open>A barrier, and every atomic read-modify-write, waits for the processor's buffer.\<close>

definition fenced :: "side \<Rightarrow> petc \<Rightarrow> petc \<Rightarrow> petc option" where
  "fenced t c c' = (if buf (pmem c) t = [] then Some c' else None)"

text \<open>The same in both programs (the two copies differ in nothing that matters here).\<close>

definition critical_section :: "side \<Rightarrow> petc \<Rightarrow> petc option" where
  "critical_section t c =
     (case ppc c t of
        CsCount \<Rightarrow> fenced t c (pgoto t CsEnter (c\<lparr>cscount := cscount c + 1\<rparr>))
      | CsEnter \<Rightarrow> fenced t c (pgoto t (if nested c + 1 \<noteq> 1 then PFail else CsLeave) (c\<lparr>nested := nested c + 1\<rparr>))
      | CsLeave \<Rightarrow> fenced t c (pgoto t ClearFlag (c\<lparr>nested := nested c - 1\<rparr>))
      | _ \<Rightarrow> None)"

text \<open>\<^verbatim>\<open>peterson-barrier.c\<close>: \<open>T_barrier A\<close> is \<^verbatim>\<open>TA\<close>, \<open>T_barrier B\<close> is \<^verbatim>\<open>TB\<close>.\<close>

definition T_barrier :: "side \<Rightarrow> petc \<Rightarrow> petc option" where
  "T_barrier t c =
     (case ppc c t of
        SetFlag \<Rightarrow> Some (pgoto t Bar1 (c\<lparr>pmem := tso_write t (Flag t) 1 (pmem c)\<rparr>))
      | Bar1 \<Rightarrow> fenced t c (pgoto t SetTurn c)
      | SetTurn \<Rightarrow> Some (pgoto t Bar2 (c\<lparr>pmem := tso_write t Turn (turn_of (other t)) (pmem c)\<rparr>))
      | Bar2 \<Rightarrow> fenced t c (pgoto t TestFlag c)
      | TestFlag \<Rightarrow> Some (pgoto t (if tso_read t (Flag (other t)) (pmem c) = 0 then CsCount else Bar3) c)
      | Bar3 \<Rightarrow> fenced t c (pgoto t TestTurn c)
      | TestTurn \<Rightarrow> Some (pgoto t (if tso_read t Turn (pmem c) \<noteq> turn_of (other t) then CsCount else Bar4) c)
      | Bar4 \<Rightarrow> fenced t c (pgoto t TestFlag c)
      | ClearFlag \<Rightarrow> Some (pgoto t Bar5 (c\<lparr>pmem := tso_write t (Flag t) 0 (pmem c)\<rparr>))
      | Bar5 \<Rightarrow> fenced t c (pgoto t SetFlag c)
      | _ \<Rightarrow> critical_section t c)"

primrec barrier_step :: "side tso_act \<Rightarrow> petc \<Rightarrow> petc option" where
  "barrier_step (Exec t) c = T_barrier t c"
| "barrier_step (Drain t) c = map_option (\<lambda>m. c\<lparr>pmem := m\<rparr>) (tso_drain t (pmem c))"

text \<open>\<^verbatim>\<open>peterson-simple.c\<close>; \<open>wr\<close> is how the machine stores. The test of the loop is two loads.\<close>

definition T_simple :: "(side \<Rightarrow> loc \<Rightarrow> int \<Rightarrow> (side, loc) tso \<Rightarrow> (side, loc) tso) \<Rightarrow> side \<Rightarrow> petc \<Rightarrow> petc option" where
  "T_simple wr t c =
     (case ppc c t of
        SetFlag \<Rightarrow> Some (pgoto t SetTurn (c\<lparr>pmem := wr t (Flag t) 1 (pmem c)\<rparr>))
      | SetTurn \<Rightarrow> Some (pgoto t TestFlag (c\<lparr>pmem := wr t Turn (turn_of (other t)) (pmem c)\<rparr>))
      | TestFlag \<Rightarrow> Some (pgoto t (if tso_read t (Flag (other t)) (pmem c) = 0 then CsCount else TestTurn) c)
      | TestTurn \<Rightarrow> Some (pgoto t (if tso_read t Turn (pmem c) \<noteq> turn_of (other t) then CsCount else TestFlag) c)
      | ClearFlag \<Rightarrow> Some (pgoto t SetFlag (c\<lparr>pmem := wr t (Flag t) 0 (pmem c)\<rparr>))
      | _ \<Rightarrow> critical_section t c)"

primrec simple_tso_step :: "side tso_act \<Rightarrow> petc \<Rightarrow> petc option" where
  "simple_tso_step (Exec t) c = T_simple tso_write t c"
| "simple_tso_step (Drain t) c = map_option (\<lambda>m. c\<lparr>pmem := m\<rparr>) (tso_drain t (pmem c))"

subsection \<open>With barriers\<close>

lemma other_simps [simp]: "turn_of (other t) \<noteq> turn_of t" "turn_of t \<noteq> turn_of (other t)"
  by (cases t; simp)+

primrec in_crit :: "pet_pc \<Rightarrow> bool" where
  "in_crit SetFlag = False" | "in_crit Bar1 = False" | "in_crit SetTurn = False" | "in_crit Bar2 = False"
| "in_crit TestFlag = False" | "in_crit Bar3 = False" | "in_crit TestTurn = False" | "in_crit Bar4 = False"
| "in_crit CsCount = True" | "in_crit CsEnter = True" | "in_crit CsLeave = True" | "in_crit ClearFlag = True"
| "in_crit Bar5 = False" | "in_crit PFail = False"

primrec waits :: "pet_pc \<Rightarrow> bool" where
  "waits SetFlag = False" | "waits Bar1 = False" | "waits SetTurn = False" | "waits Bar2 = True"
| "waits TestFlag = True" | "waits Bar3 = True" | "waits TestTurn = True" | "waits Bar4 = True"
| "waits CsCount = False" | "waits CsEnter = False" | "waits CsLeave = False" | "waits ClearFlag = False"
| "waits Bar5 = False" | "waits PFail = False"

text \<open>What the store buffer and the flag of a thread hold, by where it is.\<close>

definition buf_inv :: "petc \<Rightarrow> side \<Rightarrow> bool" where
  "buf_inv c t \<longleftrightarrow>
     (buf (pmem c) t =
        (if ppc c t = Bar1 then [(Flag t, 1)] else if ppc c t = Bar2 then [(Turn, turn_of (other t))]
         else if ppc c t = Bar5 then [(Flag t, 0)] else []) \<or> buf (pmem c) t = []) \<and>
     (if ppc c t \<in> {SetFlag, Bar1, Bar5} then mem (pmem c) (Flag t) = (if (ppc c t = Bar1) = (buf (pmem c) t = []) \<and> ppc c t \<noteq> SetFlag then 1 else 0)
      else mem (pmem c) (Flag t) = 1)"

definition turn_inv :: "petc \<Rightarrow> side \<Rightarrow> bool" where
  "turn_inv c t \<longleftrightarrow>
     (waits (ppc c t) \<and> buf (pmem c) t = [] \<longrightarrow> mem (pmem c) Turn \<in> {turn_of t, turn_of (other t)} \<and>
        (in_crit (ppc c (other t)) \<longrightarrow> mem (pmem c) Turn = turn_of (other t))) \<and>
     (in_crit (ppc c t) \<longrightarrow> \<not> in_crit (ppc c (other t))) \<and> ppc c t \<noteq> PFail"

definition nested_inv :: "petc \<Rightarrow> bool" where
  "nested_inv c \<longleftrightarrow> nested c = (if ppc c A = CsLeave \<or> ppc c B = CsLeave then 1 else 0)"

definition pet_inv :: "petc \<Rightarrow> bool" where
  "pet_inv c \<longleftrightarrow> (\<forall>t. buf_inv c t) \<and> (\<forall>t. turn_inv c t) \<and> nested_inv c"

lemma pet_inv_init: "pet_inv (pet_init turn0)"
  by (simp add: pet_inv_def buf_inv_def turn_inv_def nested_inv_def pet_init_def)

lemmas pet_defs = T_barrier_def critical_section_def fenced_def pgoto_def tso_write_def

lemma buf_inv_cong:
  "ppc c' t = ppc c t \<Longrightarrow> buf (pmem c') t = buf (pmem c) t \<Longrightarrow> mem (pmem c') (Flag t) = mem (pmem c) (Flag t) \<Longrightarrow>
   buf_inv c' t \<longleftrightarrow> buf_inv c t"
  by (simp only: buf_inv_def)

lemma buf_inv_exec: "buf_inv c t \<Longrightarrow> T_barrier t c = Some c' \<Longrightarrow> buf_inv c' t"
  by (cases "ppc c t") (auto simp: buf_inv_def pet_defs split: if_splits)

lemma exec_other:
  assumes "T_barrier t c = Some c'"
  shows "mem (pmem c') = mem (pmem c)" "buf (pmem c') (other t) = buf (pmem c) (other t)"
    "ppc c' (other t) = ppc c (other t)"
  using assms by (cases "ppc c t"; auto simp: pet_defs split: if_splits)+

text \<open>A thread enters only when the other is out, and if the other waits, its turn has come.\<close>

lemma exec_enter:
  assumes inv: "pet_inv c" and step: "T_barrier t c = Some c'" "\<not> in_crit (ppc c t)" "in_crit (ppc c' t)"
  shows "\<not> in_crit (ppc c (other t)) \<and>
    (waits (ppc c (other t)) \<and> buf (pmem c) (other t) = [] \<longrightarrow> mem (pmem c) Turn = turn_of t)"
proof -
  have b: "buf_inv c t" "buf_inv c (other t)" and u: "turn_inv c t"
    using inv by (auto simp: pet_inv_def)
  consider (flag) "ppc c t = TestFlag" "tso_read t (Flag (other t)) (pmem c) = 0"
    | (turn) "ppc c t = TestTurn" "tso_read t Turn (pmem c) \<noteq> turn_of (other t)"
    using step by (cases "ppc c t") (auto simp: pet_defs split: if_splits)
  then show ?thesis
  proof cases
    case flag
    then have "mem (pmem c) (Flag (other t)) = 0" using b(1) by (simp add: buf_inv_def)
    then have "ppc c (other t) \<in> {SetFlag, Bar1, Bar5}" using b(2) by (auto simp: buf_inv_def split: if_splits)
    then show ?thesis by auto
  next
    case turn
    then have "buf (pmem c) t = []" using b(1) by (simp add: buf_inv_def)
    then show ?thesis using turn u by (auto simp: turn_inv_def)
  qed
qed

lemma turn_inv_exec:
  assumes inv: "pet_inv c" and step: "T_barrier t c = Some c'"
  shows "turn_inv c' t"
proof -
  note o = exec_other [OF step]
  have b: "buf_inv c t" and u: "turn_inv c t" and n: "nested_inv c" "turn_inv c (other t)"
    using inv by (auto simp: pet_inv_def)
  have crit: "in_crit (ppc c' t) \<longrightarrow> \<not> in_crit (ppc c' (other t))"
  proof (cases "in_crit (ppc c t)")
    case True
    then show ?thesis using u o by (simp add: turn_inv_def)
  next
    case False
    then show ?thesis using exec_enter [OF inv step] o by simp
  qed
  have "nested c = 0" if "ppc c t = CsEnter"
    using n u that by (cases t) (auto simp: nested_inv_def turn_inv_def split: if_splits)
  then have "ppc c' t \<noteq> PFail" using step u by (cases "ppc c t") (auto simp: pet_defs turn_inv_def split: if_splits)
  moreover have "waits (ppc c' t) \<and> buf (pmem c') t = [] \<longrightarrow> waits (ppc c t) \<and> buf (pmem c) t = []"
    using step by (cases "ppc c t") (auto simp: pet_defs split: if_splits)
  ultimately show ?thesis using crit o u by (auto simp: turn_inv_def)
qed

lemma turn_inv_exec_other:
  assumes inv: "pet_inv c" and step: "T_barrier t c = Some c'"
  shows "turn_inv c' (other t)"
proof -
  note o = exec_other [OF step]
  have u: "turn_inv c (other t)" using inv by (auto simp: pet_inv_def)
  show ?thesis
  proof (cases "in_crit (ppc c t) \<or> \<not> in_crit (ppc c' t)")
    case True
    then show ?thesis using u o by (auto simp: turn_inv_def)
  next
    case False
    then show ?thesis using exec_enter [OF inv step] u o by (auto simp: turn_inv_def)
  qed
qed

lemma nested_inv_exec:
  assumes inv: "pet_inv c" and step: "T_barrier t c = Some c'"
  shows "nested_inv c'"
proof -
  note o = exec_other [OF step]
  have "ppc c (other t) \<noteq> CsLeave" if "ppc c t = CsEnter \<or> ppc c t = CsLeave"
    using inv that unfolding pet_inv_def turn_inv_def by (metis in_crit.simps(10,11))
  then show ?thesis using inv step o
    by (cases t; cases "ppc c t") (auto simp: pet_inv_def nested_inv_def pet_defs split: if_splits)
qed

lemma pet_inv_exec: "pet_inv c \<Longrightarrow> T_barrier t c = Some c' \<Longrightarrow> pet_inv c'"
proof -
  assume inv: "pet_inv c" and step: "T_barrier t c = Some c'"
  note o = exec_other [OF step]
  have "buf_inv c' t" using inv step buf_inv_exec by (auto simp: pet_inv_def)
  moreover have "buf_inv c (other t)" using inv by (simp add: pet_inv_def)
  then have "buf_inv c' (other t)" using buf_inv_cong [of c' "other t" c] o by simp
  ultimately show ?thesis unfolding pet_inv_def
    by (intro conjI all_sides [where t = t] turn_inv_exec [OF inv step] turn_inv_exec_other [OF inv step]
        nested_inv_exec [OF inv step])
qed

lemma pet_inv_drain:
  assumes inv: "pet_inv c" and step: "tso_drain t (pmem c) = Some m"
  shows "pet_inv (c\<lparr>pmem := m\<rparr>)"
proof -
  have b: "buf_inv c t" "buf_inv c (other t)" and u: "turn_inv c t" "turn_inv c (other t)" "nested_inv c"
    using inv by (auto simp: pet_inv_def)
  obtain l v where lv: "buf (pmem c) t = [(l, v)]" "(ppc c t, l, v) \<in> {(Bar1, Flag t, 1), (Bar2, Turn, turn_of (other t)), (Bar5, Flag t, 0)}"
    using b(1) step by (auto simp: buf_inv_def tso_drain_def split: if_splits list.splits)
  then have m: "m = (pmem c)\<lparr>mem := (mem (pmem c))(l := v), buf := (buf (pmem c))(t := [])\<rparr>"
    using step by (simp add: tso_drain_def)
  have "buf_inv (c\<lparr>pmem := m\<rparr>) t" using b(1) lv by (auto simp: buf_inv_def m)
  moreover have "buf_inv (c\<lparr>pmem := m\<rparr>) (other t)"
    using b(2) lv by (subst buf_inv_cong [where c = c]) (auto simp: m)
  moreover have "turn_inv (c\<lparr>pmem := m\<rparr>) t" using u(1) lv by (auto simp: turn_inv_def m)
  moreover have "turn_inv (c\<lparr>pmem := m\<rparr>) (other t)" using u(2) lv by (auto simp: turn_inv_def m)
  moreover have "nested_inv (c\<lparr>pmem := m\<rparr>)" using u by (simp add: nested_inv_def)
  ultimately show ?thesis unfolding pet_inv_def by (intro conjI all_sides [where t = t])
qed

interpretation pet: threads_invariant "pet_init turn0" barrier_step UNIV pet_inv for turn0
proof unfold_locales
  show "pet_inv (pet_init turn0)" by (rule pet_inv_init)
  fix c a c' assume "pet_inv c" "barrier_step a c = Some c'"
  then show "pet_inv c'" by (cases a) (auto intro: pet_inv_exec pet_inv_drain)
qed

text \<open>
  C9: peterson-barrier.c is right on x86. On the store-buffer machine, for every interleaving
  of the two threads' instructions and of the moments at which their stores reach the memory,
  the threads are never both in the critical section and its assertion never fails.
\<close>

theorem peterson_barrier_exclusion:
  assumes "reachable (pet_init 0) barrier_step UNIV c"
  shows "\<not> (in_crit (ppc c A) \<and> in_crit (ppc c B)) \<and> ppc c t \<noteq> PFail"
proof -
  have "turn_inv c A" "turn_inv c t" using pet.inv_reach [OF assms] by (auto simp: pet_inv_def)
  then show ?thesis by (auto simp: turn_inv_def)
qed

theorem peterson_barrier_exclusion_witness:
  "\<exists>c. reachable (pet_init 0) barrier_step UNIV c \<and> ppc c A = CsEnter \<and> ppc c B = TestTurn \<and> \<not> in_crit (ppc c B)"
proof -
  let ?S = "schedule barrier_step [Exec A, Exec B, Drain B, Drain A, Exec A, Exec A, Drain A, Exec A, Exec B, Exec B,
     Drain B, Exec B, Exec B, Exec B, Exec A, Exec A, Exec A, Exec A] (pet_init 0)"
  have "case ?S of None \<Rightarrow> False | Some c \<Rightarrow> ppc c A = CsEnter \<and> ppc c B = TestTurn" by code_simp
  then obtain c where c: "?S = Some c" and p: "ppc c A = CsEnter" "ppc c B = TestTurn" by (auto split: option.splits)
  have r: "reachable (pet_init 0) barrier_step UNIV c" using c by (rule schedule_reachable) simp
  show ?thesis using r p peterson_barrier_exclusion [OF r, of A] by auto
qed

subsection \<open>Without barriers\<close>

definition flag_inv :: "petc \<Rightarrow> side \<Rightarrow> bool" where
  "flag_inv c t \<longleftrightarrow> buf (pmem c) t = [] \<and> mem (pmem c) (Flag t) = (if ppc c t = SetFlag then 0 else 1) \<and>
     ppc c t \<notin> {Bar1, Bar2, Bar3, Bar4, Bar5}"

definition simple_inv :: "petc \<Rightarrow> bool" where
  "simple_inv c \<longleftrightarrow> (\<forall>t. flag_inv c t) \<and> (\<forall>t. turn_inv c t) \<and> nested_inv c"

lemma simple_inv_init: "simple_inv (pet_init turn0)"
  by (simp add: simple_inv_def flag_inv_def turn_inv_def nested_inv_def pet_init_def)

lemmas simple_defs = T_simple_def critical_section_def fenced_def pgoto_def sc_write_def

lemma simple_frame:
  assumes "T_simple sc_write t c = Some c'"
  shows "ppc c' (other t) = ppc c (other t)" "buf (pmem c') = buf (pmem c)"
    "mem (pmem c') (Flag (other t)) = mem (pmem c) (Flag (other t))"
    "mem (pmem c') Turn = (if ppc c t = SetTurn then turn_of (other t) else mem (pmem c) Turn)"
  using assms by (cases "ppc c t"; auto simp: simple_defs split: if_splits)+

lemma simple_enter:
  assumes inv: "simple_inv c" and step: "T_simple sc_write t c = Some c'" "\<not> in_crit (ppc c t)" "in_crit (ppc c' t)"
  shows "\<not> in_crit (ppc c (other t)) \<and> (waits (ppc c (other t)) \<longrightarrow> mem (pmem c) Turn = turn_of t) \<and> ppc c t \<noteq> SetTurn"
proof -
  have f: "flag_inv c t" "flag_inv c (other t)" and u: "turn_inv c t" using inv by (auto simp: simple_inv_def)
  then have b: "buf (pmem c) t = []" by (simp add: flag_inv_def)
  consider (flag) "ppc c t = TestFlag" "mem (pmem c) (Flag (other t)) = 0"
    | (turn) "ppc c t = TestTurn" "mem (pmem c) Turn \<noteq> turn_of (other t)"
    using step b by (cases "ppc c t") (auto simp: simple_defs split: if_splits)
  then show ?thesis
  proof cases
    case flag
    then have "ppc c (other t) = SetFlag" using f(2) by (auto simp: flag_inv_def split: if_splits)
    then show ?thesis using flag by simp
  next
    case turn
    then show ?thesis using u b by (auto simp: turn_inv_def)
  qed
qed

lemma simple_turn_step:
  assumes inv: "simple_inv c" and step: "T_simple sc_write t c = Some c'"
  shows "turn_inv c' t \<and> turn_inv c' (other t)"
proof -
  note fr = simple_frame [OF step]
  have u: "turn_inv c t" "turn_inv c (other t)" and n: "nested_inv c" and b: "\<And>s. buf (pmem c) s = []"
    using inv by (auto simp: simple_inv_def flag_inv_def)
  have enter: "\<not> in_crit (ppc c (other t)) \<and> (waits (ppc c (other t)) \<longrightarrow> mem (pmem c) Turn = turn_of t) \<and> ppc c t \<noteq> SetTurn"
    if "in_crit (ppc c' t)" "\<not> in_crit (ppc c t)" using simple_enter [OF inv step] that by blast
  have "nested c = 0" if "ppc c t = CsEnter"
    using n u that by (cases t) (auto simp: nested_inv_def turn_inv_def split: if_splits)
  then have fail: "ppc c' t \<noteq> PFail"
    using step u by (cases "ppc c t") (auto simp: simple_defs turn_inv_def split: if_splits)
  have w: "waits (ppc c' t) \<longrightarrow> waits (ppc c t) \<or> ppc c t = SetTurn"
    using step by (cases "ppc c t") (auto simp: simple_defs split: if_splits)
  have "in_crit (ppc c' t) \<longrightarrow> \<not> in_crit (ppc c' (other t))"
    using u(1) fr(1) enter by (cases "in_crit (ppc c t)") (auto simp: turn_inv_def)
  moreover have "waits (ppc c' t) \<longrightarrow> mem (pmem c') Turn \<in> {turn_of t, turn_of (other t)} \<and>
        (in_crit (ppc c' (other t)) \<longrightarrow> mem (pmem c') Turn = turn_of (other t))"
    using u(1) fr b w by (cases "ppc c t = SetTurn") (auto simp: turn_inv_def)
  ultimately have "turn_inv c' t" using fail by (simp add: turn_inv_def)
  moreover have "turn_inv c' (other t)"
    using u fr b enter by (cases "in_crit (ppc c t)") (auto simp: turn_inv_def)
  ultimately show ?thesis by simp
qed

lemma simple_inv_step:
  assumes inv: "simple_inv c" and step: "T_simple sc_write t c = Some c'"
  shows "simple_inv c'"
proof -
  note fr = simple_frame [OF step]
  have f: "flag_inv c t" "flag_inv c (other t)" using inv by (auto simp: simple_inv_def)
  then have "flag_inv c' t"
    using step by (cases "ppc c t") (auto simp: flag_inv_def simple_defs split: if_splits)
  moreover have "flag_inv c' (other t)" using f(2) fr by (simp add: flag_inv_def)
  moreover have "ppc c (other t) \<noteq> CsLeave" if "ppc c t = CsEnter \<or> ppc c t = CsLeave"
    using inv that unfolding simple_inv_def turn_inv_def by (metis in_crit.simps(10,11))
  then have "nested_inv c'" using inv step fr
    by (cases t; cases "ppc c t") (auto simp: simple_inv_def nested_inv_def simple_defs split: if_splits)
  moreover note simple_turn_step [OF inv step]
  ultimately show ?thesis unfolding simple_inv_def by (intro conjI all_sides [where t = t]) auto
qed

interpretation simple: threads_invariant "pet_init turn0" "T_simple sc_write" UNIV simple_inv for turn0
  by unfold_locales (auto intro: simple_inv_init simple_inv_step)

text \<open>
  peterson-simple.c is Peterson's algorithm: on a sequentially consistent memory the two
  threads are never both in the critical section and its assertion never fails.
\<close>

theorem peterson_simple_sc:
  assumes "reachable (pet_init 1) (T_simple sc_write) UNIV c"
  shows "\<not> (in_crit (ppc c A) \<and> in_crit (ppc c B)) \<and> ppc c t \<noteq> PFail"
proof -
  have "turn_inv c A" "turn_inv c t" using simple.inv_reach [OF assms] by (auto simp: simple_inv_def)
  then show ?thesis by (auto simp: turn_inv_def)
qed

theorem peterson_simple_sc_witness:
  "\<exists>c. reachable (pet_init 1) (T_simple sc_write) UNIV c \<and> ppc c A = CsEnter \<and> ppc c B = TestTurn \<and> \<not> in_crit (ppc c B)"
proof -
  let ?S = "schedule (T_simple sc_write) [A, A, B, B, B, A, A, A] (pet_init 1)"
  have "case ?S of None \<Rightarrow> False | Some c \<Rightarrow> ppc c A = CsEnter \<and> ppc c B = TestTurn" by code_simp
  then obtain c where c: "?S = Some c" and p: "ppc c A = CsEnter" "ppc c B = TestTurn" by (auto split: option.splits)
  have r: "reachable (pet_init 1) (T_simple sc_write) UNIV c" using c by (rule schedule_reachable) simp
  show ?thesis using r p peterson_simple_sc [OF r, of A] by auto
qed

text \<open>
  C10: on the store-buffer machine of x86 the same program fails: both threads can read the
  other's flag before the stores of the flags have reached the memory, enter together, and
  the assertion in the critical section stops the program.
\<close>

theorem peterson_simple_fails_on_tso:
  "\<exists>c. reachable (pet_init 1) simple_tso_step UNIV c \<and> ppc c A = CsLeave \<and> ppc c B = PFail"
proof -
  let ?S = "schedule simple_tso_step [Exec A, Exec A, Exec A, Exec B, Exec B, Exec B, Drain A, Drain A, Drain B, Drain B,
     Exec A, Exec A, Exec B, Exec B] (pet_init 1)"
  have "case ?S of None \<Rightarrow> False | Some c \<Rightarrow> ppc c A = CsLeave \<and> ppc c B = PFail" by code_simp
  then obtain c where c: "?S = Some c" and p: "ppc c A = CsLeave" "ppc c B = PFail" by (auto split: option.splits)
  have "reachable (pet_init 1) simple_tso_step UNIV c" using c by (rule schedule_reachable) simp
  with p show ?thesis by blast
qed

end
