(* ===== verification/Philosopher.thy ===== *)
theory Philosopher
  imports Sync
begin

text \<open>
  \<^verbatim>\<open>concurrency/philosopher.c\<close>: the dining philosophers, one semaphore per fork, the
  last philosopher taking its forks in the opposite order. The number \<open>N\<close> of philosophers is
  a parameter (the program is compiled with 3). Shown for every \<open>N \<ge> 2\<close> and every
  interleaving: no fork is ever in two hands, and the program never comes to a standstill.
\<close>

definition lhs :: "nat \<Rightarrow> tid \<Rightarrow> nat" where "lhs N t = (N + t - 1) mod N"
definition rhs :: "nat \<Rightarrow> tid \<Rightarrow> nat" where "rhs N t = t mod N"

datatype phil_pc = PFirst | SayFirst | PSecond | SaySecond | VFirst | VSecond

record philc =
  locks :: "nat \<Rightarrow> nat"
  said :: "(tid \<times> nat) list"
  phpc :: "tid \<Rightarrow> phil_pc"

definition phil_init :: "nat \<Rightarrow> philc" where
  "phil_init N = \<lparr>locks = (\<lambda>i. if i < N then 1 else 0), said = [], phpc = (\<lambda>_. PFirst)\<rparr>"

text \<open>The two branches of \<^verbatim>\<open>Tphilosopher\<close> are the same loop over two forks in different order.\<close>

definition phil_loop :: "nat \<Rightarrow> nat \<Rightarrow> tid \<Rightarrow> philc \<Rightarrow> philc option" where
  "phil_loop f1 f2 t c =
     (let go = (\<lambda>p c. c\<lparr>phpc := (phpc c)(t := p)\<rparr>)
      in case phpc c t of
           PFirst \<Rightarrow> map_option (\<lambda>v. go SayFirst (c\<lparr>locks := (locks c)(f1 := v)\<rparr>)) (sem_P (locks c f1))
         | SayFirst \<Rightarrow> Some (go PSecond (c\<lparr>said := said c @ [(t, f1 + 1)]\<rparr>))
         | PSecond \<Rightarrow> map_option (\<lambda>v. go SaySecond (c\<lparr>locks := (locks c)(f2 := v)\<rparr>)) (sem_P (locks c f2))
         | SaySecond \<Rightarrow> Some (go VFirst (c\<lparr>said := said c @ [(t, f2 + 1)]\<rparr>))
         | VFirst \<Rightarrow> Some (go VSecond (c\<lparr>locks := (locks c)(f1 := sem_V (locks c f1))\<rparr>))
         | VSecond \<Rightarrow> Some (go PFirst (c\<lparr>locks := (locks c)(f2 := sem_V (locks c f2))\<rparr>)))"

definition Tphilosopher :: "nat \<Rightarrow> tid \<Rightarrow> philc \<Rightarrow> philc option" where
  "Tphilosopher N t c =
     (if t = N then phil_loop (rhs N t) (lhs N t) t c else phil_loop (lhs N t) (rhs N t) t c)"

definition first_fork :: "nat \<Rightarrow> tid \<Rightarrow> nat" where
  "first_fork N t = (if t = N then rhs N t else lhs N t)"

definition second_fork :: "nat \<Rightarrow> tid \<Rightarrow> nat" where
  "second_fork N t = (if t = N then lhs N t else rhs N t)"

lemma Tphilosopher_loop: "Tphilosopher N t c = phil_loop (first_fork N t) (second_fork N t) t c"
  by (simp add: Tphilosopher_def first_fork_def second_fork_def)

text \<open>Everybody takes the fork with the lower number first.\<close>

lemma forks_ordered:
  assumes "2 \<le> N" "t \<in> {1..N}"
  shows "first_fork N t < second_fork N t" "second_fork N t < N"
proof -
  have a: "N + t - 1 = t - 1 + N" "t - 1 < N" using assms by auto
  have "(N + t - 1) mod N = t - 1" unfolding a(1) mod_add_self2 using a(2) by (rule mod_less)
  then show "first_fork N t < second_fork N t" "second_fork N t < N"
    using assms by (auto simp: first_fork_def second_fork_def lhs_def rhs_def)
qed

primrec held_at :: "nat \<Rightarrow> tid \<Rightarrow> phil_pc \<Rightarrow> nat set" where
  "held_at N t PFirst = {}"
| "held_at N t SayFirst = {first_fork N t}"
| "held_at N t PSecond = {first_fork N t}"
| "held_at N t SaySecond = {first_fork N t, second_fork N t}"
| "held_at N t VFirst = {first_fork N t, second_fork N t}"
| "held_at N t VSecond = {second_fork N t}"

definition holds :: "nat \<Rightarrow> philc \<Rightarrow> tid \<Rightarrow> nat set" where
  "holds N c t = held_at N t (phpc c t)"

lemma holds_goto: "phpc c' = (phpc c)(t := p) \<Longrightarrow> holds N c' = (holds N c)(t := held_at N t p)"
  by (auto simp: holds_def fun_eq_iff)

text \<open>Every fork lies on the table (its semaphore is 1) or is held by exactly one.\<close>

definition fork_inv :: "tid set \<Rightarrow> nat \<Rightarrow> (nat \<Rightarrow> nat) \<Rightarrow> (tid \<Rightarrow> nat set) \<Rightarrow> bool" where
  "fork_inv T N l H \<longleftrightarrow> (\<forall>i < N. l i = 1 \<and> (\<forall>t\<in>T. i \<notin> H t) \<or> l i = 0 \<and> (\<exists>h\<in>T. \<forall>t\<in>T. i \<in> H t \<longleftrightarrow> t = h))"

lemma fork_take:
  assumes "fork_inv T N l H" "l i = Suc v" "i < N" "t \<in> T"
  shows "fork_inv T N (l(i := v)) (H(t := insert i (H t)))"
  unfolding fork_inv_def
proof (intro allI impI)
  fix j assume j: "j < N"
  have old: "l j = 1 \<and> (\<forall>t\<in>T. j \<notin> H t) \<or> l j = 0 \<and> (\<exists>h\<in>T. \<forall>t\<in>T. j \<in> H t \<longleftrightarrow> t = h)"
    using assms(1) j by (simp add: fork_inv_def)
  show "(l(i := v)) j = 1 \<and> (\<forall>u\<in>T. j \<notin> (H(t := insert i (H t))) u) \<or>
    (l(i := v)) j = 0 \<and> (\<exists>h\<in>T. \<forall>u\<in>T. j \<in> (H(t := insert i (H t))) u \<longleftrightarrow> u = h)"
  proof (cases "j = i")
    case True
    then have "v = 0" "\<forall>t\<in>T. i \<notin> H t" using old assms(2) by auto
    then show ?thesis using True assms(4) by (intro disjI2 conjI bexI [of _ t]) auto
  next
    case False
    then have "j \<in> (H(t := insert i (H t))) u \<longleftrightarrow> j \<in> H u" for u by simp
    then show ?thesis using old False by simp
  qed
qed

lemma fork_give:
  assumes "fork_inv T N l H" "i \<in> H t" "i < N" "t \<in> T"
  shows "fork_inv T N (l(i := Suc (l i))) (H(t := H t - {i}))"
  unfolding fork_inv_def
proof (intro allI impI)
  fix j assume j: "j < N"
  have old: "l j = 1 \<and> (\<forall>t\<in>T. j \<notin> H t) \<or> l j = 0 \<and> (\<exists>h\<in>T. \<forall>t\<in>T. j \<in> H t \<longleftrightarrow> t = h)"
    using assms(1) j by (simp add: fork_inv_def)
  show "(l(i := Suc (l i))) j = 1 \<and> (\<forall>u\<in>T. j \<notin> (H(t := H t - {i})) u) \<or>
    (l(i := Suc (l i))) j = 0 \<and> (\<exists>h\<in>T. \<forall>u\<in>T. j \<in> (H(t := H t - {i})) u \<longleftrightarrow> u = h)"
  proof (cases "j = i")
    case True
    then have "l i = 0" "\<forall>u\<in>T. i \<in> H u \<longrightarrow> u = t" using old assms(2,4) by auto
    then show ?thesis using True by auto
  next
    case False
    then have "j \<in> (H(t := H t - {i})) u \<longleftrightarrow> j \<in> H u" for u by simp
    then show ?thesis using old False by simp
  qed
qed

abbreviation phil_inv :: "nat \<Rightarrow> philc \<Rightarrow> bool" where
  "phil_inv N c \<equiv> fork_inv {1..N} N (locks c) (holds N c)"

lemma phil_inv_step:
  assumes inv: "phil_inv N c" and N: "2 \<le> N" "t \<in> {1..N}" and step: "Tphilosopher N t c = Some c'"
  shows "phil_inv N c'"
proof -
  let ?f = "first_fork N t" and ?s = "second_fork N t" and ?H = "holds N c"
  have fs: "?f < ?s" "?s < N" using forks_ordered [OF N] by auto
  note step' = step [unfolded Tphilosopher_loop phil_loop_def Let_def]
  note take = fork_take [OF inv _ _ N(2)] and give = fork_give [OF inv _ _ N(2)]
  show ?thesis
  proof (cases "phpc c t")
    case PFirst
    then obtain v where v: "locks c ?f = Suc v" "locks c' = (locks c)(?f := v)" "phpc c' = (phpc c)(t := SayFirst)"
      using step' by auto
    have "?H t = {}" using PFirst by (simp add: holds_def)
    then show ?thesis using take [OF v(1)] fs v(2) holds_goto [OF v(3), of N] by simp
  next
    case PSecond
    then obtain v where v: "locks c ?s = Suc v" "locks c' = (locks c)(?s := v)" "phpc c' = (phpc c)(t := SaySecond)"
      using step' by auto
    have "insert ?s (?H t) = {?f, ?s}" using PSecond by (auto simp: holds_def)
    then show ?thesis using take [OF v(1)] fs v(2) holds_goto [OF v(3), of N] by simp
  next
    case VFirst
    then have v: "locks c' = (locks c)(?f := Suc (locks c ?f))" "phpc c' = (phpc c)(t := VSecond)"
      using step' by (auto simp: sem_V_def)
    have "?f \<in> ?H t" "?H t - {?f} = {?s}" using VFirst fs by (auto simp: holds_def)
    then show ?thesis using give [of ?f] fs v(1) holds_goto [OF v(2), of N] by simp
  next
    case VSecond
    then have v: "locks c' = (locks c)(?s := Suc (locks c ?s))" "phpc c' = (phpc c)(t := PFirst)"
      using step' by (auto simp: sem_V_def)
    have "?H t = {?s}" using VSecond by (auto simp: holds_def)
    then show ?thesis using give [of ?s] fs v(1) holds_goto [OF v(2), of N] by simp
  next
    case SayFirst
    then have v: "locks c' = locks c" "phpc c' = (phpc c)(t := PSecond)" using step' by auto
    have "?H t = {?f}" using SayFirst by (simp add: holds_def)
    then have "?H(t := {?f}) = ?H" by (metis fun_upd_triv)
    then show ?thesis using inv v(1) holds_goto [OF v(2), of N] by simp
  next
    case SaySecond
    then have v: "locks c' = locks c" "phpc c' = (phpc c)(t := VFirst)" using step' by auto
    have "?H t = {?f, ?s}" using SaySecond by (simp add: holds_def)
    then have "?H(t := {?f, ?s}) = ?H" by (metis fun_upd_triv)
    then show ?thesis using inv v(1) holds_goto [OF v(2), of N] by simp
  qed
qed

lemma phil_inv_init: "phil_inv N (phil_init N)"
  by (simp add: fork_inv_def phil_init_def holds_def)

interpretation phil: threads_invariant "phil_init N" "Tphilosopher N" "{1..N}" "\<lambda>c. 2 \<le> N \<longrightarrow> phil_inv N c" for N
  by unfold_locales (use phil_inv_init phil_inv_step in blast)+

text \<open>
  philosopher.c, safety. In every reachable state a fork is held by at most one
  philosopher, the semaphores stay binary, and a fork's semaphore is 0 exactly while somebody
  holds it.
\<close>

theorem philosopher_exclusive:
  assumes "reachable (phil_init N) (Tphilosopher N) {1..N} c" "2 \<le> N" "t \<in> {1..N}" "u \<in> {1..N}" "i < N"
  shows "(t \<noteq> u \<longrightarrow> holds N c t \<inter> holds N c u = {}) \<and> locks c i \<le> 1 \<and> (locks c i = 0 \<longleftrightarrow> (\<exists>p \<in> {1..N}. i \<in> holds N c p))"
proof -
  have inv: "phil_inv N c" using phil.inv_reach [OF assms(1)] assms(2) by simp
  have "j < N" if "j \<in> holds N c t" for j
    using that forks_ordered [OF assms(2,3)] by (cases "phpc c t") (auto simp: holds_def)
  then have "holds N c t \<inter> holds N c u = {}" if "t \<noteq> u"
    using inv that assms(3,4) unfolding fork_inv_def by (metis disjoint_iff)
  moreover have "locks c i \<le> 1 \<and> (locks c i = 0 \<longleftrightarrow> (\<exists>p \<in> {1..N}. i \<in> holds N c p))"
  proof (cases "locks c i = 1")
    case True
    then show ?thesis using inv assms(5) by (auto simp: fork_inv_def)
  next
    case False
    then show ?thesis using inv assms(5) by (auto simp: fork_inv_def)
  qed
  ultimately show ?thesis by blast
qed

text \<open>A held fork leads to a philosopher who can move: its holder, or, if that one waits for its
  second fork, the holder of a fork with a higher number.\<close>

lemma held_moves:
  assumes inv: "phil_inv N c" and N: "2 \<le> N"
  shows "i < N \<Longrightarrow> locks c i = 0 \<Longrightarrow> \<exists>t \<in> {1..N}. Tphilosopher N t c \<noteq> None"
proof (induction "N - i" arbitrary: i rule: less_induct)
  case less
  then obtain h where h: "h \<in> {1..N}" "i \<in> holds N c h" using inv by (force simp: fork_inv_def)
  show ?case
  proof (cases "phpc c h = PSecond \<and> locks c (second_fork N h) = 0")
    case True
    then have "i < second_fork N h" using h forks_ordered [OF N h(1)] by (auto simp: holds_def)
    then show ?thesis using less.hyps [of "second_fork N h"] True forks_ordered [OF N h(1)] by auto
  next
    case False
    then have "Tphilosopher N h c \<noteq> None"
      using h(2) by (cases "phpc c h") (auto simp: Tphilosopher_loop phil_loop_def holds_def Let_def)
    then show ?thesis using h(1) by blast
  qed
qed

text \<open>
  C13: philosopher.c, liveness. Because the last philosopher reaches for its forks in the
  opposite order, the program cannot deadlock: in every reachable state some philosopher can
  make a step.
\<close>

theorem philosopher_no_deadlock:
  assumes "reachable (phil_init N) (Tphilosopher N) {1..N} c" "2 \<le> N"
  shows "\<exists>t \<in> {1..N}. Tphilosopher N t c \<noteq> None"
proof (cases "\<exists>i < N. locks c i = 0")
  case True
  then show ?thesis using held_moves phil.inv_reach [OF assms(1)] assms(2) by blast
next
  case False
  then have pos: "locks c i \<noteq> 0" if "i < N" for i using that by metis
  have one: "1 \<in> {1..N}" using assms(2) by simp
  note fs = forks_ordered [OF assms(2) one]
  have "locks c (first_fork N 1) \<noteq> 0" by (rule pos) (rule less_trans [OF fs])
  moreover have "locks c (second_fork N 1) \<noteq> 0" by (rule pos) (rule fs)
  ultimately have "Tphilosopher N 1 c \<noteq> None"
    by (cases "phpc c 1") (auto simp: Tphilosopher_loop phil_loop_def Let_def)
  then show ?thesis using one by blast
qed

lemma phil_run_reach:
  obtains c where "reachable (phil_init 3) (Tphilosopher 3) {1..3} c" "phpc c 1 = PSecond" "phpc c 2 = SaySecond" "phpc c 3 = PFirst"
proof -
  let ?S = "schedule (Tphilosopher 3) [1, 2, 2, 1, 2] (phil_init 3)"
  have "case ?S of None \<Rightarrow> False | Some c \<Rightarrow> phpc c 1 = PSecond \<and> phpc c 2 = SaySecond \<and> phpc c 3 = PFirst" by code_simp
  then obtain c where c: "?S = Some c" "phpc c 1 = PSecond" "phpc c 2 = SaySecond" "phpc c 3 = PFirst"
    by (auto split: option.splits)
  moreover have "reachable (phil_init 3) (Tphilosopher 3) {1..3} c" using c(1) by (rule schedule_reachable) simp
  ultimately show thesis using that by blast
qed

theorem philosopher_exclusive_witness:
  "\<exists>c. reachable (phil_init 3) (Tphilosopher 3) {1..3} c \<and> phpc c 2 = SaySecond \<and> holds 3 c 1 \<inter> holds 3 c 2 = {} \<and> locks c 0 \<le> 1"
proof -
  obtain c where c: "reachable (phil_init 3) (Tphilosopher 3) {1..3} c" "phpc c 2 = SaySecond" by (rule phil_run_reach)
  have "holds 3 c 1 \<inter> holds 3 c 2 = {} \<and> locks c 0 \<le> 1"
    using philosopher_exclusive [OF c(1), of 1 2 0] by simp
  then show ?thesis using c by blast
qed

theorem philosopher_no_deadlock_witness:
  "\<exists>c. reachable (phil_init 3) (Tphilosopher 3) {1..3} c \<and> phpc c 1 = PSecond \<and> (\<exists>t \<in> {1..3}. Tphilosopher 3 t c \<noteq> None)"
proof -
  obtain c where c: "reachable (phil_init 3) (Tphilosopher 3) {1..3} c" "phpc c 1 = PSecond" by (rule phil_run_reach)
  have "\<exists>t \<in> {1..3}. Tphilosopher 3 t c \<noteq> None" using philosopher_no_deadlock [OF c(1)] by simp
  then show ?thesis using c by blast
qed

end
