(* ===== verification/Bootmain.thy ===== *)
theory Bootmain
  imports Prelude "HOL-Library.While_Combinator"
begin

text \<open>
  The boot loader \<^verbatim>\<open>virtualization/bootmain.c\<close>: reading sectors over the ATA ports,
  copying a range of the disk image to memory, loading the segments of an ELF file. Memory is
  a function from 32-bit addresses to bytes; the disk is a parameter that gives the 32-bit
  words of each sector, as the data port delivers them. The polling of \<^verbatim>\<open>wait_disk\<close>
  has no effect on memory and is left out. Shown: the four address bytes written to the ports
  name the wanted sector; a sector, then a range of the image, arrives in memory byte for byte
  with nothing else changed; a loaded segment is the file's content followed by zeros.
\<close>

unbundle bit_operations_syntax

type_synonym bmem = "u32 \<Rightarrow> u8"

text \<open>\<open>disk lba i\<close>: word \<open>i\<close> of sector \<open>lba\<close>.\<close>

type_synonym disk = "nat \<Rightarrow> nat \<Rightarrow> u32"

definition SECTSIZE :: nat where "SECTSIZE = 512"
definition ARGSIZE :: nat where "ARGSIZE = 1024"

subsection \<open>Ports\<close>

text \<open>The bytes written to the ports 0x1f3 to 0x1f6.\<close>

record ata =
  p3 :: u8
  p4 :: u8
  p5 :: u8
  p6 :: u8

definition ata_select :: "u32 \<Rightarrow> ata" where
  "ata_select sect =
     \<lparr>p3 = ucast sect, p4 = ucast (drop_bit 8 sect), p5 = ucast (drop_bit 16 sect), p6 = ucast (drop_bit 24 sect OR 0xE0)\<rparr>"

text \<open>How an ATA controller reads them: 28 bits of address, bit 4 of the last byte selects the drive,
  bit 6 says that the address is linear.\<close>

definition ata_lba :: "ata \<Rightarrow> nat" where
  "ata_lba a = unat (p3 a) + 2 ^ 8 * unat (p4 a) + 2 ^ 16 * unat (p5 a) + 2 ^ 24 * (unat (p6 a) mod 16)"

definition ata_drive :: "ata \<Rightarrow> bool" where
  "ata_drive a \<longleftrightarrow> bit (p6 a) 4"

lemma unat_ucast_byte: "unat (ucast (w :: u32) :: u8) = unat w mod 256"
  by (simp add: unsigned_ucast_eq take_bit_eq_mod)

lemma unat_drop: "unat (drop_bit n (w :: u32)) = unat w div 2 ^ n"
  by (simp add: unat_drop_bit_eq flip: drop_bit_eq_div)

lemma or_low_nibble: "unat (x OR 0xE0 :: u32) mod 16 = unat x mod 16"
proof -
  have "take_bit 4 (unat (x OR 0xE0)) = take_bit 4 (unat x)"
    by (simp add: unsigned_or_eq take_bit_or)
  then show ?thesis by (simp add: take_bit_eq_mod)
qed

lemma digits_256:
  fixes s :: nat
  assumes "s < 2 ^ 28"
  shows "s mod 256 + 256 * (s div 256 mod 256) + 65536 * (s div 65536 mod 256) + 16777216 * (s div 16777216 mod 16) = s"
proof -
  have a: "s div 16777216 mod 16 = s div 16777216" using assms by simp
  have b: "s = 256 * (s div 256) + s mod 256" by simp
  have c: "s div 256 = 256 * (s div 65536) + s div 256 mod 256" using div_mult2_eq [of s 256 256] by simp
  have d: "s div 65536 = 256 * (s div 16777216) + s div 65536 mod 256" using div_mult2_eq [of s 65536 256] by simp
  show ?thesis unfolding a using b c d by linarith
qed

lemma ata_lba_select: "unat s < 2 ^ 28 \<Longrightarrow> ata_lba (ata_select s) = unat s"
proof -
  assume s: "unat s < 2 ^ 28"
  have "unat (ucast (drop_bit 24 s OR 0xE0) :: u8) mod 16 = unat s div 2 ^ 24 mod 16"
    unfolding unat_ucast_byte by (simp add: mod_mod_cancel or_low_nibble unat_drop)
  then show ?thesis using digits_256 [OF s] unfolding ata_lba_def ata_select_def
    by (simp add: unat_ucast_byte unat_drop)
qed

lemma ata_drive_select: "unat s < 2 ^ 28 \<Longrightarrow> \<not> ata_drive (ata_select s)"
proof -
  assume s: "unat s < 2 ^ 28"
  have "bit s 28 = bit (unat s) 28" by (simp add: bit_unsigned_iff)
  then have "\<not> bit s 28" using s by (simp add: bit_iff_odd)
  then show ?thesis by (simp add: ata_drive_def ata_select_def bit_simps)
qed

text \<open>
  The port protocol of \<^verbatim>\<open>read_disk\<close>: for every sector number below 2^28 the four
  bytes it writes are read by the controller as that linear address on drive 0. (Bit 28 of a
  larger number would select the other drive.)
\<close>

theorem ata_roundtrip:
  assumes "unat s < 2 ^ 28"
  shows "ata_lba (ata_select s) = unat s \<and> \<not> ata_drive (ata_select s) \<and> bit (p6 (ata_select s)) 6"
  using ata_lba_select [OF assms] ata_drive_select [OF assms] by (simp add: ata_select_def bit_simps)

theorem ata_roundtrip_witness: "unat (0x1234567 :: u32) < 2 ^ 28 \<and> ata_lba (ata_select 0x1234567) = 0x1234567"
  using ata_roundtrip [of "0x1234567"] by simp

subsection \<open>Sectors\<close>

definition store32 :: "bmem \<Rightarrow> u32 \<Rightarrow> u32 \<Rightarrow> bmem" where
  "store32 m a w =
     m(a := ucast w, a + 1 := ucast (drop_bit 8 w), a + 2 := ucast (drop_bit 16 w), a + 3 := ucast (drop_bit 24 w))"

definition read_disk :: "disk \<Rightarrow> u32 \<Rightarrow> u32 \<Rightarrow> bmem \<Rightarrow> bmem" where
  "read_disk d buf sect m =
     foldl (\<lambda>m i. store32 m (buf + 4 * of_nat i) (d (ata_lba (ata_select sect)) i)) m [0 ..< SECTSIZE div 4]"

definition disk_byte :: "disk \<Rightarrow> nat \<Rightarrow> nat \<Rightarrow> u8" where
  "disk_byte d lba j = ucast (drop_bit (8 * (j mod 4)) (d lba (j div 4)))"

text \<open>Addresses relative to a base: whether \<open>x\<close> lies in the window of \<open>l\<close> bytes at \<open>b + k\<close>.\<close>

lemma window:
  fixes z :: u32
  assumes "k + l \<le> 2 ^ 32"
  shows "unat (z - of_nat k) < l \<longleftrightarrow> k \<le> unat z \<and> unat z < k + l"
    and "k \<le> unat z \<Longrightarrow> l \<noteq> 0 \<Longrightarrow> unat (z - of_nat k) = unat z - k"
proof -
  have z: "unat z < 2 ^ 32" using unsigned_less [of z] by simp
  have k: "unat (of_nat k :: u32) = k" if "l \<noteq> 0" using assms that by (simp add: unsigned_of_nat take_bit_nat_eq_self)
  show *: "unat (z - of_nat k) = unat z - k" if "k \<le> unat z" "l \<noteq> 0" using that k by (simp add: unat_sub_if')
  show "unat (z - of_nat k) < l \<longleftrightarrow> k \<le> unat z \<and> unat z < k + l"
  proof (cases "k \<le> unat z \<or> l = 0")
    case True
    then show ?thesis using * by (cases "l = 0") auto
  next
    case False
    then have "unat (z - of_nat k) = unat z + 2 ^ 32 - k" using k by (simp add: unat_sub_if')
    then show ?thesis using False assms z by auto
  qed
qed

lemma store32_at:
  "store32 m a w x = (if unat (x - a) < 4 then ucast (drop_bit (8 * unat (x - a)) w) else m x)"
proof -
  have four: "unat z < 4 \<longleftrightarrow> z = 0 \<or> z = 1 \<or> z = 2 \<or> z = 3" for z :: u32
  proof
    assume "unat z < 4"
    then have "unat z = 0 \<or> unat z = 1 \<or> unat z = 2 \<or> unat z = 3" by auto
    then show "z = 0 \<or> z = 1 \<or> z = 2 \<or> z = 3" by (simp add: word_unat_eq_iff)
  qed auto
  have "x = a + k \<longleftrightarrow> x - a = k" for k by (auto simp: algebra_simps)
  then have e: "x = a \<longleftrightarrow> x - a = 0" "x = a + 1 \<longleftrightarrow> x - a = 1" "x = a + 2 \<longleftrightarrow> x - a = 2" "x = a + 3 \<longleftrightarrow> x - a = 3" by auto
  show ?thesis unfolding store32_def fun_upd_apply e four by auto
qed

lemma read_words_at:
  assumes "4 * n \<le> 2 ^ 32"
  shows "foldl (\<lambda>m i. store32 m (buf + 4 * of_nat i) (d lba i)) m [0 ..< n] x =
    (if unat (x - buf) < 4 * n then disk_byte d lba (unat (x - buf)) else m x)"
  using assms
proof (induction n)
  case 0
  then show ?case by simp
next
  case (Suc n)
  let ?z = "x - buf"
  let ?m = "foldl (\<lambda>m i. store32 m (buf + 4 * of_nat i) (d lba i)) m [0 ..< n]"
  have z: "x - (buf + 4 * of_nat n) = ?z - of_nat (4 * n)" by simp
  have w: "unat (?z - of_nat (4 * n)) < 4 \<longleftrightarrow> 4 * n \<le> unat ?z \<and> unat ?z < 4 * n + 4"
    using Suc.prems by (intro window) simp
  have IH: "?m x = (if unat ?z < 4 * n then disk_byte d lba (unat ?z) else m x)" using Suc by simp
  have step: "foldl (\<lambda>m i. store32 m (buf + 4 * of_nat i) (d lba i)) m [0 ..< Suc n] x =
      (if unat (?z - of_nat (4 * n)) < 4 then ucast (drop_bit (8 * unat (?z - of_nat (4 * n))) (d lba n)) else ?m x)"
    using store32_at [of ?m "buf + 4 * of_nat n" "d lba n" x] unfolding z by simp
  show ?case
  proof (cases "4 * n \<le> unat ?z \<and> unat ?z < 4 * n + 4")
    case True
    then have "unat (?z - of_nat (4 * n)) = unat ?z - 4 * n"
      using window(2) [of "4 * n" 4 ?z] Suc.prems by simp
    moreover have "unat ?z div 4 = n" "unat ?z mod 4 = unat ?z - 4 * n"
      using True by (auto simp: div_nat_eqI modulo_nat_def)
    ultimately show ?thesis unfolding step w using True by (simp add: disk_byte_def)
  next
    case False
    then show ?thesis unfolding step w IH by auto
  qed
qed

lemma read_disk_at:
  assumes "unat sect < 2 ^ 28"
  shows "read_disk d buf sect m x = (if unat (x - buf) < 512 then disk_byte d (unat sect) (unat (x - buf)) else m x)"
  using read_words_at [of 128 buf d "unat sect" m x] ata_lba_select [OF assms]
  by (simp add: read_disk_def SECTSIZE_def)

subsection \<open>Ranges of the disk image\<close>

lemma unat_plus: "unat a + unat b < 2 ^ 32 \<Longrightarrow> unat (a + b :: u32) = unat a + unat b"
  by (subst unat_add_lem [THEN iffD1]) auto

text \<open>C's division rounds towards zero.\<close>

definition cdiv :: "int \<Rightarrow> int \<Rightarrow> int" where
  "cdiv a b = sgn a * sgn b * (\<bar>a\<bar> div \<bar>b\<bar>)"

text \<open>The loop ends when \<open>cur\<close> has reached \<open>ed\<close>; near the end of the address space it would wrap
  around and not end, which is \<open>None\<close>.\<close>

definition copy_loop :: "disk \<Rightarrow> u32 \<Rightarrow> u32 \<times> u32 \<times> bmem \<Rightarrow> (u32 \<times> u32 \<times> bmem) option" where
  "copy_loop d ed = while_option (\<lambda>(cur, sect, m). cur < ed)
     (\<lambda>(cur, sect, m). (cur + of_nat SECTSIZE, sect + 1, read_disk d cur sect m))"

definition copy_from_disk :: "disk \<Rightarrow> u32 \<Rightarrow> u32 \<Rightarrow> int \<Rightarrow> bmem \<Rightarrow> bmem option" where
  "copy_from_disk d buf nbytes disk_offset m =
     (let cur = buf AND NOT 511;
          ed = buf + nbytes;
          sect = word_of_int (cdiv disk_offset (int SECTSIZE)) + of_nat (ARGSIZE div SECTSIZE) + 1
      in map_option (\<lambda>(_, _, m). m) (copy_loop d ed (cur, sect, m)))"

lemma round_down: "unat (w AND NOT 511 :: u32) = unat w - unat w mod 512"
proof -
  have "(511::u32) = mask 9" by (simp add: mask_eq_exp_minus_1)
  then have "w AND NOT 511 = push_bit 9 (drop_bit 9 w)" by (auto simp: bit_eq_iff bit_simps not_less)
  also have "... = w - take_bit 9 w" using bits_ident [of 9 w] by (metis add_diff_cancel_right')
  finally have e: "w AND NOT 511 = w - take_bit 9 w" .
  have t: "unat (take_bit 9 w) = unat w mod 512"
    unfolding unsigned_take_bit_eq by (simp add: take_bit_eq_mod)
  show ?thesis unfolding e using t by (simp add: unat_sub_if')
qed

text \<open>Memory after \<open>n\<close> sectors from \<open>s\<close> on have been read to \<open>b\<close>.\<close>

definition sectors_at :: "disk \<Rightarrow> u32 \<Rightarrow> nat \<Rightarrow> nat \<Rightarrow> bmem \<Rightarrow> bmem" where
  "sectors_at d b s n m x =
     (if unat (x - b) < 512 * n then disk_byte d (s + unat (x - b) div 512) (unat (x - b) mod 512) else m x)"

lemma sectors_at_Suc:
  assumes "512 * Suc n \<le> 2 ^ 32" "unat sect + 1 < 2 ^ 28"
  shows "sectors_at d (b + 512) (unat (sect + 1)) n (read_disk d b sect m) = sectors_at d b (unat sect) (Suc n) m"
proof
  fix x
  let ?z = "x - b"
  have s: "unat sect < 2 ^ 28" "unat (sect + 1) = Suc (unat sect)" using assms(2) by (auto simp: unat_plus)
  have e: "x - (b + 512) = ?z - of_nat 512" by simp
  have w: "unat (?z - of_nat 512) < 512 * n \<longleftrightarrow> 512 \<le> unat ?z \<and> unat ?z < 512 + 512 * n"
    using assms(1) by (intro window) simp
  show "sectors_at d (b + 512) (unat (sect + 1)) n (read_disk d b sect m) x = sectors_at d b (unat sect) (Suc n) m x"
  proof (cases "512 \<le> unat ?z \<and> unat ?z < 512 + 512 * n")
    case True
    then have "unat (?z - of_nat 512) = unat ?z - 512" using window(2) [of 512 "512 * n" ?z] assms(1) by auto
    then have A: "sectors_at d (b + 512) (unat (sect + 1)) n (read_disk d b sect m) x =
        disk_byte d (Suc (unat sect) + (unat ?z - 512) div 512) ((unat ?z - 512) mod 512)"
      using True unfolding sectors_at_def e w s(2) by simp
    have B: "sectors_at d b (unat sect) (Suc n) m x = disk_byte d (unat sect + unat ?z div 512) (unat ?z mod 512)"
      using True unfolding sectors_at_def by simp
    have q: "unat ?z div 512 = Suc ((unat ?z - 512) div 512)" "(unat ?z - 512) mod 512 = unat ?z mod 512"
      using True by (auto simp: le_div_geq le_mod_geq)
    show ?thesis unfolding A B q by simp
  next
    case False
    then show ?thesis unfolding sectors_at_def e w read_disk_at [OF s(1)] by auto
  qed
qed

lemma copy_loop_sectors:
  assumes "unat cur + 512 * n < 2 ^ 32" "unat sect + n < 2 ^ 28" "unat ed \<le> unat cur + 512 * n"
    and "n \<noteq> 0 \<Longrightarrow> unat cur + 512 * (n - 1) < unat ed"
  shows "\<exists>c s. copy_loop d ed (cur, sect, m) = Some (c, s, sectors_at d cur (unat sect) n m)"
  using assms
proof (induction n arbitrary: cur sect m)
  case 0
  then have "\<not> cur < ed" by (simp add: word_less_nat_alt)
  then show ?case by (simp add: copy_loop_def while_option_unfold sectors_at_def fun_eq_iff)
next
  case (Suc n)
  have lt: "cur < ed" using Suc.prems(4) by (simp add: word_less_nat_alt)
  have c: "unat (cur + 512) = unat cur + 512" using Suc.prems(1) by (simp add: unat_plus)
  have s: "unat (sect + 1) = Suc (unat sect)" using Suc.prems(2) by (simp add: unat_plus)
  have "\<exists>c s. copy_loop d ed (cur + 512, sect + 1, read_disk d cur sect m) =
      Some (c, s, sectors_at d (cur + 512) (unat (sect + 1)) n (read_disk d cur sect m))"
    by (rule Suc.IH) (use Suc.prems c s in \<open>auto simp: algebra_simps\<close>)
  moreover have "copy_loop d ed (cur, sect, m) = copy_loop d ed (cur + 512, sect + 1, read_disk d cur sect m)"
    using lt by (simp add: copy_loop_def while_option_unfold [of _ _ "(cur, sect, m)"] SECTSIZE_def)
  moreover have "sectors_at d (cur + 512) (unat (sect + 1)) n (read_disk d cur sect m) = sectors_at d cur (unat sect) (Suc n) m"
    using Suc.prems by (intro sectors_at_Suc) auto
  ultimately show ?case by simp
qed

text \<open>Byte \<open>k\<close> of the kernel image, which follows the boot sector and the two argument sectors.\<close>

definition image_byte :: "disk \<Rightarrow> nat \<Rightarrow> u8" where
  "image_byte d k = disk_byte d (3 + k div 512) (k mod 512)"

definition disk_sector :: "int \<Rightarrow> u32" where
  "disk_sector disk_offset = word_of_int (cdiv disk_offset (int SECTSIZE)) + of_nat (ARGSIZE div SECTSIZE) + 1"

lemma copy_from_disk_sectors:
  assumes sz: "unat buf + unat nbytes + 512 < 2 ^ 32" and s: "unat (disk_sector off) \<le> 2 ^ 23"
  shows "\<exists>m'. copy_from_disk d buf nbytes off m = Some m' \<and>
    (\<forall>i < unat nbytes. m' (buf + of_nat i) =
       disk_byte d (unat (disk_sector off) + (unat buf mod 512 + i) div 512) ((unat buf mod 512 + i) mod 512)) \<and>
    (\<forall>x. unat x + 512 \<le> unat buf \<or> unat buf + unat nbytes + 511 \<le> unat x \<longrightarrow> m' x = m x)"
proof -
  let ?b = "buf AND NOT 511" and ?r = "unat buf mod 512" and ?s = "disk_sector off"
  let ?n = "(?r + unat nbytes + 511) div 512"
  have b: "unat ?b = unat buf - ?r" and rb: "?r \<le> unat buf" using round_down [of buf] by auto
  have ed: "unat (buf + nbytes) = unat buf + unat nbytes" using sz by (simp add: unat_plus)
  have n1: "?r + unat nbytes \<le> 512 * ?n" and n2: "512 * ?n \<le> ?r + unat nbytes + 511" by auto
  have "\<exists>c t. copy_loop d (buf + nbytes) (?b, ?s, m) = Some (c, t, sectors_at d ?b (unat ?s) ?n m)"
  proof (rule copy_loop_sectors)
    show "unat ?b + 512 * ?n < 2 ^ 32" "unat (buf + nbytes) \<le> unat ?b + 512 * ?n"
      using b rb n1 n2 sz ed by auto
    have "512 * ?n < 2 ^ 32" using n2 sz rb by simp
    then show "unat ?s + ?n < 2 ^ 28" using s by simp
    show "unat ?b + 512 * (?n - 1) < unat (buf + nbytes)" if "?n \<noteq> 0" using that n2 b rb ed by simp
  qed
  then obtain m' where m': "copy_from_disk d buf nbytes off m = Some m'" "m' = sectors_at d ?b (unat ?s) ?n m"
    by (auto simp: copy_from_disk_def Let_def disk_sector_def)
  have "m' (buf + of_nat i) = disk_byte d (unat ?s + (?r + i) div 512) ((?r + i) mod 512)" if i: "i < unat nbytes" for i
  proof -
    have ui: "unat (of_nat i :: u32) = i" using i sz by (simp add: unsigned_of_nat take_bit_nat_eq_self)
    have u: "unat (buf + of_nat i) = unat buf + i" using ui i sz by (simp add: unat_plus)
    then have "unat ?b \<le> unat (buf + of_nat i)" using b by linarith
    then have "unat (buf + of_nat i - ?b) = unat buf + i - (unat buf - ?r)" unfolding unat_sub_if' u b by simp
    then have "unat (buf + of_nat i - ?b) = ?r + i" using rb by linarith
    moreover have "?r + i < 512 * ?n" using n1 i by simp
    ultimately show ?thesis using m'(2) by (simp add: sectors_at_def)
  qed
  moreover have "m' x = m x" if x: "unat x + 512 \<le> unat buf \<or> unat buf + unat nbytes + 511 \<le> unat x" for x
  proof -
    have "\<not> unat (x - ?b) < 512 * ?n"
    proof (cases "unat ?b \<le> unat x")
      case True
      then have "unat (x - ?b) = unat x - (unat buf - ?r)" using b by (simp add: unat_sub_if')
      moreover have "?r < 512" by simp
      then have "unat buf + unat nbytes + 511 \<le> unat x" using x True b rb by linarith
      ultimately show ?thesis using n2 rb by simp
    next
      case False
      then have "unat (x - ?b) = unat x + 2 ^ 32 - (unat buf - ?r)" using b by (simp add: unat_sub_if')
      then show ?thesis using n2 rb sz by simp
    qed
    then show ?thesis using m'(2) by (simp add: sectors_at_def)
  qed
  ultimately show ?thesis using m'(1) by blast
qed

lemma disk_sector_nat: "off < 2 ^ 31 \<Longrightarrow> unat (disk_sector (int off)) = off div 512 + 3"
proof -
  assume off: "off < 2 ^ 31"
  have "cdiv (int off) (int SECTSIZE) = int (off div 512)" by (cases "off = 0") (simp_all add: cdiv_def SECTSIZE_def zdiv_int)
  then show ?thesis using off
    by (simp add: disk_sector_def unat_plus unsigned_of_nat take_bit_nat_eq_self SECTSIZE_def ARGSIZE_def)
qed

lemma disk_sector_args: "disk_sector (-1024) = 1"
  by (simp add: disk_sector_def cdiv_def SECTSIZE_def ARGSIZE_def)

lemma copy_from_disk_ok:
  assumes sz: "unat buf + unat nbytes + 512 < 2 ^ 32" and off: "off + 1536 < 2 ^ 31" and cong: "unat buf mod 512 = off mod 512"
  shows "\<exists>m'. copy_from_disk d buf nbytes (int off) m = Some m' \<and>
    (\<forall>i < unat nbytes. m' (buf + of_nat i) = image_byte d (off + i)) \<and>
    (\<forall>x. unat x + 512 \<le> unat buf \<or> unat buf + unat nbytes + 511 \<le> unat x \<longrightarrow> m' x = m x)"
proof -
  have s: "unat (disk_sector (int off)) = off div 512 + 3" using off by (simp add: disk_sector_nat)
  moreover have "(unat buf mod 512 + i) div 512 + off div 512 = (off + i) div 512" "(unat buf mod 512 + i) mod 512 = (off + i) mod 512" for i
    using cong by (auto simp: div_add1_eq [of off i 512] div_add1_eq [of "off mod 512" i 512] mod_add_left_eq)
  moreover have "off div 512 + 3 \<le> 2 ^ 23" using off by simp
  ultimately show ?thesis using copy_from_disk_sectors [OF sz, of "int off" d m]
    by (simp add: image_byte_def algebra_simps)
qed

subsection \<open>Segments\<close>

function bss_loop :: "u32 \<Rightarrow> u32 \<Rightarrow> u32 \<Rightarrow> bmem \<Rightarrow> bmem" where
  "bss_loop bss i memsz m = (if i \<noteq> memsz then bss_loop (bss + 1) (i + 1) memsz (m(bss := 0)) else m)"
  by auto
termination
proof (relation "measure (\<lambda>(_, i, memsz, _). unat (memsz - i))")
  fix bss i memsz :: u32 and m :: bmem
  assume "i \<noteq> memsz"
  then have "memsz - i \<noteq> 0" by auto
  then have "unat (memsz - i - 1) < unat (memsz - i)" by (simp add: unat_minus_one unat_gt_0)
  then show "((bss + 1, i + 1, memsz, m(bss := 0)), bss, i, memsz, m) \<in> measure (\<lambda>(_, i, memsz, _). unat (memsz - i))"
    by (simp add: diff_diff_eq)
qed simp

declare bss_loop.simps [simp del]

definition load_program :: "disk \<Rightarrow> u32 \<Rightarrow> u32 \<Rightarrow> u32 \<Rightarrow> u32 \<Rightarrow> bmem \<Rightarrow> bmem option" where
  "load_program d filesz memsz paddr offset m =
     map_option (bss_loop (paddr + filesz) filesz memsz) (copy_from_disk d paddr filesz (sint offset) m)"

lemma bss_loop_at:
  "bss_loop bss i memsz m x = (if unat (x - bss) < unat (memsz - i) then 0 else m x)"
proof (induction bss i memsz m rule: bss_loop.induct)
  case (1 bss i memsz m)
  show ?case
  proof (cases "i = memsz")
    case True
    then show ?thesis by (simp add: bss_loop.simps)
  next
    case False
    then have ne: "memsz - i \<noteq> 0" by auto
    then have k: "unat (memsz - (i + 1)) = unat (memsz - i) - 1" by (simp add: unat_minus_one flip: diff_diff_eq)
    have z: "unat (x - (bss + 1)) = unat (x - bss) - 1" if "x \<noteq> bss" using that by (simp add: unat_minus_one flip: diff_diff_eq)
    have "0 < unat (x - bss)" if "x \<noteq> bss" using that by (simp add: unat_gt_0)
    moreover have "0 < unat (memsz - i)" using ne by (simp add: unat_gt_0)
    ultimately have p: "unat (x - bss) - 1 < unat (memsz - i) - 1 \<longleftrightarrow> unat (x - bss) < unat (memsz - i)" if "x \<noteq> bss"
      using that by arith
    have "bss_loop bss i memsz m x = (if unat (x - (bss + 1)) < unat (memsz - (i + 1)) then 0 else (m(bss := 0)) x)"
      unfolding bss_loop.simps [of bss i memsz m] using 1 [OF False] False by presburger
    then show ?thesis using ne k z p by (cases "x = bss") (auto simp: unat_gt_0)
  qed
qed

text \<open>The fields of a program header that the loader uses, cut to 32 bits as the calls cut them.\<close>

record phdr =
  p_filesz :: u32
  p_memsz :: u32
  p_paddr :: u32
  p_offset :: u32

definition load_phdr :: "disk \<Rightarrow> phdr \<Rightarrow> bmem \<Rightarrow> bmem option" where
  "load_phdr d p m = load_program d (p_filesz p) (p_memsz p) (p_paddr p) (p_offset p) m"

text \<open>What the loader needs of a segment: it does not shrink in memory, lies below the end of the
  address space, its offset fits an \<open>int\<close>, and address and offset agree within a sector.\<close>

definition segment_fits :: "phdr \<Rightarrow> bool" where
  "segment_fits p \<longleftrightarrow> unat (p_filesz p) \<le> unat (p_memsz p) \<and> unat (p_paddr p) + unat (p_memsz p) + 512 < 2 ^ 32 \<and>
     unat (p_offset p) + 1536 < 2 ^ 31 \<and> unat (p_paddr p) mod 512 = unat (p_offset p) mod 512"

definition segment_at :: "disk \<Rightarrow> phdr \<Rightarrow> bmem \<Rightarrow> bool" where
  "segment_at d p m \<longleftrightarrow> (\<forall>i < unat (p_memsz p). m (p_paddr p + of_nat i) =
     (if i < unat (p_filesz p) then image_byte d (unat (p_offset p) + i) else 0))"

text \<open>Whole sectors are read, so up to 511 bytes around the file's part of a segment are written too.\<close>

definition touched :: "phdr \<Rightarrow> u32 \<Rightarrow> bool" where
  "touched p x \<longleftrightarrow> unat (p_paddr p) < unat x + 512 \<and>
     unat x < unat (p_paddr p) + max (unat (p_memsz p)) (unat (p_filesz p) + 511)"

definition in_segment :: "phdr \<Rightarrow> u32 \<Rightarrow> bool" where
  "in_segment p x \<longleftrightarrow> unat (p_paddr p) \<le> unat x \<and> unat x < unat (p_paddr p) + unat (p_memsz p)"

lemma unat_offset: "unat a + i < 2 ^ 32 \<Longrightarrow> unat (a + of_nat i :: u32) = unat a + i"
  by (simp add: unat_plus unsigned_of_nat take_bit_nat_eq_self)

lemma load_phdr_ok:
  assumes "segment_fits p"
  shows "\<exists>m'. load_phdr d p m = Some m' \<and> segment_at d p m' \<and> (\<forall>x. \<not> touched p x \<longrightarrow> m' x = m x)"
proof -
  let ?f = "unat (p_filesz p)" and ?M = "unat (p_memsz p)" and ?a = "unat (p_paddr p)"
  have le: "?f \<le> ?M" and top: "?a + ?M + 512 < 2 ^ 32" and off: "unat (p_offset p) + 1536 < 2 ^ 31"
    and cong: "?a mod 512 = unat (p_offset p) mod 512" using assms by (auto simp: segment_fits_def)
  have so: "sint (p_offset p) = int (unat (p_offset p))"
  proof -
    have "int (unat (p_offset p)) < int (2 ^ 31)" using off unfolding of_nat_less_iff by linarith
    then have u: "uint (p_offset p) < 2 ^ 31" by simp
    have "- (2 ^ 31 :: int) \<le> 0" by simp
    then have l: "- (2 ^ 31) \<le> uint (p_offset p)" using uint_ge_0 by (rule order_trans)
    show ?thesis using signed_take_bit_int_eq_self [OF l u] by (simp add: sint_uint)
  qed
  obtain m1 where m1: "copy_from_disk d (p_paddr p) (p_filesz p) (int (unat (p_offset p))) m = Some m1"
    and content: "\<And>i. i < ?f \<Longrightarrow> m1 (p_paddr p + of_nat i) = image_byte d (unat (p_offset p) + i)"
    and frame: "\<And>x. unat x + 512 \<le> ?a \<or> ?a + ?f + 511 \<le> unat x \<Longrightarrow> m1 x = m x"
    using copy_from_disk_ok [of "p_paddr p" "p_filesz p" "unat (p_offset p)" d m] top le off cong by auto
  let ?m = "bss_loop (p_paddr p + p_filesz p) (p_filesz p) (p_memsz p) m1"
  have b: "unat (p_paddr p + p_filesz p) = ?a + ?f" using top le by (simp add: unat_plus)
  have n: "unat (p_memsz p - p_filesz p) = ?M - ?f" using le by (simp add: unat_sub_if')
  have zero: "?m x = (if ?a + ?f \<le> unat x \<and> unat x < ?a + ?M then 0 else m1 x)" for x
  proof -
    have x: "unat x < 2 ^ 32" using unsigned_less [of x] by simp
    have "unat (x - (p_paddr p + p_filesz p)) < ?M - ?f \<longleftrightarrow> ?a + ?f \<le> unat x \<and> unat x < ?a + ?M"
      using le top x by (simp add: unat_sub_if' b) linarith
    then show ?thesis by (simp add: bss_loop_at n)
  qed
  have "segment_at d p ?m" unfolding segment_at_def
    using unat_offset [of "p_paddr p"] zero content top by auto
  moreover have "?m x = m x" if "\<not> touched p x" for x
    using that zero [of x] frame [of x] by (auto simp: touched_def)
  moreover have "load_phdr d p m = Some ?m" using m1 by (simp add: load_phdr_def load_program_def so)
  ultimately show ?thesis by blast
qed

subsection \<open>Program headers\<close>

definition ld16 :: "bmem \<Rightarrow> u32 \<Rightarrow> u16" where
  "ld16 m a = ucast (m a) OR push_bit 8 (ucast (m (a + 1)))"

definition ld32 :: "bmem \<Rightarrow> u32 \<Rightarrow> u32" where
  "ld32 m a = ucast (m a) OR push_bit 8 (ucast (m (a + 1))) OR push_bit 16 (ucast (m (a + 2))) OR push_bit 24 (ucast (m (a + 3)))"

text \<open>Fields of the ELF headers, at the offsets of the ELF format. The 64-bit fields are used through
  casts to 32 bits and pointer arithmetic on 32 bits: their lower halves.\<close>

definition e_machine :: "bmem \<Rightarrow> u32 \<Rightarrow> u16" where "e_machine m e = ld16 m (e + 18)"
definition e_entry :: "bmem \<Rightarrow> u32 \<Rightarrow> u32" where "e_entry m e = ld32 m (e + 24)"
definition e_phoff32 :: "bmem \<Rightarrow> u32 \<Rightarrow> u32" where "e_phoff32 m e = ld32 m (e + 28)"
definition e_phoff64 :: "bmem \<Rightarrow> u32 \<Rightarrow> u32" where "e_phoff64 m e = ld32 m (e + 32)"
definition e_phnum32 :: "bmem \<Rightarrow> u32 \<Rightarrow> nat" where "e_phnum32 m e = unat (ld16 m (e + 44))"
definition e_phnum64 :: "bmem \<Rightarrow> u32 \<Rightarrow> nat" where "e_phnum64 m e = unat (ld16 m (e + 56))"

definition phdr32 :: "bmem \<Rightarrow> u32 \<Rightarrow> phdr" where
  "phdr32 m a = \<lparr>p_filesz = ld32 m (a + 16), p_memsz = ld32 m (a + 20), p_paddr = ld32 m (a + 12), p_offset = ld32 m (a + 4)\<rparr>"

definition phdr64 :: "bmem \<Rightarrow> u32 \<Rightarrow> phdr" where
  "phdr64 m a = \<lparr>p_filesz = ld32 m (a + 32), p_memsz = ld32 m (a + 40), p_paddr = ld32 m (a + 24), p_offset = ld32 m (a + 8)\<rparr>"

text \<open>The loops read the number of headers and the next header from memory each time round.\<close>

lemma e_phnum32_le: "e_phnum32 m e < 65536"
  unfolding e_phnum32_def using unsigned_less [of "ld16 m (e + 44)"] by simp

lemma e_phnum64_le: "e_phnum64 m e < 65536"
  unfolding e_phnum64_def using unsigned_less [of "ld16 m (e + 56)"] by simp

function elf64_loop :: "disk \<Rightarrow> u32 \<Rightarrow> nat \<Rightarrow> u32 \<Rightarrow> bmem \<Rightarrow> bmem option" where
  "elf64_loop d elf i ph m =
     (if i < e_phnum64 m elf
      then (case load_phdr d (phdr64 m ph) m of None \<Rightarrow> None | Some m' \<Rightarrow> elf64_loop d elf (Suc i) (ph + 56) m')
      else Some m)"
  by auto
termination by (relation "measure (\<lambda>(_, _, i, _, _). 65536 - i)")
  (auto dest: order.strict_trans [OF _ e_phnum64_le])

function elf32_loop :: "disk \<Rightarrow> u32 \<Rightarrow> nat \<Rightarrow> u32 \<Rightarrow> bmem \<Rightarrow> bmem option" where
  "elf32_loop d elf i ph m =
     (if i < e_phnum32 m elf
      then (case load_phdr d (phdr32 m ph) m of None \<Rightarrow> None | Some m' \<Rightarrow> elf32_loop d elf (Suc i) (ph + 32) m')
      else Some m)"
  by auto
termination by (relation "measure (\<lambda>(_, _, i, _, _). 65536 - i)")
  (auto dest: order.strict_trans [OF _ e_phnum32_le])

declare elf64_loop.simps [simp del] elf32_loop.simps [simp del]

definition load_elf64 :: "disk \<Rightarrow> u32 \<Rightarrow> bmem \<Rightarrow> bmem option" where
  "load_elf64 d elf m = elf64_loop d elf 0 (elf + e_phoff64 m elf) m"

definition load_elf32 :: "disk \<Rightarrow> u32 \<Rightarrow> bmem \<Rightarrow> bmem option" where
  "load_elf32 d elf m = elf32_loop d elf 0 (elf + e_phoff32 m elf) m"

text \<open>
  The two loops are one algorithm over two layouts. A layout reads the number of headers from the
  \<open>hsize\<close> bytes of the file header, and a program header from \<open>psize\<close> bytes.
\<close>

definition header_page :: "u32 \<Rightarrow> bool" where
  "header_page x \<longleftrightarrow> unat (x - 0x8000) < 4096"

text \<open>Segments that can be loaded one after the other: none disturbs the header page or the
  memory of an earlier one.\<close>

definition loadable :: "phdr list \<Rightarrow> bool" where
  "loadable ps \<longleftrightarrow> (\<forall>i < length ps. segment_fits (ps ! i) \<and>
     (\<forall>x. touched (ps ! i) x \<longrightarrow> \<not> header_page x \<and> (\<forall>k < i. \<not> in_segment (ps ! k) x)))"

locale elf_class =
  fixes loop :: "disk \<Rightarrow> u32 \<Rightarrow> nat \<Rightarrow> u32 \<Rightarrow> bmem \<Rightarrow> bmem option"
    and phnum :: "bmem \<Rightarrow> u32 \<Rightarrow> nat" and ph_at :: "bmem \<Rightarrow> u32 \<Rightarrow> phdr" and hsize :: nat and psize :: nat
  assumes loop_eq: "loop d e i ph m =
      (if i < phnum m e then (case load_phdr d (ph_at m ph) m of None \<Rightarrow> None | Some m' \<Rightarrow> loop d e (Suc i) (ph + of_nat psize) m')
       else Some m)"
    and phnum_local: "(\<And>j. j < hsize \<Longrightarrow> m' (e + of_nat j) = m (e + of_nat j)) \<Longrightarrow> phnum m' e = phnum m e"
    and ph_local: "(\<And>j. j < psize \<Longrightarrow> m' (a + of_nat j) = m (a + of_nat j)) \<Longrightarrow> ph_at m' a = ph_at m a"
begin

definition table :: "bmem \<Rightarrow> u32 \<Rightarrow> nat \<Rightarrow> phdr" where
  "table m ph i = ph_at m (ph + of_nat (psize * i))"

text \<open>The header and the table lie in the page that was read in first.\<close>

definition in_page :: "bmem \<Rightarrow> u32 \<Rightarrow> u32 \<Rightarrow> bool" where
  "in_page m e ph \<longleftrightarrow> (\<forall>j < hsize. header_page (e + of_nat j)) \<and>
     (\<forall>k < phnum m e. \<forall>j < psize. header_page (ph + of_nat (psize * k + j)))"

definition segs :: "bmem \<Rightarrow> u32 \<Rightarrow> u32 \<Rightarrow> phdr list" where
  "segs m e ph = map (table m ph) [0 ..< phnum m e]"

lemma length_segs [simp]: "length (segs m e ph) = phnum m e"
  by (simp add: segs_def)

lemma segs_nth [simp]: "i < phnum m e \<Longrightarrow> segs m e ph ! i = table m ph i"
  by (simp add: segs_def)

lemma header_agrees:
  assumes "in_page m0 e ph" "\<And>x. header_page x \<Longrightarrow> m x = m0 x"
  shows "phnum m e = phnum m0 e" and "i < phnum m0 e \<Longrightarrow> table m ph i = table m0 ph i"
proof -
  show "phnum m e = phnum m0 e" using assms by (auto intro: phnum_local simp: in_page_def)
  have "m (ph + of_nat (psize * i) + of_nat j) = m0 (ph + of_nat (psize * i) + of_nat j)" if "i < phnum m0 e" "j < psize" for j
    using assms that unfolding in_page_def by (metis add.assoc of_nat_add)
  then show "i < phnum m0 e \<Longrightarrow> table m ph i = table m0 ph i" unfolding table_def by (blast intro: ph_local)
qed

lemma loop_ok:
  assumes L: "loadable (segs m0 e ph)" and I: "in_page m0 e ph" and "i \<le> phnum m0 e"
    and old: "\<And>x. header_page x \<Longrightarrow> m x = m0 x"
    and done_: "\<And>k. k < i \<Longrightarrow> segment_at d (table m0 ph k) m"
  shows "\<exists>m'. loop d e i (ph + of_nat (psize * i)) m = Some m' \<and> (\<forall>k < phnum m0 e. segment_at d (table m0 ph k) m') \<and>
    (\<forall>x. header_page x \<longrightarrow> m' x = m0 x)"
  using assms(3) old done_
proof (induction "phnum m0 e - i" arbitrary: i m)
  case 0
  then have "phnum m e = phnum m0 e" "i = phnum m0 e" using header_agrees(1) [OF I 0(3)] by simp_all
  then show ?case using 0 by (subst loop_eq) auto
next
  case (Suc n)
  let ?p = "table m0 ph i"
  have i: "i < phnum m0 e" using Suc(2) by simp
  have fits: "segment_fits (table m0 ph k)" if "k \<le> i" for k
    using L i that by (auto simp: loadable_def)
  have quiet: "\<not> header_page x" "k < i \<Longrightarrow> \<not> in_segment (table m0 ph k) x" if "touched ?p x" for x k
    using L i that by (auto simp: loadable_def)
  obtain m1 where m1: "load_phdr d ?p m = Some m1" "segment_at d ?p m1" and fr: "\<And>x. \<not> touched ?p x \<Longrightarrow> m1 x = m x"
    using load_phdr_ok [OF fits] by blast
  have step: "loop d e i (ph + of_nat (psize * i)) m = loop d e (Suc i) (ph + of_nat (psize * Suc i)) m1"
    using i header_agrees [OF I Suc(4)] m1(1) by (subst loop_eq) (simp add: add_ac table_def)
  have seg: "segment_at d (table m0 ph k) m1" if "k < Suc i" for k
  proof (cases "k = i")
    case False
    with that have k: "k < i" by simp
    have "m1 (p_paddr (table m0 ph k) + of_nat j) = m (p_paddr (table m0 ph k) + of_nat j)"
      if j: "j < unat (p_memsz (table m0 ph k))" for j
    proof (rule fr)
      have "in_segment (table m0 ph k) (p_paddr (table m0 ph k) + of_nat j)"
        using j fits [of k] k unat_offset [of "p_paddr (table m0 ph k)" j] by (auto simp: in_segment_def segment_fits_def)
      then show "\<not> touched ?p (p_paddr (table m0 ph k) + of_nat j)" using quiet(2) k by blast
    qed
    then show ?thesis using Suc(5) [OF k] by (simp add: segment_at_def)
  qed (use m1 in simp)
  have "m1 x = m0 x" if "header_page x" for x using that Suc(4) fr quiet(1) by metis
  then show ?case unfolding step
    by (intro Suc(1)) (use Suc(2) i seg in auto)
qed

lemma load_ok:
  assumes "loadable (segs m0 e ph)" and I: "in_page m0 e ph" and m: "\<And>x. header_page x \<Longrightarrow> m x = m0 x"
  shows "\<exists>m'. loop d e 0 ph m = Some m' \<and> (\<forall>p \<in> set (segs m0 e ph). segment_at d p m') \<and>
    (\<forall>x. header_page x \<longrightarrow> m' x = m0 x)"
  using loop_ok [OF assms(1,2), of 0 m d] m by (auto simp: segs_def)

end

lemma ld16_local:
  assumes "\<And>j. j < k + 2 \<Longrightarrow> m' (a + of_nat j) = m (a + of_nat j)"
  shows "ld16 m' (a + of_nat k) = ld16 m (a + of_nat k)"
proof -
  have "m' (a + of_nat k + of_nat i) = m (a + of_nat k + of_nat i)" if "i < 2" for i
    using assms [of "k + i"] that by (simp add: add.assoc)
  from this [of 0] this [of 1] show ?thesis by (simp add: ld16_def)
qed

lemma ld32_local:
  assumes "\<And>j. j < k + 4 \<Longrightarrow> m' (a + of_nat j) = m (a + of_nat j)"
  shows "ld32 m' (a + of_nat k) = ld32 m (a + of_nat k)"
proof -
  have "m' (a + of_nat k + of_nat i) = m (a + of_nat k + of_nat i)" if "i < 4" for i
    using assms [of "k + i"] that by (simp add: add.assoc)
  from this [of 0] this [of 1] this [of 2] this [of 3] show ?thesis by (simp add: ld32_def)
qed

interpretation elf32: elf_class elf32_loop e_phnum32 phdr32 52 32
proof
  show "e_phnum32 m' e = e_phnum32 m e" if "\<And>j. j < 52 \<Longrightarrow> m' (e + of_nat j) = m (e + of_nat j)" for m m' e
    using ld16_local [of 44 m' e m] that by (simp add: e_phnum32_def)
  show "phdr32 m' a = phdr32 m a" if "\<And>j. j < 32 \<Longrightarrow> m' (a + of_nat j) = m (a + of_nat j)" for m m' a
    using ld32_local [of 4 m' a m] ld32_local [of 12 m' a m] ld32_local [of 16 m' a m] ld32_local [of 20 m' a m] that
    by (simp add: phdr32_def)
qed (subst elf32_loop.simps, simp cong: option.case_cong)

interpretation elf64: elf_class elf64_loop e_phnum64 phdr64 64 56
proof
  show "e_phnum64 m' e = e_phnum64 m e" if "\<And>j. j < 64 \<Longrightarrow> m' (e + of_nat j) = m (e + of_nat j)" for m m' e
    using ld16_local [of 56 m' e m] that by (simp add: e_phnum64_def)
  show "phdr64 m' a = phdr64 m a" if "\<And>j. j < 56 \<Longrightarrow> m' (a + of_nat j) = m (a + of_nat j)" for m m' a
    using ld32_local [of 8 m' a m] ld32_local [of 24 m' a m] ld32_local [of 32 m' a m] ld32_local [of 40 m' a m] that
    by (simp add: phdr64_def)
qed (subst elf64_loop.simps, simp cong: option.case_cong)

subsection \<open>The kernel\<close>

text \<open>
  \<^verbatim>\<open>boot_record()->is_ap\<close> and \<^verbatim>\<open>MAINARG_ADDR\<close> come from the hardware abstraction
  layer's header, so they are parameters. The result is the memory and the address that is called.
\<close>

definition EM_X86_64 :: u16 where "EM_X86_64 = 62"

definition load_kernel :: "bool \<Rightarrow> u32 \<Rightarrow> disk \<Rightarrow> bmem \<Rightarrow> (bmem \<times> u32) option" where
  "load_kernel is_ap mainarg d m =
     (let elf = 0x8000;
          loaded = (if \<not> is_ap then do {
              m1 \<leftarrow> copy_from_disk d mainarg 1024 (-1024) m;
              m2 \<leftarrow> copy_from_disk d elf 4096 0 m1;
              if e_machine m2 elf = EM_X86_64 then load_elf64 d elf m2 else load_elf32 d elf m2
            } else Some m)
      in map_option (\<lambda>m. (m, if e_machine m elf = EM_X86_64 then e_entry m elf else e_entry m elf)) loaded)"

text \<open>The file on disk as it would lie at the address of its header, and its table of segments.\<close>

definition image_mem :: "disk \<Rightarrow> bmem" where
  "image_mem d x = image_byte d (unat (x - 0x8000))"

definition segments :: "disk \<Rightarrow> phdr list" where
  "segments d = (let m = image_mem d; e = 0x8000 in
     if e_machine m e = EM_X86_64
     then map (\<lambda>i. phdr64 m (e + e_phoff64 m e + of_nat (56 * i))) [0 ..< e_phnum64 m e]
     else map (\<lambda>i. phdr32 m (e + e_phoff32 m e + of_nat (32 * i))) [0 ..< e_phnum32 m e])"

definition headers_in_page :: "disk \<Rightarrow> bool" where
  "headers_in_page d = (let m = image_mem d; e = 0x8000 in
     if e_machine m e = EM_X86_64
     then unat (e_phoff64 m e) + 56 * e_phnum64 m e \<le> 4096 else unat (e_phoff32 m e) + 32 * e_phnum32 m e \<le> 4096)"

lemma header_page_offset: "k < 4096 \<Longrightarrow> header_page (0x8000 + of_nat k)"
  by (simp add: header_page_def unsigned_of_nat take_bit_nat_eq_self)

lemma header_page_table:
  assumes "unat off + n * k \<le> 4096" "i < k" "j < n"
  shows "header_page (0x8000 + off + of_nat (n * i + j))"
proof -
  have "n * i + n \<le> n * k" using assms(2) by (metis Suc_leI mult_Suc_right add.commute mult_le_mono2)
  then have "header_page (0x8000 + of_nat (unat off + (n * i + j)))" using assms by (intro header_page_offset) linarith
  then show ?thesis by (simp add: add.assoc)
qed

lemma page_loaded:
  assumes "unat mainarg + 1536 < 2 ^ 32"
  shows "\<exists>m1 m2. copy_from_disk d mainarg 1024 (-1024) m = Some m1 \<and> copy_from_disk d 0x8000 4096 0 m1 = Some m2 \<and>
    (\<forall>x. header_page x \<longrightarrow> m2 x = image_mem d x)"
proof -
  obtain m1 where m1: "copy_from_disk d mainarg 1024 (-1024) m = Some m1"
    using copy_from_disk_sectors [of mainarg 1024 "-1024" d m] assms by (auto simp: disk_sector_args)
  obtain m2 where m2: "copy_from_disk d 0x8000 4096 0 m1 = Some m2" "\<And>i. i < 4096 \<Longrightarrow> m2 (0x8000 + of_nat i) = image_byte d i"
    using copy_from_disk_ok [of "0x8000" 4096 0 d m1] by auto
  have "m2 x = image_mem d x" if "header_page x" for x
    using m2(2) [of "unat (x - 0x8000)"] that by (simp add: header_page_def image_mem_def)
  then show ?thesis using m1 m2(1) by blast
qed

lemma e_machine_agrees: "(\<And>x. header_page x \<Longrightarrow> m x = m' x) \<Longrightarrow> e_machine m 0x8000 = e_machine m' 0x8000"
  using ld16_local [of 18 m "0x8000" m'] by (simp add: e_machine_def header_page_offset)

lemma e_entry_agrees: "(\<And>x. header_page x \<Longrightarrow> m x = m' x) \<Longrightarrow> e_entry m 0x8000 = e_entry m' 0x8000"
  using ld32_local [of 24 m "0x8000" m'] by (simp add: e_entry_def header_page_offset)

lemma load_elf_ok:
  assumes P: "headers_in_page d" and L: "loadable (segments d)" and m: "\<And>x. header_page x \<Longrightarrow> m x = image_mem d x"
  shows "\<exists>m'. (if e_machine m 0x8000 = EM_X86_64 then load_elf64 d 0x8000 m else load_elf32 d 0x8000 m) = Some m' \<and>
    (\<forall>p \<in> set (segments d). segment_at d p m') \<and> (\<forall>x. header_page x \<longrightarrow> m' x = image_mem d x)"
proof (cases "e_machine (image_mem d) 0x8000 = EM_X86_64")
  case True
  let ?ph = "0x8000 + e_phoff64 (image_mem d) 0x8000"
  have s: "segments d = elf64.segs (image_mem d) 0x8000 ?ph"
    using True by (simp add: segments_def elf64.segs_def elf64.table_def Let_def)
  have "elf64.in_page (image_mem d) 0x8000 ?ph"
    using True P by (auto simp: elf64.in_page_def headers_in_page_def Let_def simp del: of_nat_add of_nat_mult intro!: header_page_offset header_page_table)
  moreover have "e_phoff64 m 0x8000 = e_phoff64 (image_mem d) 0x8000"
    using ld32_local [of 32 m "0x8000" "image_mem d"] m by (simp add: e_phoff64_def header_page_offset)
  ultimately show ?thesis using elf64.load_ok [of "image_mem d" "0x8000" ?ph m d] True L m e_machine_agrees [of m "image_mem d"]
    by (simp add: s load_elf64_def)
next
  case False
  let ?ph = "0x8000 + e_phoff32 (image_mem d) 0x8000"
  have s: "segments d = elf32.segs (image_mem d) 0x8000 ?ph"
    using False by (simp add: segments_def elf32.segs_def elf32.table_def Let_def)
  have "elf32.in_page (image_mem d) 0x8000 ?ph"
    using False P by (auto simp: elf32.in_page_def headers_in_page_def Let_def simp del: of_nat_add of_nat_mult intro!: header_page_offset header_page_table)
  moreover have "e_phoff32 m 0x8000 = e_phoff32 (image_mem d) 0x8000"
    using ld32_local [of 28 m "0x8000" "image_mem d"] m by (simp add: e_phoff32_def header_page_offset)
  ultimately show ?thesis using elf32.load_ok [of "image_mem d" "0x8000" ?ph m d] False L m e_machine_agrees [of m "image_mem d"]
    by (simp add: s load_elf32_def)
qed

text \<open>
  C23: the boot processor loads the kernel: for an ELF file of either class whose header and program
  headers lie in the first 4096 bytes and whose segments can be loaded one after the other,
  \<^verbatim>\<open>load_kernel\<close> ends and calls the file's entry point with every segment in memory, its
  file bytes from the disk and zeros for the rest.
\<close>

theorem load_kernel_ok:
  assumes "unat mainarg + 1536 < 2 ^ 32" "headers_in_page d" "loadable (segments d)"
  shows "\<exists>m'. load_kernel False mainarg d m = Some (m', e_entry (image_mem d) 0x8000) \<and>
    (\<forall>p \<in> set (segments d). segment_at d p m')"
proof -
  obtain m1 m2 where m: "copy_from_disk d mainarg 1024 (-1024) m = Some m1" "copy_from_disk d 0x8000 4096 0 m1 = Some m2"
    and page: "\<And>x. header_page x \<Longrightarrow> m2 x = image_mem d x" using page_loaded [OF assms(1)] by blast
  obtain m' where m': "(if e_machine m2 0x8000 = EM_X86_64 then load_elf64 d 0x8000 m2 else load_elf32 d 0x8000 m2) = Some m'"
    "\<forall>p \<in> set (segments d). segment_at d p m'" "\<And>x. header_page x \<Longrightarrow> m' x = image_mem d x"
    using load_elf_ok [OF assms(2,3) page] by blast
  have "e_entry m' 0x8000 = e_entry (image_mem d) 0x8000" by (rule e_entry_agrees) (rule m'(3))
  then show ?thesis using m m'(1,2) by (simp add: load_kernel_def Let_def)
qed

text \<open>A disk with a 32-bit file of one segment: four bytes of the second page, eight in memory.\<close>

definition demo_disk :: disk where
  "demo_disk lba i =
     (if lba = 3 then (if i = 4 then 0x30002 else if i = 6 then 0x100000 else if i = 7 then 52 else if i = 11 then 1
        else if i = 14 then 0x1000 else if i = 16 then 0x100000 else if i = 17 then 4 else if i = 18 then 8 else 0)
      else if lba = 11 \<and> i = 0 then 0xdeadbeef else 0)"

theorem load_kernel_ok_witness:
  "segments demo_disk = [\<lparr>p_filesz = 4, p_memsz = 8, p_paddr = 0x100000, p_offset = 0x1000\<rparr>] \<and>
   (\<exists>m'. load_kernel False 0x7e00 demo_disk (\<lambda>_. 0xff) = Some (m', 0x100000) \<and> m' 0x100000 = 0xef \<and> m' 0x100007 = 0)"
proof -
  let ?p = "\<lparr>p_filesz = 4, p_memsz = 8, p_paddr = 0x100000, p_offset = 0x1000 :: u32\<rparr>"
  have m: "e_machine (image_mem demo_disk) 0x8000 = 3" "e_entry (image_mem demo_disk) 0x8000 = 0x100000"
    "e_phoff32 (image_mem demo_disk) 0x8000 = 52" "e_phnum32 (image_mem demo_disk) 0x8000 = 1"
    by code_simp+
  have p: "phdr32 (image_mem demo_disk) (0x8000 + 52) = ?p" by code_simp
  have s: "segments demo_disk = [?p]" by (simp add: segments_def Let_def m EM_X86_64_def p [simplified])
  have "headers_in_page demo_disk" by (simp add: headers_in_page_def Let_def m EM_X86_64_def)
  moreover have "loadable (segments demo_disk)"
    by (auto simp: s loadable_def segment_fits_def touched_def header_page_def unat_sub_if')
  ultimately obtain m' where m': "load_kernel False 0x7e00 demo_disk (\<lambda>_. 0xff) = Some (m', 0x100000)" "segment_at demo_disk ?p m'"
    using load_kernel_ok [of "0x7e00" demo_disk "\<lambda>_. 0xff"] m(2) s by auto
  have "image_byte demo_disk 0x1000 = 0xef" by code_simp
  then have "m' 0x100000 = 0xef" "m' 0x100007 = 0"
    using m'(2) [unfolded segment_at_def, THEN spec [of _ 0]] m'(2) [unfolded segment_at_def, THEN spec [of _ 7]] by simp_all
  then show ?thesis using m'(1) s by blast
qed

end
