(* ===== verification/Midterm.thy ===== *)
theory Midterm
  imports Sync
begin

text \<open>
  The midterm programs (\<^verbatim>\<open>concurrency/midterm\<close>): add up \<open>f x\<close> for all numbers
  \<open>x\<close> of the standard input, on several threads. This theory holds what the three solutions
  share, the locked addition to the sum, and the solution \<^verbatim>\<open>midterm-v2.c\<close>, in which
  every thread reads for itself. The input is the list of the numbers that \<^verbatim>\<open>scanf\<close>
  delivers (\<^verbatim>\<open>feof\<close> is true only when none is left). Shown: for every number of threads
  the program ends under every scheduling, without a deadlock, and with the right sum.
\<close>

subsection \<open>The number cruncher\<close>

text \<open>\<^verbatim>\<open>foo.c\<close>, without its delay. The programs are compiled with any \<open>f\<close>.\<close>

definition foo_f :: "int \<Rightarrow> int" where
  "foo_f x = x"

subsection \<open>Adding to the sum under its mutex\<close>

datatype add_pc = AIdle | ALock | ALoad | AStore | AUnlock

record adder =
  sum_lk :: mutex
  asum :: int
  apc :: "tid \<Rightarrow> add_pc"
  ares :: "tid \<Rightarrow> int"
  areg :: "tid \<Rightarrow> int"

definition adder0 :: adder where
  "adder0 = \<lparr>sum_lk = None, asum = 0, apc = (\<lambda>_. AIdle), ares = (\<lambda>_. 0), areg = (\<lambda>_. 0)\<rparr>"

text \<open>A thread with a result arrives at the lock; the steps of \<open>mutex_lock\<close>, \<open>sum += res\<close>
  (a load and a store) and \<open>mutex_unlock\<close>. \<open>None\<close>: blocked at the mutex.\<close>

definition sum_enter :: "tid \<Rightarrow> int \<Rightarrow> adder \<Rightarrow> adder" where
  "sum_enter t res a = a\<lparr>apc := (apc a)(t := ALock), ares := (ares a)(t := res)\<rparr>"

definition sum_add :: "tid \<Rightarrow> adder \<Rightarrow> adder option" where
  "sum_add t a =
     (case apc a t of
        AIdle \<Rightarrow> None
      | ALock \<Rightarrow> (let (ok, k) = mutex_lock t (sum_lk a)
                  in if ok then Some (a\<lparr>sum_lk := k, apc := (apc a)(t := ALoad)\<rparr>) else None)
      | ALoad \<Rightarrow> Some (a\<lparr>areg := (areg a)(t := asum a), apc := (apc a)(t := AStore)\<rparr>)
      | AStore \<Rightarrow> Some (a\<lparr>asum := areg a t + ares a t, apc := (apc a)(t := AUnlock)\<rparr>)
      | AUnlock \<Rightarrow> Some (a\<lparr>sum_lk := mutex_unlock t (sum_lk a), apc := (apc a)(t := AIdle)\<rparr>))"

text \<open>What a thread in the section will still add.\<close>

definition pend :: "adder \<Rightarrow> tid \<Rightarrow> int" where
  "pend a t = (if apc a t \<in> {ALock, ALoad, AStore} then ares a t else 0)"

definition adder_inv :: "tid set \<Rightarrow> adder \<Rightarrow> bool" where
  "adder_inv T a \<longleftrightarrow> (\<forall>t. sum_lk a = Some t \<longleftrightarrow> apc a t \<in> {ALoad, AStore, AUnlock}) \<and>
     (\<forall>t. apc a t = AStore \<longrightarrow> areg a t = asum a) \<and> (\<forall>t. apc a t \<noteq> AIdle \<longrightarrow> t \<in> T)"

definition promised :: "tid set \<Rightarrow> adder \<Rightarrow> int" where
  "promised T a = asum a + (\<Sum>t\<in>T. pend a t)"

lemma adder0_inv: "adder_inv T adder0"
  by (simp add: adder_inv_def adder0_def)

lemma adder0_promised: "promised T adder0 = 0"
  by (simp add: promised_def adder0_def pend_def)

lemma sum_enter_apc [simp]: "apc (sum_enter t r a) u = (if u = t then ALock else apc a u)"
  by (simp add: sum_enter_def)

lemma sum_enter_inv: "adder_inv T a \<Longrightarrow> apc a t = AIdle \<Longrightarrow> t \<in> T \<Longrightarrow> adder_inv T (sum_enter t r a)"
  by (auto simp: adder_inv_def sum_enter_def)

lemma sum_enter_promised:
  assumes "finite T" "t \<in> T" "apc a t = AIdle"
  shows "promised T (sum_enter t r a) = promised T a + r"
proof -
  have "(\<Sum>u\<in>T. pend (sum_enter t r a) u) = (\<Sum>u\<in>T. pend a u) - pend a t + pend (sum_enter t r a) t"
    using assms by (intro sum_change_one) (auto simp: pend_def sum_enter_def)
  then show ?thesis using assms(3) by (simp add: promised_def pend_def sum_enter_def)
qed

lemma sum_add_frame: "sum_add t a = Some a' \<Longrightarrow> u \<noteq> t \<Longrightarrow> apc a' u = apc a u \<and> pend a' u = pend a u"
  by (auto simp: sum_add_def pend_def split: add_pc.splits prod.splits if_splits)

lemma sum_add_inv:
  assumes inv: "adder_inv T a" and step: "sum_add t a = Some a'"
  shows "adder_inv T a'"
proof -
  have own: "u = t" if "apc a u \<in> {ALoad, AStore, AUnlock}" "apc a t \<in> {ALoad, AStore, AUnlock}" for u
    using inv that unfolding adder_inv_def by (metis option.inject)
  have free: "apc a u \<notin> {ALoad, AStore, AUnlock}" if "sum_lk a = None" for u
    using inv that unfolding adder_inv_def by (metis option.distinct(1))
  show ?thesis
  proof (cases "apc a t")
    case ALock
    then show ?thesis using inv step free
      by (auto simp: sum_add_def adder_inv_def mutex_lock_def split: option.splits if_splits)
  next
    case AStore
    then have "apc a u \<noteq> AStore" if "u \<noteq> t" for u using own [of u] that by auto
    then show ?thesis using AStore inv step by (auto simp: sum_add_def adder_inv_def split: if_splits)
  next
    case AUnlock
    then have "\<not> apc a u \<in> {ALoad, AStore, AUnlock}" if "u \<noteq> t" for u using own [of u] that by auto
    then show ?thesis using AUnlock inv step by (auto simp: sum_add_def adder_inv_def mutex_unlock_def split: if_splits)
  qed (use inv step in \<open>auto simp: sum_add_def adder_inv_def split: if_splits\<close>)
qed

lemma sum_add_promised:
  assumes "finite T" "adder_inv T a" "sum_add t a = Some a'"
  shows "promised T a' = promised T a"
proof -
  have t: "t \<in> T" using assms(2,3) by (auto simp: sum_add_def adder_inv_def split: add_pc.splits)
  have "(\<Sum>u\<in>T. pend a' u) = (\<Sum>u\<in>T. pend a u) - pend a t + pend a' t"
    using assms t by (intro sum_change_one) (auto dest: sum_add_frame)
  moreover have "asum a' + pend a' t = asum a + pend a t"
    using assms(2,3) by (auto simp: sum_add_def pend_def adder_inv_def split: add_pc.splits prod.splits if_splits)
  ultimately show ?thesis by (simp add: promised_def)
qed

lemma promised_idle: "(\<And>t. t \<in> T \<Longrightarrow> apc a t = AIdle) \<Longrightarrow> promised T a = asum a"
  by (simp add: promised_def pend_def)

text \<open>Somebody in the section can always go on.\<close>

lemma adder_live:
  assumes "adder_inv T a" "apc a t \<noteq> AIdle"
  shows "\<exists>u \<in> T. apc a u \<noteq> AIdle \<and> sum_add u a \<noteq> None"
proof (cases "sum_lk a")
  case None
  then have "apc a t = ALock" using assms unfolding adder_inv_def
    by (metis add_pc.exhaust insert_iff option.distinct(1))
  then have "sum_add t a \<noteq> None" using None by (simp add: sum_add_def mutex_lock_def)
  then show ?thesis using assms by (auto simp: adder_inv_def)
next
  case (Some u)
  then have u: "apc a u \<in> {ALoad, AStore, AUnlock}" using assms(1) by (auto simp: adder_inv_def)
  then have "sum_add u a \<noteq> None" "apc a u \<noteq> AIdle" by (auto simp: sum_add_def)
  moreover have "u \<in> T" using calculation(2) assms(1) by (simp add: adder_inv_def)
  ultimately show ?thesis by blast
qed

subsection \<open>midterm-v2.c\<close>

datatype v2_pc = HRead | HCall | HSum | HDone

record v2c =
  v2in :: "int list"
  v2x :: "tid \<Rightarrow> int"
  v2pc :: "tid \<Rightarrow> v2_pc"
  v2sum :: adder

definition v2_init :: "int list \<Rightarrow> v2c" where
  "v2_init xs = \<lparr>v2in = xs, v2x = (\<lambda>_. 0), v2pc = (\<lambda>_. HRead), v2sum = adder0\<rparr>"

definition handler :: "(int \<Rightarrow> int) \<Rightarrow> tid \<Rightarrow> v2c \<Rightarrow> v2c option" where
  "handler f t c =
     (case v2pc c t of
        HRead \<Rightarrow> (case v2in c of
            [] \<Rightarrow> Some (c\<lparr>v2pc := (v2pc c)(t := HDone)\<rparr>)
          | x # xs \<Rightarrow> Some (c\<lparr>v2in := xs, v2x := (v2x c)(t := x), v2pc := (v2pc c)(t := HCall)\<rparr>))
      | HCall \<Rightarrow> Some (c\<lparr>v2sum := sum_enter t (f (v2x c t)) (v2sum c), v2pc := (v2pc c)(t := HSum)\<rparr>)
      | HSum \<Rightarrow> (case sum_add t (v2sum c) of
            None \<Rightarrow> None
          | Some a \<Rightarrow> Some (c\<lparr>v2sum := a, v2pc := (v2pc c)(t := if apc a t = AIdle then HRead else HSum)\<rparr>))
      | HDone \<Rightarrow> None)"

text \<open>\<open>join\<close> and the rest of \<open>main\<close>, after \<open>k\<close> threads were created: nothing while one of them is still running, then the
  printed sum.\<close>

fun v2_join :: "nat \<Rightarrow> v2c \<Rightarrow> bool" where
  "v2_join 0 c \<longleftrightarrow> True"
| "v2_join (Suc k) c \<longleftrightarrow> v2_join k c \<and> v2pc c (Suc k) = HDone"

definition v2_main :: "nat \<Rightarrow> v2c \<Rightarrow> int option" where
  "v2_main k c = (if v2_join k c then Some (asum (v2sum c)) else None)"

lemma v2_join_all: "v2_join k c \<longleftrightarrow> (\<forall>t \<in> {1..k}. v2pc c t = HDone)"
  by (induction k) (auto simp: atLeastAtMostSuc_conv)

definition v2_hand :: "(int \<Rightarrow> int) \<Rightarrow> v2c \<Rightarrow> tid \<Rightarrow> int" where
  "v2_hand f c t = (if v2pc c t = HCall then f (v2x c t) else 0)"

definition v2_inv :: "(int \<Rightarrow> int) \<Rightarrow> int list \<Rightarrow> tid set \<Rightarrow> v2c \<Rightarrow> bool" where
  "v2_inv f xs T c \<longleftrightarrow>
     promised T (v2sum c) + (\<Sum>t\<in>T. v2_hand f c t) + sum_list (map f (v2in c)) = sum_list (map f xs) \<and>
     adder_inv T (v2sum c) \<and> (\<forall>t. apc (v2sum c) t \<noteq> AIdle \<longleftrightarrow> v2pc c t = HSum) \<and>
     (\<forall>t. v2pc c t = HDone \<longrightarrow> v2in c = [])"

lemma v2_inv_init: "v2_inv f xs T (v2_init xs)"
  by (simp add: v2_inv_def v2_init_def adder0_inv adder0_promised v2_hand_def) (simp add: adder0_def)

lemma v2_section: "v2_inv f xs T c \<Longrightarrow> apc (v2sum c) t \<noteq> AIdle \<longleftrightarrow> v2pc c t = HSum"
  by (simp add: v2_inv_def)

lemma v2_inv_step:
  assumes T: "finite T" "t \<in> T" and inv: "v2_inv f xs T c" and step: "handler f t c = Some c'"
  shows "v2_inv f xs T c'"
proof -
  have ad: "adder_inv T (v2sum c)" and idle: "apc (v2sum c) t = AIdle \<longleftrightarrow> v2pc c t \<noteq> HSum"
    using inv by (auto simp: v2_inv_def)
  note iff = v2_section [OF inv]
  have "(\<Sum>u\<in>T. v2_hand f c' u) = (\<Sum>u\<in>T. v2_hand f c u) - v2_hand f c t + v2_hand f c' t"
    using T step by (intro sum_change_one)
      (auto simp: handler_def v2_hand_def split: v2_pc.splits list.splits option.splits)
  moreover have "promised T (v2sum c') + v2_hand f c' t + sum_list (map f (v2in c')) =
      promised T (v2sum c) + v2_hand f c t + sum_list (map f (v2in c))"
    using step idle sum_enter_promised [OF T] sum_add_promised [OF T(1) ad]
    by (auto simp: handler_def v2_hand_def split: v2_pc.splits list.splits option.splits if_splits)
  moreover have "adder_inv T (v2sum c')"
    using step idle ad sum_enter_inv [OF ad _ T(2)] sum_add_inv [OF ad]
    by (auto simp: handler_def split: v2_pc.splits list.splits option.splits)
  moreover have "apc (v2sum c') u \<noteq> AIdle \<longleftrightarrow> v2pc c' u = HSum" for u
  proof (cases "u = t")
    case True
    then show ?thesis using step iff [of t] by (auto simp: handler_def split: v2_pc.splits list.splits option.splits if_splits)
  next
    case False
    then show ?thesis using step iff [of u] sum_add_frame [of t "v2sum c" _ u]
      by (auto simp: handler_def split: v2_pc.splits list.splits option.splits)
  qed
  moreover have "v2in c' = []" if "v2pc c' u = HDone" for u
    using step inv that by (auto simp: handler_def v2_inv_def split: v2_pc.splits list.splits option.splits if_splits)
  ultimately show ?thesis using inv by (simp add: v2_inv_def)
qed

interpretation v2: threads_invariant "v2_init xs" "handler f" T "\<lambda>c. finite T \<longrightarrow> v2_inv f xs T c" for f xs T
  by unfold_locales (auto intro: v2_inv_init v2_inv_step)

text \<open>Work left: every step makes it smaller.\<close>

primrec add_work :: "add_pc \<Rightarrow> nat" where
  "add_work AIdle = 1" | "add_work ALock = 5" | "add_work ALoad = 4" | "add_work AStore = 3" | "add_work AUnlock = 2"

definition v2_work :: "v2c \<Rightarrow> tid \<Rightarrow> nat" where
  "v2_work c t = (case v2pc c t of HRead \<Rightarrow> 1 | HCall \<Rightarrow> 6 | HSum \<Rightarrow> add_work (apc (v2sum c) t) | HDone \<Rightarrow> 0)"

definition v2_measure :: "tid set \<Rightarrow> v2c \<Rightarrow> nat" where
  "v2_measure T c = 6 * length (v2in c) + (\<Sum>t\<in>T. v2_work c t)"

lemma v2_measure_step:
  assumes "finite T" "t \<in> T" "handler f t c = Some c'"
  shows "v2_measure T c' < v2_measure T c"
proof -
  have "v2_work c' u = v2_work c u" if "u \<noteq> t" for u
    using assms(3) that by (auto simp: handler_def v2_work_def dest: sum_add_frame split: v2_pc.splits list.splits option.splits)
  then have "(\<Sum>u\<in>T - {t}. v2_work c' u) = (\<Sum>u\<in>T - {t}. v2_work c u)" by (intro sum.cong) auto
  moreover have "6 * length (v2in c') + v2_work c' t < 6 * length (v2in c) + v2_work c t"
    using assms(3)
    by (auto simp: handler_def v2_work_def sum_add_def split: v2_pc.splits list.splits option.splits add_pc.splits prod.splits if_splits)
  ultimately show ?thesis using assms(1,2) by (simp add: v2_measure_def sum.remove)
qed

lemma v2_no_deadlock:
  assumes inv: "v2_inv f xs T c" and "t \<in> T" "v2pc c t \<noteq> HDone"
  shows "\<exists>u \<in> T. handler f u c \<noteq> None"
proof (cases "v2pc c t = HSum")
  case True
  then have "adder_inv T (v2sum c)" "apc (v2sum c) t \<noteq> AIdle" using inv by (auto simp: v2_inv_def)
  then obtain u where u: "u \<in> T" "apc (v2sum c) u \<noteq> AIdle" "sum_add u (v2sum c) \<noteq> None" using adder_live by blast
  then have "v2pc c u = HSum" using inv by (auto simp: v2_inv_def)
  then have "handler f u c \<noteq> None" using u(3) by (auto simp: handler_def)
  then show ?thesis using u(1) by blast
next
  case False
  then have "handler f t c \<noteq> None" using assms(3) by (auto simp: handler_def split: v2_pc.splits list.splits)
  then show ?thesis using assms(2) by blast
qed

interpretation v2_work: threads_measure "handler f" "{1..k}" "v2_measure {1..k}" for f k
  by unfold_locales (auto intro: v2_measure_step)

text \<open>
  C24: \<^verbatim>\<open>midterm-v2.c\<close> is totally correct: with \<open>k\<close> threads and \<open>n\<close> numbers every
  scheduling has at most \<open>6 n + k\<close> steps (blocked attempts at the mutex aside), and where no
  thread can go on, all have ended and \<open>main\<close> prints the sum of \<open>f x\<close> over all numbers of the input.
\<close>

theorem midterm_v2_total:
  assumes "schedule (handler f) ts (v2_init xs) = Some c" "set ts \<subseteq> {1..k}" "0 < k"
  shows "length ts \<le> 6 * length xs + k \<and>
    ((\<forall>t \<in> {1..k}. handler f t c = None) \<longrightarrow>
       (\<forall>t \<in> {1..k}. v2pc c t = HDone) \<and> v2_main k c = Some (sum_list (map f xs)))"
proof -
  have inv: "v2_inv f xs {1..k} c" using v2.inv_reach [OF schedule_reachable [OF assms(1,2)]] by simp
  have "length ts + v2_measure {1..k} c \<le> v2_measure {1..k} (v2_init xs)"
    by (rule v2_work.schedule_bound [OF assms(1,2)])
  moreover have "v2_measure {1..k} (v2_init xs) = 6 * length xs + k" by (simp add: v2_measure_def v2_init_def v2_work_def)
  moreover have "(\<forall>t \<in> {1..k}. v2pc c t = HDone) \<and> v2_main k c = Some (sum_list (map f xs))"
    if "\<forall>t \<in> {1..k}. handler f t c = None"
  proof -
    have dn: "v2pc c t = HDone" if "t \<in> {1..k}" for t
      using v2_no_deadlock [OF inv that] \<open>\<forall>t \<in> {1..k}. handler f t c = None\<close> by metis
    then have d: "\<forall>t \<in> {1..k}. v2pc c t = HDone" by blast
    have "apc (v2sum c) t = AIdle" if "t \<in> {1..k}" for t using v2_section [OF inv, of t] dn [OF that] by simp
    then have "promised {1..k} (v2sum c) = asum (v2sum c)" by (rule promised_idle)
    moreover have "v2in c = []" using inv dn [of 1] assms(3) by (auto simp: v2_inv_def)
    ultimately show ?thesis using inv d by (simp add: v2_inv_def v2_hand_def v2_main_def v2_join_all)
  qed
  ultimately show ?thesis by auto
qed

theorem midterm_v2_total_witness:
  "\<exists>c. schedule (handler foo_f) [1,2,1,2,1,1,1,1,2,2,2,2,1,2] (v2_init [3, 4]) = Some c \<and> v2pc c 1 = HDone \<and> v2_main 2 c = Some 7"
proof -
  let ?s = "schedule (handler foo_f) [1,2,1,2,1,1,1,1,2,2,2,2,1,2] (v2_init [3, 4])"
  have "case ?s of None \<Rightarrow> False | Some c \<Rightarrow> v2pc c 1 = HDone \<and> v2pc c 2 = HDone" by code_simp
  then obtain c where c: "?s = Some c" and d: "v2pc c 1 = HDone" "v2pc c 2 = HDone" by (auto split: option.splits)
  have "\<forall>t \<in> {1..2}. handler foo_f t c = None" using d by (auto simp: handler_def numeral_2_eq_2 le_Suc_eq)
  then show ?thesis using midterm_v2_total [OF c, of 2] c by (auto simp: foo_f_def)
qed

end
