(* ===== verification/Midterm_V1.thy ===== *)
theory Midterm_V1
  imports Midterm
begin

text \<open>
  The solution \<^verbatim>\<open>midterm-v1.c\<close>: producers read the numbers and push them on a shared
  stack, consumers pop them, and a flag tells the consumers that no more will come. Shown: the
  stack is never popped when empty, no state is a deadlock, and when all threads have ended the
  sum is right; but on every non-empty input the program need not end: producers that raise the flag
  while another one still holds a number can send all consumers home, and the other one then waits
  for ever for its number to be taken.
\<close>

subsection \<open>The program\<close>

text \<open>The Boolean after a read is the \<open>flag\<close>; after the unlock, whether the loop is left.\<close>

datatype v1_pc = QRead | QLock bool | QTest bool | QUnlock bool | QBcast bool | QDone
  | KLock | KTest | KSleep | KWake | KIf | KPop | KUnlock | KCall | KSum | KLeave | KDone

record v1c =
  v1in :: "int list"
  is_eof :: bool
  buffer :: "int list"
  buffer_lk :: mutex
  v1x :: "tid \<Rightarrow> int"
  v1pc :: "tid \<Rightarrow> v1_pc"
  v1sum :: adder

definition v1_init :: "nat \<Rightarrow> int list \<Rightarrow> v1c" where
  "v1_init p xs = \<lparr>v1in = xs, is_eof = False, buffer = [], buffer_lk = None, v1x = (\<lambda>_. 0),
     v1pc = (\<lambda>t. if t \<le> p then QRead else KLock), v1sum = adder0\<rparr>"

text \<open>The linked list of \<^verbatim>\<open>stack_t\<close> nodes is the list of their numbers; popping NULL is \<open>None\<close>.\<close>

definition push :: "int \<Rightarrow> int list \<Rightarrow> int list" where
  "push x buf = (if buf = [] then [x] else x # buf)"

definition pop :: "int list \<Rightarrow> (int \<times> int list) option" where
  "pop buf = (case buf of [] \<Rightarrow> None | x # next \<Rightarrow> Some (x, next))"

definition q_goto :: "tid \<Rightarrow> v1_pc \<Rightarrow> v1c \<Rightarrow> v1c" where
  "q_goto t pc c = c\<lparr>v1pc := (v1pc c)(t := pc)\<rparr>"

definition q_lock :: "tid \<Rightarrow> v1_pc \<Rightarrow> v1c \<Rightarrow> v1c option" where
  "q_lock t pc c = (let (ok, m) = mutex_lock t (buffer_lk c) in if ok then Some (q_goto t pc (c\<lparr>buffer_lk := m\<rparr>)) else None)"

definition q_unlock :: "tid \<Rightarrow> v1_pc \<Rightarrow> v1c \<Rightarrow> v1c" where
  "q_unlock t pc c = q_goto t pc (c\<lparr>buffer_lk := mutex_unlock t (buffer_lk c)\<rparr>)"

definition q_broadcast :: "v1c \<Rightarrow> v1c" where
  "q_broadcast c = c\<lparr>v1pc := (\<lambda>u. if v1pc c u = KSleep then KWake else v1pc c u)\<rparr>"

definition v1_producer :: "tid \<Rightarrow> v1c \<Rightarrow> v1c option" where
  "v1_producer t c =
     (case v1pc c t of
        QRead \<Rightarrow> (case v1in c of [] \<Rightarrow> Some (q_goto t (QLock False) c)
                   | x # xs \<Rightarrow> Some (q_goto t (QLock True) (c\<lparr>v1in := xs, v1x := (v1x c)(t := x)\<rparr>)))
      | QLock flag \<Rightarrow> q_lock t (QTest flag) c
      | QTest flag \<Rightarrow>
          (if \<not> flag
           then if buffer c = [] then Some (q_goto t (QUnlock True) (c\<lparr>is_eof := True\<rparr>)) else Some (q_goto t (QUnlock False) c)
           else Some (q_goto t (QUnlock False) (c\<lparr>buffer := push (v1x c t) (buffer c)\<rparr>)))
      | QUnlock brk \<Rightarrow> Some (q_unlock t (QBcast brk) c)
      | QBcast brk \<Rightarrow> Some (q_goto t (if brk then QDone else QRead) (q_broadcast c))
      | _ \<Rightarrow> None)"

definition v1_consumer :: "(int \<Rightarrow> int) \<Rightarrow> tid \<Rightarrow> v1c \<Rightarrow> v1c option" where
  "v1_consumer f t c =
     (case v1pc c t of
        KLock \<Rightarrow> q_lock t KTest c
      | KTest \<Rightarrow> Some (if buffer c = [] \<and> \<not> is_eof c then q_unlock t KSleep c else q_goto t KIf c)
      | KWake \<Rightarrow> q_lock t KTest c
      | KIf \<Rightarrow> Some (q_goto t (if is_eof c \<and> buffer c = [] then KLeave else KPop) c)
      | KPop \<Rightarrow> (case pop (buffer c) of None \<Rightarrow> None
                  | Some (x, buf) \<Rightarrow> Some (q_goto t KUnlock (c\<lparr>buffer := buf, v1x := (v1x c)(t := x)\<rparr>)))
      | KUnlock \<Rightarrow> Some (q_unlock t KCall c)
      | KCall \<Rightarrow> Some (q_goto t KSum (c\<lparr>v1sum := sum_enter t (f (v1x c t)) (v1sum c)\<rparr>))
      | KSum \<Rightarrow> (case sum_add t (v1sum c) of None \<Rightarrow> None
                  | Some a \<Rightarrow> Some (q_goto t (if apc a t = AIdle then KLock else KSum) (c\<lparr>v1sum := a\<rparr>)))
      | KLeave \<Rightarrow> Some (q_unlock t KDone c)
      | _ \<Rightarrow> None)"

primrec v1_step :: "(int \<Rightarrow> int) \<Rightarrow> nat \<Rightarrow> act \<Rightarrow> v1c \<Rightarrow> v1c option" where
  "v1_step f p (Go t) c = (if t \<le> p then v1_producer t c else v1_consumer f t c)"
| "v1_step f p (Spurious t) c = (if v1pc c t = KSleep then Some (q_goto t KWake c) else None)"

text \<open>Threads 1 to \<open>p\<close> are producers, the others up to \<open>k\<close> consumers (320 and 6400 in the source).\<close>

definition v1_acts :: "nat \<Rightarrow> act set" where
  "v1_acts k = Go ` {1..k} \<union> Spurious ` {1..k}"

subsection \<open>The invariant\<close>

primrec v1_locked :: "v1_pc \<Rightarrow> bool" where
  "v1_locked QRead = False" | "v1_locked (QLock b) = False" | "v1_locked (QTest b) = True" | "v1_locked (QUnlock b) = True"
| "v1_locked (QBcast b) = False" | "v1_locked QDone = False" | "v1_locked KLock = False" | "v1_locked KTest = True"
| "v1_locked KSleep = False" | "v1_locked KWake = False" | "v1_locked KIf = True" | "v1_locked KPop = True"
| "v1_locked KUnlock = True" | "v1_locked KCall = False" | "v1_locked KSum = False" | "v1_locked KLeave = True" | "v1_locked KDone = False"

text \<open>The states of a producer.\<close>

fun q_state :: "v1_pc \<Rightarrow> bool" where
  "q_state QRead = True" | "q_state (QLock b) = True" | "q_state (QTest b) = True" | "q_state (QUnlock b) = True"
| "q_state (QBcast b) = True" | "q_state QDone = True" | "q_state _ = False"

definition v1_hand :: "(int \<Rightarrow> int) \<Rightarrow> v1c \<Rightarrow> tid \<Rightarrow> int" where
  "v1_hand f c t = (if v1pc c t \<in> {QLock True, QTest True, KUnlock, KCall} then f (v1x c t) else 0)"

definition v1_sum_inv :: "(int \<Rightarrow> int) \<Rightarrow> int list \<Rightarrow> tid set \<Rightarrow> v1c \<Rightarrow> bool" where
  "v1_sum_inv f xs T c \<longleftrightarrow> promised T (v1sum c) + (\<Sum>t\<in>T. v1_hand f c t) + sum_list (map f (buffer c)) + sum_list (map f (v1in c))
     = sum_list (map f xs)"

definition v1_add_inv :: "tid set \<Rightarrow> v1c \<Rightarrow> bool" where
  "v1_add_inv T c \<longleftrightarrow> adder_inv T (v1sum c) \<and> (\<forall>t. apc (v1sum c) t \<noteq> AIdle \<longleftrightarrow> v1pc c t = KSum)"

definition v1_lk_inv :: "nat \<Rightarrow> nat \<Rightarrow> v1c \<Rightarrow> bool" where
  "v1_lk_inv p k c \<longleftrightarrow> (\<forall>t. buffer_lk c = Some t \<longleftrightarrow> v1_locked (v1pc c t)) \<and>
     (\<forall>t. t \<le> p \<longleftrightarrow> q_state (v1pc c t)) \<and>
     (\<forall>t. t \<notin> {1..k} \<longrightarrow> v1pc c t = (if t \<le> p then QRead else KLock))"

definition v1_end_inv :: "nat \<Rightarrow> v1c \<Rightarrow> bool" where
  "v1_end_inv p c \<longleftrightarrow>
     (\<forall>t. v1pc c t \<in> {QLock False, QTest False, QUnlock True, QBcast True, QDone} \<longrightarrow> v1in c = []) \<and>
     (\<forall>t. v1pc c t \<in> {QUnlock True, QBcast True, QDone} \<longrightarrow> is_eof c) \<and>
     (buffer c \<noteq> [] \<longrightarrow> (\<exists>t \<in> {1..p}. v1pc c t \<notin> {QUnlock True, QBcast True, QDone})) \<and>
     (\<forall>t. v1pc c t = KPop \<longrightarrow> buffer c \<noteq> []) \<and>
     (\<forall>t. v1pc c t = KIf \<longrightarrow> buffer c \<noteq> [] \<or> is_eof c) \<and>
     (\<forall>t. v1pc c t = KSleep \<and> (buffer c \<noteq> [] \<or> is_eof c) \<longrightarrow> (\<exists>u b. v1pc c u = QUnlock b \<or> v1pc c u = QBcast b))"

lemmas v1_defs = v1_producer_def v1_consumer_def q_goto_def q_lock_def q_unlock_def q_broadcast_def
  mutex_lock_def mutex_unlock_def push_def pop_def

lemma v1_owner:
  assumes "v1_lk_inv p k c" "v1_locked (v1pc c t)" "u \<noteq> t"
  shows "\<not> v1_locked (v1pc c u)"
  using assms unfolding v1_lk_inv_def by (metis option.inject)

lemma v1_lk_step:
  assumes inv: "v1_lk_inv p k c" and t: "t \<in> {1..k}" and step: "v1_step f p (Go t) c = Some c'"
  shows "v1_lk_inv p k c'"
proof -
  have own: "u \<noteq> t \<Longrightarrow> v1_locked (v1pc c t) \<Longrightarrow> \<not> v1_locked (v1pc c u)" for u using v1_owner [OF inv] by blast
  have free: "\<not> v1_locked (v1pc c u)" if "buffer_lk c = None" for u using inv that unfolding v1_lk_inv_def by (metis option.distinct(1))
  have ty: "t \<le> p \<longleftrightarrow> q_state (v1pc c t)"
    using inv by (simp add: v1_lk_inv_def)
  have "\<forall>u. buffer_lk c' = Some u \<longleftrightarrow> v1_locked (v1pc c' u)"
  proof
    fix u
    have lk: "buffer_lk c = Some u \<longleftrightarrow> v1_locked (v1pc c u)" "buffer_lk c = Some t \<longleftrightarrow> v1_locked (v1pc c t)"
      using inv by (auto simp: v1_lk_inv_def)
    show "buffer_lk c' = Some u \<longleftrightarrow> v1_locked (v1pc c' u)"
      using step own [of u] free [of u] lk
      by (cases "v1pc c t") (auto simp: v1_defs split: if_splits option.splits list.splits)
  qed
  moreover have "u \<le> p \<longleftrightarrow> q_state (v1pc c' u)" for u
  proof -
    have "u \<le> p \<longleftrightarrow> q_state (v1pc c u)"
      using inv by (simp add: v1_lk_inv_def)
    then show ?thesis using step ty
      by (cases "v1pc c t") (auto simp: v1_defs split: if_splits option.splits list.splits)
  qed
  moreover have "v1pc c' u = (if u \<le> p then QRead else KLock)" if "u \<notin> {1..k}" for u
  proof -
    have "v1pc c u = (if u \<le> p then QRead else KLock)" using inv that by (simp add: v1_lk_inv_def)
    moreover have "u \<noteq> t" using that t by blast
    ultimately show ?thesis using step by (cases "v1pc c t") (auto simp: v1_defs split: if_splits option.splits list.splits)
  qed
  ultimately show ?thesis by (simp add: v1_lk_inv_def)
qed

lemma v1_frame:
  assumes "v1_step f p (Go t) c = Some c'" "u \<noteq> t"
  shows "v1pc c' u = v1pc c u \<or> v1pc c u = KSleep \<and> v1pc c' u = KWake" "v1x c' u = v1x c u"
    "v1_hand f c' u = v1_hand f c u" "apc (v1sum c') u = apc (v1sum c) u"
proof -
  show pc: "v1pc c' u = v1pc c u \<or> v1pc c u = KSleep \<and> v1pc c' u = KWake" and x: "v1x c' u = v1x c u"
    using assms by (cases "v1pc c t"; auto simp: v1_defs split: if_splits option.splits list.splits)+
  show "v1_hand f c' u = v1_hand f c u" using pc x by (auto simp: v1_hand_def)
  show "apc (v1sum c') u = apc (v1sum c) u" using assms
    by (cases "v1pc c t") (auto simp: v1_defs dest: sum_add_frame split: if_splits option.splits list.splits)
qed

lemma v1_add_step:
  assumes inv: "v1_add_inv {1..k} c" and t: "t \<in> {1..k}" and step: "v1_step f p (Go t) c = Some c'"
  shows "v1_add_inv {1..k} c'"
proof -
  have ad: "adder_inv {1..k} (v1sum c)" and iff: "apc (v1sum c) u \<noteq> AIdle \<longleftrightarrow> v1pc c u = KSum" for u
    using inv by (auto simp: v1_add_inv_def)
  have "adder_inv {1..k} (v1sum c')"
    using step ad iff [of t] sum_enter_inv [OF ad _ t] sum_add_inv [OF ad]
    by (cases "v1pc c t") (auto simp: v1_defs split: if_splits option.splits list.splits)
  moreover have "apc (v1sum c') u \<noteq> AIdle \<longleftrightarrow> v1pc c' u = KSum" for u
  proof (cases "u = t")
    case True
    then show ?thesis using step iff [of t]
      by (cases "v1pc c t") (auto simp: v1_defs split: if_splits option.splits list.splits)
  next
    case False
    then show ?thesis using v1_frame(1,4) [OF step False] iff [of u] by auto
  qed
  ultimately show ?thesis by (simp add: v1_add_inv_def)
qed

lemma v1_sum_step:
  assumes inv: "v1_sum_inv f xs {1..k} c" "v1_add_inv {1..k} c" and t: "t \<in> {1..k}" and step: "v1_step f p (Go t) c = Some c'"
  shows "v1_sum_inv f xs {1..k} c'"
proof -
  have ad: "adder_inv {1..k} (v1sum c)" and iff: "apc (v1sum c) t \<noteq> AIdle \<longleftrightarrow> v1pc c t = KSum"
    using inv(2) by (auto simp: v1_add_inv_def)
  have h: "(\<Sum>u\<in>{1..k}. v1_hand f c' u) = (\<Sum>u\<in>{1..k}. v1_hand f c u) - v1_hand f c t + v1_hand f c' t"
    using t v1_frame(3) [OF step] by (intro sum_change_one) auto
  have "promised {1..k} (v1sum c') + v1_hand f c' t + sum_list (map f (buffer c')) + sum_list (map f (v1in c')) =
      promised {1..k} (v1sum c) + v1_hand f c t + sum_list (map f (buffer c)) + sum_list (map f (v1in c))"
    using step iff sum_enter_promised [OF finite_atLeastAtMost t] sum_add_promised [OF finite_atLeastAtMost ad]
    by (cases "v1pc c t") (auto simp: v1_defs v1_hand_def split: if_splits option.splits list.splits)
  then show ?thesis using inv(1) h by (simp add: v1_sum_inv_def)
qed

lemma v1_vars:
  assumes "v1_step f p (Go t) c = Some c'"
  shows "v1pc c t \<noteq> KPop \<Longrightarrow> buffer c \<noteq> [] \<Longrightarrow> buffer c' \<noteq> []" "is_eof c \<Longrightarrow> is_eof c'" "v1in c = [] \<Longrightarrow> v1in c' = []"
    "v1pc c t \<noteq> QTest True \<Longrightarrow> buffer c = [] \<Longrightarrow> buffer c' = []" "v1pc c t \<noteq> QTest False \<Longrightarrow> is_eof c' = is_eof c"
  using assms by (cases "v1pc c t"; auto simp: v1_defs split: if_splits option.splits list.splits)+

abbreviation leaving :: "v1_pc \<Rightarrow> bool" where
  "leaving pc \<equiv> pc \<in> {QUnlock True, QBcast True, QDone}"

lemma v1_end_reader:
  assumes inv: "v1_end_inv p c" and step: "v1_step f p (Go t) c = Some c'"
    and u: "v1pc c' u \<in> {QLock False, QTest False, QUnlock True, QBcast True, QDone}"
  shows "v1in c' = []"
proof (cases "u = t")
  case True
  have "v1in c = []" if "v1pc c t \<in> {QLock False, QTest False, QUnlock True, QBcast True, QDone}"
    using inv that unfolding v1_end_inv_def by blast
  then show ?thesis using True step u by (cases "v1pc c t") (auto simp: v1_defs split: if_splits option.splits list.splits)
next
  case False
  then have "v1in c = []" using inv u v1_frame(1) [OF step False] unfolding v1_end_inv_def by fastforce
  then show ?thesis by (rule v1_vars(3) [OF step])
qed

lemma v1_end_eof:
  assumes inv: "v1_end_inv p c" and step: "v1_step f p (Go t) c = Some c'" and u: "leaving (v1pc c' u)"
  shows "is_eof c'"
proof (cases "u = t")
  case True
  have "is_eof c" if "leaving (v1pc c t)" using inv that unfolding v1_end_inv_def by blast
  then show ?thesis using True step u by (cases "v1pc c t") (auto simp: v1_defs split: if_splits option.splits list.splits)
next
  case False
  then have "is_eof c" using inv u v1_frame(1) [OF step False] unfolding v1_end_inv_def by fastforce
  then show ?thesis by (rule v1_vars(2) [OF step])
qed

lemma v1_end_live:
  assumes inv: "v1_end_inv p c" "v1_lk_inv p k c" and t: "t \<in> {1..k}" and step: "v1_step f p (Go t) c = Some c'" and b: "buffer c' \<noteq> []"
  shows "\<exists>u \<in> {1..p}. \<not> leaving (v1pc c' u)"
proof (cases "v1pc c t = QTest True")
  case True
  then have "t \<le> p" using inv(2) by (simp add: v1_lk_inv_def)
  moreover have "v1pc c' t = QUnlock False" using True step \<open>t \<le> p\<close> by (auto simp: v1_defs)
  ultimately show ?thesis using t by (intro bexI [of _ t]) auto
next
  case False
  then have b0: "buffer c \<noteq> []" using v1_vars(4) [OF step] b by blast
  then obtain u where u: "u \<in> {1..p}" "\<not> leaving (v1pc c u)" using inv(1) unfolding v1_end_inv_def by blast
  have "\<not> leaving (v1pc c' u)"
  proof (cases "u = t")
    case True
    then show ?thesis using u step b0 by (cases "v1pc c t") (auto simp: v1_defs split: if_splits option.splits list.splits)
  next
    case False
    then show ?thesis using u(2) v1_frame(1) [OF step False] by auto
  qed
  then show ?thesis using u(1) by blast
qed

lemma v1_end_pop:
  assumes inv: "v1_end_inv p c" "v1_lk_inv p k c" and step: "v1_step f p (Go t) c = Some c'"
  shows "v1pc c' u = KPop \<Longrightarrow> buffer c' \<noteq> []" "v1pc c' u = KIf \<Longrightarrow> buffer c' \<noteq> [] \<or> is_eof c'"
proof -
  have own: "v1pc c t \<noteq> KPop" if "u \<noteq> t" "v1_locked (v1pc c u)" using v1_owner [OF inv(2) that(2), of t] that(1) by auto
  have "buffer c \<noteq> [] \<or> is_eof c" if "v1pc c t = KIf" using inv(1) that unfolding v1_end_inv_def by blast
  moreover have "buffer c \<noteq> []" if "v1pc c u = KPop" using inv(1) that unfolding v1_end_inv_def by blast
  moreover have "buffer c \<noteq> [] \<or> is_eof c" if "v1pc c u = KIf" using inv(1) that unfolding v1_end_inv_def by blast
  note facts = calculation this
  show "buffer c' \<noteq> []" if "v1pc c' u = KPop"
  proof (cases "u = t")
    case True
    then show ?thesis using that facts(1) step by (cases "v1pc c t") (auto simp: v1_defs split: if_splits option.splits list.splits)
  next
    case False
    then show ?thesis using that facts(2) own v1_frame(1) [OF step False] v1_vars(1) [OF step] by auto
  qed
  show "buffer c' \<noteq> [] \<or> is_eof c'" if "v1pc c' u = KIf"
  proof (cases "u = t")
    case True
    then show ?thesis using that step by (cases "v1pc c t") (auto simp: v1_defs split: if_splits option.splits list.splits)
  next
    case False
    then show ?thesis using that facts(3) own v1_frame(1) [OF step False] v1_vars(1,2) [OF step] by auto
  qed
qed

lemma v1_end_sleep:
  assumes inv: "v1_end_inv p c" and step: "v1_step f p (Go t) c = Some c'"
    and u: "v1pc c' u = KSleep" "buffer c' \<noteq> [] \<or> is_eof c'"
  shows "\<exists>w b. v1pc c' w = QUnlock b \<or> v1pc c' w = QBcast b"
proof -
  have ut: "u \<noteq> t" using step u by (cases "v1pc c t") (auto simp: v1_defs split: if_splits option.splits list.splits)
  then have us: "v1pc c u = KSleep" using v1_frame(1) [OF step ut] u(1) by auto
  have nb: "v1pc c t \<noteq> QBcast b" for b using step ut u(1) by (auto simp: v1_defs split: if_splits)
  show ?thesis
  proof (cases "\<exists>b. v1pc c t = QTest b \<or> v1pc c t = QUnlock b")
    case True
    then have "\<exists>b. v1pc c' t = QUnlock b \<or> v1pc c' t = QBcast b"
      using step by (auto simp: v1_defs ex_bool_eq split: if_splits)
    then show ?thesis by blast
  next
    case False
    then have "buffer c \<noteq> [] \<or> is_eof c" using u(2) v1_vars(4,5) [OF step] by blast
    then obtain w b where w: "v1pc c w = QUnlock b \<or> v1pc c w = QBcast b" using inv us unfolding v1_end_inv_def by blast
    then have "w \<noteq> t" using False nb by blast
    then show ?thesis using v1_frame(1) [OF step] w by force
  qed
qed

lemma v1_end_step:
  assumes "v1_end_inv p c" "v1_lk_inv p k c" "t \<in> {1..k}" "v1_step f p (Go t) c = Some c'"
  shows "v1_end_inv p c'"
  unfolding v1_end_inv_def
  using v1_end_reader [OF assms(1,4)] v1_end_eof [OF assms(1,4)] v1_end_live [OF assms] v1_end_pop [OF assms(1,2,4)] v1_end_sleep [OF assms(1,4)]
  by blast

definition v1_inv :: "(int \<Rightarrow> int) \<Rightarrow> nat \<Rightarrow> nat \<Rightarrow> int list \<Rightarrow> v1c \<Rightarrow> bool" where
  "v1_inv f p k xs c \<longleftrightarrow> v1_lk_inv p k c \<and> v1_add_inv {1..k} c \<and> v1_sum_inv f xs {1..k} c \<and> v1_end_inv p c"

lemma v1_inv_init: "v1_inv f p k xs (v1_init p xs)"
proof -
  have "v1_hand f (v1_init p xs) t = 0" for t by (simp add: v1_hand_def v1_init_def)
  then have "v1_sum_inv f xs {1..k} (v1_init p xs)" by (simp add: v1_sum_inv_def) (simp add: v1_init_def adder0_promised)
  moreover have "v1_add_inv {1..k} (v1_init p xs)"
    by (simp add: v1_add_inv_def v1_init_def adder0_inv) (simp add: adder0_def)
  ultimately show ?thesis by (simp add: v1_inv_def) (simp add: v1_init_def v1_lk_inv_def v1_end_inv_def)
qed

lemma v1_inv_spurious:
  assumes inv: "v1_inv f p k xs c" and s: "v1pc c t = KSleep"
  shows "v1_inv f p k xs (q_goto t KWake c)"
proof -
  let ?c = "q_goto t KWake c"
  have pc: "v1pc ?c u = (if u = t then KWake else v1pc c u)" for u by (simp add: q_goto_def)
  have same: "v1in ?c = v1in c" "buffer ?c = buffer c" "is_eof ?c = is_eof c" "buffer_lk ?c = buffer_lk c" "v1sum ?c = v1sum c"
    by (simp_all add: q_goto_def)
  have h: "v1_hand f ?c u = v1_hand f c u" for u using s by (simp add: v1_hand_def q_goto_def)
  have lk: "v1_lk_inv p k c" using inv by (simp add: v1_inv_def)
  then have "buffer_lk c \<noteq> Some t" "\<not> t \<le> p" using s by (auto simp: v1_lk_inv_def)
  moreover have "t \<in> {1..k}" using lk s unfolding v1_lk_inv_def by (metis v1_pc.distinct)
  ultimately have "v1_lk_inv p k ?c" using lk unfolding v1_lk_inv_def pc same by auto
  moreover have "v1_add_inv {1..k} ?c" using inv s unfolding v1_inv_def v1_add_inv_def pc same by (metis v1_pc.distinct)
  moreover have "v1_sum_inv f xs {1..k} ?c" using inv unfolding v1_inv_def v1_sum_inv_def h same by blast
  moreover have "v1_end_inv p ?c"
  proof -
    have en: "v1_end_inv p c" using inv by (simp add: v1_inv_def)
    have bk: "v1pc c u = x" if "v1pc ?c u = x" "x \<noteq> KWake" for u x using that by (simp add: pc split: if_splits)
    have fw: "v1pc ?c u = x" if "v1pc c u = x" "x \<noteq> KSleep" for u x using that s by (auto simp: pc)
    have "\<exists>u \<in> {1..p}. \<not> leaving (v1pc ?c u)" if b: "buffer c \<noteq> []"
    proof -
      obtain u where "u \<in> {1..p}" "\<not> leaving (v1pc c u)" using en b unfolding v1_end_inv_def by blast
      then show ?thesis by (intro bexI [of _ u]) (auto simp: pc)
    qed
    moreover have "\<exists>u b. v1pc ?c u = QUnlock b \<or> v1pc ?c u = QBcast b" if u: "v1pc ?c w = KSleep" "buffer c \<noteq> [] \<or> is_eof c" for w
    proof -
      obtain u b where "v1pc c u = QUnlock b \<or> v1pc c u = QBcast b"
        using en bk [OF u(1)] u(2) unfolding v1_end_inv_def by blast
      then show ?thesis using fw [of u] by blast
    qed
    moreover have "v1in c = []" if "v1pc ?c u \<in> {QLock False, QTest False, QUnlock True, QBcast True, QDone}" for u
      using en bk [of u] that unfolding v1_end_inv_def by auto
    moreover have "is_eof c" if "leaving (v1pc ?c u)" for u
      using en bk [of u] that unfolding v1_end_inv_def by auto
    moreover have "v1pc ?c u = KPop \<Longrightarrow> buffer c \<noteq> []" "v1pc ?c u = KIf \<Longrightarrow> buffer c \<noteq> [] \<or> is_eof c" for u
      using en bk [of u] unfolding v1_end_inv_def by auto
    ultimately show ?thesis unfolding v1_end_inv_def same by blast
  qed
  ultimately show ?thesis by (simp add: v1_inv_def)
qed

interpretation v1: threads_invariant "v1_init p xs" "v1_step f p" "v1_acts k" "v1_inv f p k xs" for f p k xs
proof
  show "v1_inv f p k xs c'" if inv: "v1_inv f p k xs c" and a: "a \<in> v1_acts k" "v1_step f p a c = Some c'" for c c' a
  proof (cases a)
    case (Go t)
    then have t: "t \<in> {1..k}" using a(1) by (auto simp: v1_acts_def)
    note st = a(2) [unfolded Go]
    show ?thesis using inv v1_lk_step [OF _ t st] v1_add_step [OF _ t st] v1_sum_step [OF _ _ t st] v1_end_step [OF _ _ t st]
      unfolding v1_inv_def by blast
  next
    case (Spurious t)
    then show ?thesis using v1_inv_spurious [OF inv] a(2) by (auto split: if_splits)
  qed
qed (rule v1_inv_init)

lemma v1_mover:
  assumes "v1_lk_inv p k c" "v1_end_inv p c" and "v1_locked (v1pc c t) \<or> v1pc c t \<in> {QRead, KCall} \<union> range QBcast \<or>
    buffer_lk c = None \<and> v1pc c t \<in> {KLock, KWake} \<union> range QLock"
  shows "v1_step f p (Go t) c \<noteq> None"
proof -
  have ty: "t \<le> p \<longleftrightarrow> q_state (v1pc c t)" using assms(1) by (simp add: v1_lk_inv_def)
  have "buffer c \<noteq> []" if "v1pc c t = KPop" using assms(2) that unfolding v1_end_inv_def by blast
  then show ?thesis using assms(3) ty by (cases "v1pc c t") (auto simp: v1_defs split: list.splits)
qed

lemma v1_no_deadlock:
  assumes inv: "v1_inv f p k xs c" and p: "1 \<le> p" "p \<le> k" and stuck: "\<forall>t \<in> {1..k}. v1_step f p (Go t) c = None"
  shows "\<forall>t \<in> {1..k}. v1pc c t = (if t \<le> p then QDone else KDone)"
proof -
  have lk: "v1_lk_inv p k c" and ad: "v1_add_inv {1..k} c" and en: "v1_end_inv p c" using inv by (auto simp: v1_inv_def)
  have st: "t \<in> {1..k} \<Longrightarrow> v1_step f p (Go t) c = None" for t using stuck by blast
  have outer: "t \<in> {1..k}" if "v1pc c t \<noteq> QRead" "v1pc c t \<noteq> KLock" for t
    using lk that unfolding v1_lk_inv_def by metis
  have nolock: "\<not> v1_locked (v1pc c t)" for t
    using v1_mover [OF lk en, of t f] st [of t] outer [of t] by (cases "v1pc c t") auto
  then have free: "buffer_lk c = None" using lk unfolding v1_lk_inv_def by (metis option.exhaust)
  have nsum: "v1pc c t \<noteq> KSum" for t
  proof
    assume "v1pc c t = KSum"
    then have "apc (v1sum c) t \<noteq> AIdle" "adder_inv {1..k} (v1sum c)" using ad by (auto simp: v1_add_inv_def)
    then obtain u where u: "u \<in> {1..k}" "apc (v1sum c) u \<noteq> AIdle" "sum_add u (v1sum c) \<noteq> None" using adder_live by blast
    then have "v1pc c u = KSum" using ad by (simp add: v1_add_inv_def)
    moreover have "\<not> u \<le> p" using lk calculation by (simp add: v1_lk_inv_def)
    ultimately have "v1_step f p (Go u) c \<noteq> None" using u(3) by (auto simp: v1_consumer_def)
    then show False using st [OF u(1)] by simp
  qed
  have quiet: "v1pc c t \<in> {QDone, KSleep, KDone}" if "t \<in> {1..k}" for t
    using v1_mover [OF lk en, of t f] st [OF that] free nolock [of t] nsum [of t] by (cases "v1pc c t") auto
  have ty: "t \<le> p \<longleftrightarrow> q_state (v1pc c t)" for t using lk by (simp add: v1_lk_inv_def)
  have "v1pc c 1 = QDone" using quiet [of 1] ty [of 1] p by auto
  then have eof: "is_eof c" using en unfolding v1_end_inv_def by blast
  have nsleep: "v1pc c t \<noteq> KSleep" for t
  proof
    assume "v1pc c t = KSleep"
    then obtain u b where u: "v1pc c u = QUnlock b \<or> v1pc c u = QBcast b" using en eof unfolding v1_end_inv_def by blast
    then show False using quiet [of u] outer [of u] by auto
  qed
  show ?thesis
  proof
    fix t assume "t \<in> {1..k}"
    then show "v1pc c t = (if t \<le> p then QDone else KDone)" using quiet [of t] ty [of t] nsleep [of t] by auto
  qed
qed

text \<open>\<open>join\<close> and the rest of \<open>main\<close>, for \<open>k\<close> threads: nothing while one of them is still
  running, then the printed sum.\<close>

definition v1_ended :: "v1c \<Rightarrow> tid \<Rightarrow> bool" where
  "v1_ended c t \<longleftrightarrow> v1pc c t = QDone \<or> v1pc c t = KDone"

fun v1_join :: "nat \<Rightarrow> v1c \<Rightarrow> bool" where
  "v1_join 0 c \<longleftrightarrow> True"
| "v1_join (Suc k) c \<longleftrightarrow> v1_join k c \<and> v1_ended c (Suc k)"

definition v1_main :: "nat \<Rightarrow> v1c \<Rightarrow> int option" where
  "v1_main k c = (if v1_join k c then Some (asum (v1sum c)) else None)"

lemma v1_join_all: "v1_join k c \<longleftrightarrow> (\<forall>t \<in> {1..k}. v1_ended c t)"
  by (induction k) (auto simp: atLeastAtMostSuc_conv)

text \<open>
  C25: \<^verbatim>\<open>midterm-v1.c\<close> with \<open>p \<ge> 1\<close> producers among \<open>k\<close> threads, in every state it can
  reach: no consumer pops the empty stack, and either some thread can go on, or all threads have
  ended and \<open>main\<close> prints the sum of \<open>f x\<close> over all numbers of the input. There is no deadlock, and
  no number is lost or counted twice.
\<close>

theorem midterm_v1_sum:
  assumes "reachable (v1_init p xs) (v1_step f p) (v1_acts k) c" "1 \<le> p" "p \<le> k"
  shows "(\<forall>t. v1pc c t = KPop \<longrightarrow> pop (buffer c) \<noteq> None) \<and>
    ((\<exists>t \<in> {1..k}. v1_step f p (Go t) c \<noteq> None) \<or>
     (\<forall>t \<in> {1..k}. v1pc c t = (if t \<le> p then QDone else KDone)) \<and> v1_main k c = Some (sum_list (map f xs)))"
proof -
  have inv: "v1_inv f p k xs c" by (rule v1.inv_reach [OF assms(1)])
  then have en: "v1_end_inv p c" by (simp add: v1_inv_def)
  have "pop (buffer c) \<noteq> None" if "v1pc c t = KPop" for t
    using en that unfolding v1_end_inv_def by (auto simp: pop_def split: list.splits)
  moreover have "v1_main k c = Some (sum_list (map f xs))" if d: "\<And>t. t \<in> {1..k} \<Longrightarrow> v1pc c t = (if t \<le> p then QDone else KDone)"
  proof -
    have "v1pc c 1 = QDone" using d [of 1] assms(2,3) by auto
    then have "v1in c = []" using en unfolding v1_end_inv_def by blast
    moreover have "buffer c = []" using en d assms(3) unfolding v1_end_inv_def by fastforce
    moreover have "v1_hand f c t = 0" if "t \<in> {1..k}" for t using d [OF that] by (simp add: v1_hand_def)
    moreover have "apc (v1sum c) t = AIdle" if "t \<in> {1..k}" for t
      using inv d [OF that] unfolding v1_inv_def v1_add_inv_def by (metis v1_pc.distinct)
    then have "promised {1..k} (v1sum c) = asum (v1sum c)" by (rule promised_idle)
    moreover have "v1_join k c" using d by (auto simp: v1_join_all v1_ended_def)
    ultimately show ?thesis using inv by (simp add: v1_inv_def v1_sum_inv_def v1_main_def)
  qed
  ultimately show ?thesis using v1_no_deadlock [OF inv assms(2,3)] by metis
qed

theorem midterm_v1_sum_witness:
  "\<exists>c. reachable (v1_init 1 [5]) (v1_step foo_f 1) (v1_acts 2) c \<and> v1pc c 2 = KDone \<and> v1_main 2 c = Some 5"
proof -
  let ?s = "schedule (v1_step foo_f 1)
    ([Go 2, Go 2, Go 1, Go 1, Go 1, Go 1, Go 1, Go 2, Go 2, Go 2, Go 2, Go 2, Go 2, Go 2, Go 2, Go 2, Go 2] @
     [Go 1, Go 1, Go 1, Go 1, Go 1, Go 2, Go 2, Go 2, Go 2]) (v1_init 1 [5])"
  have "case ?s of None \<Rightarrow> False | Some c \<Rightarrow> v1pc c 1 = QDone \<and> v1pc c 2 = KDone" by code_simp
  then obtain c where c: "?s = Some c" and d: "v1pc c 1 = QDone" "v1pc c 2 = KDone" by (auto split: option.splits)
  have r: "reachable (v1_init 1 [5]) (v1_step foo_f 1) (v1_acts 2) c"
    using c by (rule schedule_reachable) (auto simp: v1_acts_def)
  have "v1_step foo_f 1 (Go t) c = None" if "t \<in> {1..2}" for t
  proof -
    have "t = 1 \<or> t = 2" using that by auto
    then show ?thesis using d by (auto simp: v1_producer_def v1_consumer_def)
  qed
  then have "v1_main 2 c = Some 5" using midterm_v1_sum [OF r] by (auto simp: foo_f_def)
  then show ?thesis using r d(2) by blast
qed

subsection \<open>It need not end\<close>

text \<open>The numbers of threads of the program: \<^verbatim>\<open>P\<close> producers and \<^verbatim>\<open>NTHREAD\<close> threads in all.\<close>

definition v1_P :: nat where "v1_P = 320"
definition v1_NTHREAD :: nat where "v1_NTHREAD = 6400"

text \<open>Every thread but the first producer has ended, and a number is on the stack.\<close>

definition v1_stuck :: "nat \<Rightarrow> nat \<Rightarrow> v1c \<Rightarrow> bool" where
  "v1_stuck p k c \<longleftrightarrow> buffer c \<noteq> [] \<and> v1in c = [] \<and> (\<forall>t \<in> {2..p}. v1pc c t = QDone) \<and> (\<forall>t \<in> {p<..k}. v1pc c t = KDone) \<and>
     v1pc c 1 \<in> {QRead, QLock False, QTest False, QUnlock False, QBcast False}"

lemma v1_stuck_cases:
  assumes "v1_stuck p k c" "t \<in> {1..k}" "t \<noteq> 1"
  shows "v1pc c t = QDone \<or> v1pc c t = KDone"
  using assms by (cases "t \<le> p") (auto simp: v1_stuck_def)

lemma v1_stuck_step:
  assumes st: "v1_stuck p k c" and a: "a \<in> v1_acts k" and step: "v1_step f p a c = Some c'" and p: "1 \<le> p"
  shows "v1_stuck p k c'"
proof -
  obtain t where t: "t \<in> {1..k}" "a = Go t \<or> a = Spurious t" using a by (auto simp: v1_acts_def)
  have "v1_step f p a c = None" if "t \<noteq> 1"
    using v1_stuck_cases [OF st t(1) that] t(2) by (auto simp: v1_producer_def v1_consumer_def)
  moreover have "v1_step f p (Spurious 1) c = None" using st by (auto simp: v1_stuck_def)
  ultimately have "a = Go 1" using t(2) step by (cases "t = 1") auto
  then show ?thesis using st step p by (auto simp: v1_stuck_def v1_defs split: if_splits option.splits)
qed

interpretation stuck: invariant_system "v1_stuck (Suc p) k" "threads_step (v1_step f (Suc p)) (v1_acts k)" "v1_stuck (Suc p) k" for f p k
  by unfold_locales (auto simp: threads_step_def intro: v1_stuck_step)

text \<open>All but the last number pass from the first producer through the first consumer to the sum.
  Then the first producer reads the last number; the others find the end of the input and an empty
  stack, raise the flag and end; the consumers end too; then the first producer pushes its number.\<close>

definition v1_relay :: "nat \<Rightarrow> act list" where
  "v1_relay p = replicate 5 (Go 1) @ replicate 10 (Go (Suc p))"

definition v1_home :: "nat \<Rightarrow> tid list \<Rightarrow> act list" where
  "v1_home n ts = concat (map (\<lambda>t. replicate n (Go t)) ts)"

definition v1_bad_run :: "nat \<Rightarrow> nat \<Rightarrow> nat \<Rightarrow> act list" where
  "v1_bad_run p k n = concat (replicate n (v1_relay p)) @ [Go 1] @ v1_home 5 [2..<Suc p] @ v1_home 4 [Suc p..<Suc k] @ replicate 4 (Go 1)"

definition v1_fresh :: "nat \<Rightarrow> v1c \<Rightarrow> bool" where
  "v1_fresh p c \<longleftrightarrow> buffer c = [] \<and> buffer_lk c = None \<and> \<not> is_eof c \<and> v1pc c = (\<lambda>t. if t \<le> p then QRead else KLock) \<and>
     sum_lk (v1sum c) = None \<and> apc (v1sum c) = (\<lambda>_. AIdle)"

lemma relay_producer:
  assumes "v1_fresh p c" "v1in c = y # ys" "1 \<le> p"
  shows "\<exists>c'. schedule (v1_step f p) (replicate 5 (Go 1)) c = Some c' \<and> v1_fresh p (c'\<lparr>buffer := []\<rparr>) \<and> buffer c' = [y] \<and>
    v1in c' = ys \<and> v1sum c' = v1sum c"
  using assms by (auto simp: v1_fresh_def numeral_eq_Suc v1_defs)

lemma relay_consumer:
  assumes "v1_fresh p (c\<lparr>buffer := []\<rparr>)" "buffer c = [y]"
  shows "\<exists>c'. schedule (v1_step f p) (replicate 10 (Go (Suc p))) c = Some c' \<and> v1_fresh p c' \<and>
    v1in c' = v1in c \<and> asum (v1sum c') = asum (v1sum c) + f y"
  using assms by (auto simp: v1_fresh_def numeral_eq_Suc v1_defs sum_enter_def sum_add_def)

lemma relay_run:
  assumes "v1_fresh p c" "v1in c = ys @ zs" "1 \<le> p"
  shows "\<exists>c'. schedule (v1_step f p) (concat (replicate (length ys) (v1_relay p))) c = Some c' \<and> v1_fresh p c' \<and>
    v1in c' = zs \<and> asum (v1sum c') = asum (v1sum c) + sum_list (map f ys)"
  using assms
proof (induction ys arbitrary: c)
  case (Cons y ys)
  obtain c1 where c1: "schedule (v1_step f p) (replicate 5 (Go 1)) c = Some c1" "v1_fresh p (c1\<lparr>buffer := []\<rparr>)" "buffer c1 = [y]"
    "v1in c1 = ys @ zs" "v1sum c1 = v1sum c" using relay_producer [OF Cons.prems(1) _ Cons.prems(3)] Cons.prems(2) by fastforce
  obtain c2 where c2: "schedule (v1_step f p) (replicate 10 (Go (Suc p))) c1 = Some c2" "v1_fresh p c2" "v1in c2 = ys @ zs"
    "asum (v1sum c2) = asum (v1sum c) + f y" using relay_consumer [OF c1(2,3)] c1(4,5) by fastforce
  show ?case using Cons.IH [OF c2(2,3) Cons.prems(3)] c1(1) c2(1,4)
    by (auto simp: v1_relay_def schedule_append add.assoc)
qed simp

lemma producer_home:
  assumes "v1pc c t = QRead" "t \<le> p" "v1in c = []" "buffer c = []" "buffer_lk c = None" "\<forall>u. v1pc c u \<noteq> KSleep"
  shows "schedule (v1_step f p) (replicate 5 (Go t)) c = Some (c\<lparr>is_eof := True, v1pc := (v1pc c)(t := QDone)\<rparr>)"
proof -
  have "(\<lambda>u. if v1pc c u = KSleep then KWake else v1pc c u) = v1pc c" using assms(6) by auto
  then show ?thesis using assms by (cases c) (simp add: numeral_eq_Suc v1_defs fun_eq_iff)
qed

lemma consumer_home:
  assumes "v1pc c t = KLock" "\<not> t \<le> p" "is_eof c" "buffer c = []" "buffer_lk c = None"
  shows "schedule (v1_step f p) (replicate 4 (Go t)) c = Some (c\<lparr>v1pc := (v1pc c)(t := KDone)\<rparr>)"
  using assms by (cases c) (simp add: numeral_eq_Suc v1_defs)

lemma producers_home:
  assumes "distinct ts" "\<forall>t \<in> set ts. t \<le> p \<and> v1pc c t = QRead" "v1in c = []" "buffer c = []" "buffer_lk c = None"
    "\<forall>u. v1pc c u \<noteq> KSleep"
  shows "schedule (v1_step f p) (v1_home 5 ts) c =
    Some (c\<lparr>is_eof := is_eof c \<or> ts \<noteq> [], v1pc := (\<lambda>u. if u \<in> set ts then QDone else v1pc c u)\<rparr>)"
  using assms
proof (induction ts arbitrary: c)
  case (Cons t ts)
  let ?c = "c\<lparr>is_eof := True, v1pc := (v1pc c)(t := QDone)\<rparr>"
  have "schedule (v1_step f p) (v1_home 5 (t # ts)) c = schedule (v1_step f p) (v1_home 5 ts) ?c"
    using producer_home [of c t p] Cons.prems by (simp add: v1_home_def schedule_append)
  also have "\<dots> = Some (?c\<lparr>is_eof := is_eof ?c \<or> ts \<noteq> [], v1pc := (\<lambda>u. if u \<in> set ts then QDone else v1pc ?c u)\<rparr>)"
    by (rule Cons.IH) (use Cons.prems in auto)
  finally show ?case by (auto simp: fun_eq_iff)
qed (simp add: v1_home_def)

lemma consumers_home:
  assumes "distinct ts" "\<forall>t \<in> set ts. \<not> t \<le> p \<and> v1pc c t = KLock" "is_eof c" "buffer c = []" "buffer_lk c = None"
  shows "schedule (v1_step f p) (v1_home 4 ts) c = Some (c\<lparr>v1pc := (\<lambda>u. if u \<in> set ts then KDone else v1pc c u)\<rparr>)"
  using assms
proof (induction ts arbitrary: c)
  case (Cons t ts)
  let ?c = "c\<lparr>v1pc := (v1pc c)(t := KDone)\<rparr>"
  have "schedule (v1_step f p) (v1_home 4 (t # ts)) c = schedule (v1_step f p) (v1_home 4 ts) ?c"
    using consumer_home [of c t p] Cons.prems by (simp add: v1_home_def schedule_append)
  also have "\<dots> = Some (?c\<lparr>v1pc := (\<lambda>u. if u \<in> set ts then KDone else v1pc ?c u)\<rparr>)"
    by (rule Cons.IH) (use Cons.prems in auto)
  finally show ?case by (auto simp: fun_eq_iff)
qed (simp add: v1_home_def)

lemma last_push:
  assumes "v1pc c 1 = QLock True" "1 \<le> p" "buffer c = []" "buffer_lk c = None" "v1in c = []"
    "\<forall>t \<in> {2..p}. v1pc c t = QDone" "\<forall>t \<in> {p<..k}. v1pc c t = KDone"
  shows "\<exists>c'. schedule (v1_step f p) (replicate 4 (Go 1)) c = Some c' \<and> v1_stuck p k c' \<and> v1sum c' = v1sum c"
  using assms by (auto simp: numeral_eq_Suc v1_defs v1_stuck_def)

lemma v1_bad_run_stuck:
  assumes p: "2 \<le> p" "p \<le> k"
  shows "\<exists>c. schedule (v1_step f p) (v1_bad_run p k (length ys)) (v1_init p (ys @ [x])) = Some c \<and> v1_stuck p k c \<and>
    asum (v1sum c) = sum_list (map f ys)"
proof -
  let ?S = "schedule (v1_step f p)"
  have "v1_fresh p (v1_init p (ys @ [x]))" by (simp add: v1_fresh_def v1_init_def adder0_def)
  moreover have "v1in (v1_init p (ys @ [x])) = ys @ [x]" "asum (v1sum (v1_init p (ys @ [x]))) = 0" by (simp_all add: v1_init_def adder0_def)
  ultimately obtain c1 where c1: "?S (concat (replicate (length ys) (v1_relay p))) (v1_init p (ys @ [x])) = Some c1"
    "v1_fresh p c1" "v1in c1 = [x]" "asum (v1sum c1) = sum_list (map f ys)" using relay_run [of p _ ys "[x]" f] p by fastforce
  let ?c2 = "q_goto 1 (QLock True) (c1\<lparr>v1in := [], v1x := (v1x c1)(1 := x)\<rparr>)"
  let ?c3 = "?c2\<lparr>is_eof := True, v1pc := (\<lambda>u. if u \<in> {2..p} then QDone else v1pc ?c2 u)\<rparr>"
  let ?c4 = "?c3\<lparr>v1pc := (\<lambda>u. if u \<in> {p<..k} then KDone else v1pc ?c3 u)\<rparr>"
  have s: "set [2..<Suc p] = {2..p}" "set [Suc p..<Suc k] = {p<..k}" by auto
  have c2: "?S [Go 1] c1 = Some ?c2" using c1(2,3) p by (simp add: v1_fresh_def v1_producer_def)
  have pc2: "v1pc ?c2 = (\<lambda>t. if t = 1 then QLock True else if t \<le> p then QRead else KLock)"
    and v2: "v1in ?c2 = []" "buffer ?c2 = []" "buffer_lk ?c2 = None" using c1(2) by (auto simp: q_goto_def v1_fresh_def)
  have "?S (v1_home 5 [2..<Suc p]) ?c2 =
      Some (?c2\<lparr>is_eof := is_eof ?c2 \<or> [2..<Suc p] \<noteq> [], v1pc := (\<lambda>u. if u \<in> set [2..<Suc p] then QDone else v1pc ?c2 u)\<rparr>)"
    by (rule producers_home) (use pc2 v2 in auto)
  then have c3: "?S (v1_home 5 [2..<Suc p]) ?c2 = Some ?c3" using p unfolding s by simp
  have "?S (v1_home 4 [Suc p..<Suc k]) ?c3 = Some (?c3\<lparr>v1pc := (\<lambda>u. if u \<in> set [Suc p..<Suc k] then KDone else v1pc ?c3 u)\<rparr>)"
    by (rule consumers_home) (use pc2 v2 p in auto)
  then have c4: "?S (v1_home 4 [Suc p..<Suc k]) ?c3 = Some ?c4" unfolding s .
  obtain c where c: "?S (replicate 4 (Go 1)) ?c4 = Some c" "v1_stuck p k c" "v1sum c = v1sum ?c4"
    using last_push [of ?c4 p k f] pc2 v2 p by auto
  have "?S (v1_bad_run p k (length ys)) (v1_init p (ys @ [x])) = Some c"
    unfolding v1_bad_run_def schedule_append c1(1) bind.bind_lunit c2 c3 c4 c(1) ..
  then show ?thesis using c(2,3) c1(4) by (auto simp: q_goto_def)
qed

lemma v1_bad_run_acts:
  assumes "2 \<le> p" "p \<le> k" "0 < n \<Longrightarrow> p < k"
  shows "set (v1_bad_run p k n) \<subseteq> v1_acts k"
  using assms by (auto simp: v1_bad_run_def v1_relay_def v1_home_def v1_acts_def)

text \<open>
  C26: \<^verbatim>\<open>midterm-v1.c\<close> need not end, with any number of producers from two on and on every
  non-empty input (with a consumer to take the numbers before the last one): it can reach a state
  from which, whatever the scheduling, the stack is never emptied, the first producer never leaves
  its loop, and \<^verbatim>\<open>main\<close> never gets past \<^verbatim>\<open>join\<close> to print the sum. The other producers have
  raised \<^verbatim>\<open>is_eof\<close> while the first one still held the last number. The program itself has
  \<^verbatim>\<open>P\<close> = 320 and \<^verbatim>\<open>NTHREAD\<close> = 6400.
\<close>

theorem midterm_v1_need_not_end:
  assumes "2 \<le> p" "p \<le> k" "ys \<noteq> [] \<Longrightarrow> p < k"
  shows "\<exists>c. reachable (v1_init p (ys @ [x])) (v1_step f p) (v1_acts k) c \<and> asum (v1sum c) = sum_list (map f ys) \<and>
     Collect (reach (\<lambda>d. d = c) (threads_step (v1_step f p) (v1_acts k))) \<subseteq>
       {d. v1pc d 1 \<noteq> QDone \<and> buffer d \<noteq> [] \<and> v1_main k d = None}"
proof -
  obtain c where c: "schedule (v1_step f p) (v1_bad_run p k (length ys)) (v1_init p (ys @ [x])) = Some c" "v1_stuck p k c"
    "asum (v1sum c) = sum_list (map f ys)" using v1_bad_run_stuck [OF assms(1,2)] by blast
  have r: "reachable (v1_init p (ys @ [x])) (v1_step f p) (v1_acts k) c"
    using c(1) by (rule schedule_reachable) (rule v1_bad_run_acts, use assms in auto)
  have "v1pc d 1 \<noteq> QDone \<and> buffer d \<noteq> [] \<and> v1_main k d = None"
    if d: "reach (\<lambda>d. d = c) (threads_step (v1_step f p) (v1_acts k)) d" for d
  proof -
    obtain q where q: "p = Suc q" using assms(1) by (cases p) auto
    have "reach (v1_stuck p k) (threads_step (v1_step f p) (v1_acts k)) d"
      using d by (induction rule: reach.induct) (auto intro: reach.intros c(2))
    then have "v1_stuck p k d" unfolding q by (rule stuck.inv_reach)
    moreover have "1 \<in> {1..k}" using assms(1,2) by simp
    ultimately show ?thesis by (auto simp: v1_stuck_def v1_main_def v1_join_all v1_ended_def intro!: bexI [of _ 1])
  qed
  then show ?thesis using r c(3) by (intro exI [of _ c]) auto
qed

text \<open>The program with its own numbers of threads, on the input 3 5.\<close>

theorem midterm_v1_need_not_end_witness:
  "\<exists>c. reachable (v1_init v1_P [3, 5]) (v1_step foo_f v1_P) (v1_acts v1_NTHREAD) c \<and> asum (v1sum c) = 3 \<and>
     Collect (reach (\<lambda>d. d = c) (threads_step (v1_step foo_f v1_P) (v1_acts v1_NTHREAD))) \<subseteq>
       {d. v1pc d 1 \<noteq> QDone \<and> buffer d \<noteq> [] \<and> v1_main v1_NTHREAD d = None}"
  using midterm_v1_need_not_end [of v1_P v1_NTHREAD "[3]" 5 foo_f] by (simp add: v1_P_def v1_NTHREAD_def foo_f_def)

end
