(* ===== verification/Midterm_Tle.thy ===== *)
theory Midterm_Tle
  imports Midterm
begin

text \<open>
  The solution \<^verbatim>\<open>midterm-tle.c\<close>: the main thread starts a worker for every number of the
  input, in a free slot of a small pool, and waits on a condition variable when all slots are
  taken; at the end it joins the workers that are still marked live and prints the sum. \<open>N\<close> is
  the number of slots (8 in the source); worker \<open>i < N\<close> is thread \<open>i\<close>, the main thread is thread
  \<open>N\<close>. Shown: no deadlock (no wake-up of the main thread is lost), no slot is given to two workers,
  and the printed sum is right although \<open>join\<close> reads the statuses without the lock.
\<close>

subsection \<open>The program\<close>

datatype m_pc = MRead | MLock | MFind | MSleep | MWake | MSet nat | MUnlock nat | MSpawn nat
  | MJoin nat | MWait nat | MDead nat | MPrint | MDone

text \<open>\<open>WNone\<close>: no worker runs in the slot.\<close>

datatype w_pc = WNone | WCall | WSum | WLock | WFree | WBcast | WUnlock

record tlec =
  tin :: "int list"
  targ :: "nat \<Rightarrow> int"
  tstat :: "nat \<Rightarrow> tstatus"
  tpool_lk :: mutex
  tx :: int
  mpc :: m_pc
  wpc :: "nat \<Rightarrow> w_pc"
  tsum :: adder
  tout :: "int option"

definition tle_init :: "int list \<Rightarrow> tlec" where
  "tle_init xs = \<lparr>tin = xs, targ = (\<lambda>_. 0), tstat = (\<lambda>_. T_FREE), tpool_lk = None, tx = 0, mpc = MRead,
     wpc = (\<lambda>_. WNone), tsum = adder0, tout = None\<rparr>"

text \<open>\<^verbatim>\<open>free_index\<close>; \<open>None\<close> is the returned -1.\<close>

function free_index_from :: "nat \<Rightarrow> nat \<Rightarrow> (nat \<Rightarrow> tstatus) \<Rightarrow> nat option" where
  "free_index_from N i st = (if i < N then if st i = T_FREE then Some i else free_index_from N (Suc i) st else None)"
  by auto
termination by (relation "measure (\<lambda>(N, i, _). N - i)") auto

definition free_index :: "nat \<Rightarrow> (nat \<Rightarrow> tstatus) \<Rightarrow> nat option" where
  "free_index N st = free_index_from N 0 st"

definition w_goto :: "nat \<Rightarrow> w_pc \<Rightarrow> tlec \<Rightarrow> tlec" where
  "w_goto i pc c = c\<lparr>wpc := (wpc c)(i := pc)\<rparr>"

definition tle_wrapper :: "(int \<Rightarrow> int) \<Rightarrow> nat \<Rightarrow> tlec \<Rightarrow> tlec option" where
  "tle_wrapper f i c =
     (case wpc c i of
        WNone \<Rightarrow> None
      | WCall \<Rightarrow> Some (w_goto i WSum (c\<lparr>tsum := sum_enter i (f (targ c i)) (tsum c)\<rparr>))
      | WSum \<Rightarrow> (case sum_add i (tsum c) of None \<Rightarrow> None
                  | Some a \<Rightarrow> Some (w_goto i (if apc a i = AIdle then WLock else WSum) (c\<lparr>tsum := a\<rparr>)))
      | WLock \<Rightarrow> (let (ok, m) = mutex_lock i (tpool_lk c) in if ok then Some (w_goto i WFree (c\<lparr>tpool_lk := m\<rparr>)) else None)
      | WFree \<Rightarrow> Some (w_goto i WBcast (c\<lparr>tstat := (tstat c)(i := T_FREE)\<rparr>))
      | WBcast \<Rightarrow> Some (w_goto i WUnlock (c\<lparr>mpc := if mpc c = MSleep then MWake else mpc c\<rparr>))
      | WUnlock \<Rightarrow> Some (w_goto i WNone (c\<lparr>tpool_lk := mutex_unlock i (tpool_lk c)\<rparr>)))"

text \<open>\<^verbatim>\<open>create\<close>, called by the main thread \<open>N\<close> with the number in \<open>tx\<close>.\<close>

definition tle_create :: "nat \<Rightarrow> tlec \<Rightarrow> tlec option" where
  "tle_create N c =
     (case mpc c of
        MLock \<Rightarrow> (let (ok, m) = mutex_lock N (tpool_lk c) in if ok then Some (c\<lparr>tpool_lk := m, mpc := MFind\<rparr>) else None)
      | MFind \<Rightarrow> (case free_index N (tstat c) of
            None \<Rightarrow> Some (c\<lparr>tpool_lk := mutex_unlock N (tpool_lk c), mpc := MSleep\<rparr>)
          | Some index \<Rightarrow> if tstat c index = T_FREE then Some (c\<lparr>mpc := MSet index\<rparr>) else None)
      | MWake \<Rightarrow> (let (ok, m) = mutex_lock N (tpool_lk c) in if ok then Some (c\<lparr>tpool_lk := m, mpc := MFind\<rparr>) else None)
      | MSet i \<Rightarrow> Some (c\<lparr>targ := (targ c)(i := tx c), tstat := (tstat c)(i := T_LIVE), mpc := MUnlock i\<rparr>)
      | MUnlock i \<Rightarrow> Some (c\<lparr>tpool_lk := mutex_unlock N (tpool_lk c), mpc := MSpawn i\<rparr>)
      | MSpawn i \<Rightarrow> Some (w_goto i WCall (c\<lparr>mpc := MRead\<rparr>))
      | _ \<Rightarrow> None)"

definition tle_join :: "nat \<Rightarrow> tlec \<Rightarrow> tlec option" where
  "tle_join N c =
     (case mpc c of
        MJoin i \<Rightarrow> Some (c\<lparr>mpc := if i < N then if tstat c i = T_LIVE then MWait i else MJoin (Suc i) else MPrint\<rparr>)
      | MWait i \<Rightarrow> (if wpc c i = WNone then Some (c\<lparr>mpc := MDead i\<rparr>) else None)
      | MDead i \<Rightarrow> Some (c\<lparr>tstat := (tstat c)(i := T_DEAD), mpc := MJoin (Suc i)\<rparr>)
      | _ \<Rightarrow> None)"

definition tle_main :: "nat \<Rightarrow> tlec \<Rightarrow> tlec option" where
  "tle_main N c =
     (case mpc c of
        MRead \<Rightarrow> (case tin c of [] \<Rightarrow> Some (c\<lparr>mpc := MJoin 0\<rparr>) | x # xs \<Rightarrow> Some (c\<lparr>tin := xs, tx := x, mpc := MLock\<rparr>))
      | MJoin _ \<Rightarrow> tle_join N c
      | MWait _ \<Rightarrow> tle_join N c
      | MDead _ \<Rightarrow> tle_join N c
      | MPrint \<Rightarrow> Some (c\<lparr>tout := Some (asum (tsum c)), mpc := MDone\<rparr>)
      | MDone \<Rightarrow> None
      | _ \<Rightarrow> tle_create N c)"

primrec tle_step :: "(int \<Rightarrow> int) \<Rightarrow> nat \<Rightarrow> act \<Rightarrow> tlec \<Rightarrow> tlec option" where
  "tle_step f N (Go t) c = (if t < N then tle_wrapper f t c else tle_main N c)"
| "tle_step f N (Spurious t) c = (if mpc c = MSleep then Some (c\<lparr>mpc := MWake\<rparr>) else None)"

definition tle_acts :: "nat \<Rightarrow> act set" where
  "tle_acts N = Go ` {0..N} \<union> {Spurious N}"

lemma free_index_from_Some: "free_index_from N i st = Some j \<Longrightarrow> j < N \<and> st j = T_FREE"
  by (induction N i st rule: free_index_from.induct) (auto split: if_splits)

lemma free_index_from_None: "free_index_from N i st = None \<Longrightarrow> i \<le> j \<Longrightarrow> j < N \<Longrightarrow> st j \<noteq> T_FREE"
proof (induction N i st rule: free_index_from.induct)
  case (1 N i st)
  then show ?case by (cases "j = i") (auto split: if_splits)
qed

declare free_index_from.simps [simp del]

lemma free_index_Some: "free_index N st = Some j \<Longrightarrow> j < N \<and> st j = T_FREE"
  by (simp add: free_index_def free_index_from_Some)

lemma free_index_None: "free_index N st = None \<Longrightarrow> j < N \<Longrightarrow> st j \<noteq> T_FREE"
  by (simp add: free_index_def free_index_from_None)

subsection \<open>The invariant\<close>

primrec m_locked :: "m_pc \<Rightarrow> bool" where
  "m_locked MRead = False" | "m_locked MLock = False" | "m_locked MFind = True" | "m_locked MSleep = False" | "m_locked MWake = False"
| "m_locked (MSet i) = True" | "m_locked (MUnlock i) = True" | "m_locked (MSpawn i) = False" | "m_locked (MJoin i) = False"
| "m_locked (MWait i) = False" | "m_locked (MDead i) = False" | "m_locked MPrint = False" | "m_locked MDone = False"

primrec w_locked :: "w_pc \<Rightarrow> bool" where
  "w_locked WNone = False" | "w_locked WCall = False" | "w_locked WSum = False" | "w_locked WLock = False"
| "w_locked WFree = True" | "w_locked WBcast = True" | "w_locked WUnlock = True"

text \<open>The worker has not yet given its slot back.\<close>

primrec w_live :: "w_pc \<Rightarrow> bool" where
  "w_live WNone = False" | "w_live WCall = True" | "w_live WSum = True" | "w_live WLock = True"
| "w_live WFree = True" | "w_live WBcast = False" | "w_live WUnlock = False"

text \<open>The slot that the main thread is filling, from the choice to the start of the worker.\<close>

fun m_slot :: "m_pc \<Rightarrow> nat option" where
  "m_slot (MSet i) = Some i" | "m_slot (MUnlock i) = Some i" | "m_slot (MSpawn i) = Some i" | "m_slot _ = None"

fun m_given :: "m_pc \<Rightarrow> nat option" where
  "m_given (MUnlock i) = Some i" | "m_given (MSpawn i) = Some i" | "m_given _ = None"

fun m_joined :: "nat \<Rightarrow> m_pc \<Rightarrow> nat option" where
  "m_joined N (MJoin i) = Some i" | "m_joined N (MWait i) = Some i" | "m_joined N (MDead i) = Some i"
| "m_joined N MPrint = Some N" | "m_joined N MDone = Some N" | "m_joined N _ = None"

fun m_holds :: "m_pc \<Rightarrow> bool" where
  "m_holds MLock = True" | "m_holds MFind = True" | "m_holds MSleep = True" | "m_holds MWake = True" | "m_holds (MSet i) = True"
| "m_holds _ = False"

definition t_lk_inv :: "nat \<Rightarrow> tlec \<Rightarrow> bool" where
  "t_lk_inv N c \<longleftrightarrow> (tpool_lk c = Some N \<longleftrightarrow> m_locked (mpc c)) \<and> (\<forall>i < N. tpool_lk c = Some i \<longleftrightarrow> w_locked (wpc c i)) \<and>
     (\<forall>t. tpool_lk c = Some t \<longrightarrow> t \<le> N)"

definition t_add_inv :: "nat \<Rightarrow> tlec \<Rightarrow> bool" where
  "t_add_inv N c \<longleftrightarrow> adder_inv {0..<N} (tsum c) \<and> (\<forall>i < N. apc (tsum c) i \<noteq> AIdle \<longleftrightarrow> wpc c i = WSum)"

definition t_slot_inv :: "nat \<Rightarrow> tlec \<Rightarrow> bool" where
  "t_slot_inv N c \<longleftrightarrow>
     (\<forall>i < N. tstat c i = T_LIVE \<longleftrightarrow> w_live (wpc c i) \<or> m_given (mpc c) = Some i) \<and>
     (\<forall>i. m_slot (mpc c) = Some i \<longrightarrow> i < N \<and> wpc c i = WNone) \<and>
     (\<forall>i < N. tstat c i = T_DEAD \<longrightarrow> m_joined N (mpc c) \<noteq> None) \<and>
     (\<forall>j. m_joined N (mpc c) = Some j \<longrightarrow> tin c = [] \<and> j \<le> N \<and> (\<forall>i < j. \<not> w_live (wpc c i))) \<and>
     (\<forall>j. mpc c = MDead j \<longrightarrow> wpc c j = WNone) \<and>
     (\<forall>j. mpc c = MWait j \<or> mpc c = MDead j \<longrightarrow> j < N) \<and>
     (mpc c = MSleep \<longrightarrow> (\<exists>i < N. tstat c i = T_FREE) \<longrightarrow> (\<exists>i < N. wpc c i = WBcast))"

lemma t_slotI:
  assumes "\<And>i. i < N \<Longrightarrow> tstat c i = T_LIVE \<longleftrightarrow> w_live (wpc c i) \<or> m_given (mpc c) = Some i"
    "\<And>i. m_slot (mpc c) = Some i \<Longrightarrow> i < N \<and> wpc c i = WNone"
    "\<And>i. i < N \<Longrightarrow> tstat c i = T_DEAD \<Longrightarrow> m_joined N (mpc c) \<noteq> None"
    "\<And>j. m_joined N (mpc c) = Some j \<Longrightarrow> tin c = [] \<and> j \<le> N \<and> (\<forall>i < j. \<not> w_live (wpc c i))"
    "\<And>j. mpc c = MDead j \<Longrightarrow> wpc c j = WNone"
    "\<And>j. mpc c = MWait j \<or> mpc c = MDead j \<Longrightarrow> j < N"
    "mpc c = MSleep \<Longrightarrow> \<exists>i < N. tstat c i = T_FREE \<Longrightarrow> \<exists>i < N. wpc c i = WBcast"
  shows "t_slot_inv N c"
  unfolding t_slot_inv_def by (intro conjI; (intro allI impI)?; (rule assms; assumption))

lemma t_slotD:
  assumes "t_slot_inv N c"
  shows "i < N \<Longrightarrow> tstat c i = T_LIVE \<longleftrightarrow> w_live (wpc c i) \<or> m_given (mpc c) = Some i"
    "m_slot (mpc c) = Some i \<Longrightarrow> i < N \<and> wpc c i = WNone"
    "i < N \<Longrightarrow> tstat c i = T_DEAD \<Longrightarrow> m_joined N (mpc c) \<noteq> None"
    "m_joined N (mpc c) = Some j \<Longrightarrow> tin c = [] \<and> j \<le> N \<and> (\<forall>i < j. \<not> w_live (wpc c i))"
    "mpc c = MDead j \<Longrightarrow> wpc c j = WNone"
    "mpc c = MWait j \<or> mpc c = MDead j \<Longrightarrow> j < N"
    "mpc c = MSleep \<Longrightarrow> \<exists>i < N. tstat c i = T_FREE \<Longrightarrow> \<exists>i < N. wpc c i = WBcast"
  using assms unfolding t_slot_inv_def by (elim conjE; simp only: HOL.simp_thms; metis)+

definition t_hand :: "(int \<Rightarrow> int) \<Rightarrow> tlec \<Rightarrow> nat \<Rightarrow> int" where
  "t_hand f c i = (if wpc c i = WCall \<or> m_given (mpc c) = Some i then f (targ c i) else 0)"

definition t_sum_inv :: "(int \<Rightarrow> int) \<Rightarrow> nat \<Rightarrow> int list \<Rightarrow> tlec \<Rightarrow> bool" where
  "t_sum_inv f N xs c \<longleftrightarrow>
     promised {0..<N} (tsum c) + (\<Sum>i\<in>{0..<N}. t_hand f c i) + (if m_holds (mpc c) then f (tx c) else 0) + sum_list (map f (tin c))
       = sum_list (map f xs) \<and>
     (mpc c = MDone \<longrightarrow> tout c = Some (sum_list (map f xs)))"

definition tle_inv :: "(int \<Rightarrow> int) \<Rightarrow> nat \<Rightarrow> int list \<Rightarrow> tlec \<Rightarrow> bool" where
  "tle_inv f N xs c \<longleftrightarrow> t_lk_inv N c \<and> t_add_inv N c \<and> t_slot_inv N c \<and> t_sum_inv f N xs c"

lemmas tle_defs = tle_wrapper_def tle_main_def tle_create_def tle_join_def w_goto_def mutex_lock_def mutex_unlock_def

lemma tle_inv_init: "tle_inv f N xs (tle_init xs)"
proof -
  have "t_hand f (tle_init xs) i = 0" for i by (simp add: t_hand_def tle_init_def)
  then have "t_sum_inv f N xs (tle_init xs)" by (simp add: t_sum_inv_def) (simp add: tle_init_def adder0_promised)
  moreover have "t_add_inv N (tle_init xs)" by (simp add: t_add_inv_def tle_init_def adder0_inv) (simp add: adder0_def)
  ultimately show ?thesis by (simp add: tle_inv_def) (simp add: tle_init_def t_lk_inv_def t_slot_inv_def)
qed

subsection \<open>Steps of a worker\<close>

lemma w_frame:
  assumes "tle_wrapper f i c = Some c'"
  shows "j \<noteq> i \<Longrightarrow> wpc c' j = wpc c j" "j \<noteq> i \<Longrightarrow> tstat c' j = tstat c j" "j \<noteq> i \<Longrightarrow> apc (tsum c') j = apc (tsum c) j"
    "targ c' = targ c" "tx c' = tx c" "tin c' = tin c" "tout c' = tout c"
    "mpc c' = mpc c \<or> wpc c i = WBcast \<and> mpc c = MSleep \<and> mpc c' = MWake"
  using assms by (cases "wpc c i"; auto simp: tle_defs dest: sum_add_frame split: if_splits option.splits)+

lemma w_lk:
  assumes inv: "t_lk_inv N c" and i: "i < N" and step: "tle_wrapper f i c = Some c'"
  shows "t_lk_inv N c'"
proof -
  have "tpool_lk c = Some i \<longleftrightarrow> w_locked (wpc c i)" using inv i by (simp add: t_lk_inv_def)
  moreover have "m_locked (mpc c') = m_locked (mpc c)" using w_frame(8) [OF step] by auto
  moreover have "tpool_lk c' = Some j \<longleftrightarrow> w_locked (wpc c' j)" if "j < N" for j
  proof -
    have "tpool_lk c = Some j \<longleftrightarrow> w_locked (wpc c j)" using inv that by (simp add: t_lk_inv_def)
    then show ?thesis using step calculation(1)
      by (cases "wpc c i") (auto simp: tle_defs split: if_splits option.splits)
  qed
  moreover have "(tpool_lk c' = Some N) = (tpool_lk c = Some N)" "tpool_lk c' = Some t \<Longrightarrow> t \<le> N" for t
    using step calculation(1) i inv unfolding t_lk_inv_def
    by (cases "wpc c i"; auto simp: tle_defs split: if_splits option.splits)+
  ultimately show ?thesis using inv unfolding t_lk_inv_def by blast
qed

lemma w_add:
  assumes inv: "t_add_inv N c" and i: "i < N" and step: "tle_wrapper f i c = Some c'"
  shows "t_add_inv N c'"
proof -
  have ad: "adder_inv {0..<N} (tsum c)" and iff: "apc (tsum c) i \<noteq> AIdle \<longleftrightarrow> wpc c i = WSum" using inv i by (auto simp: t_add_inv_def)
  have "adder_inv {0..<N} (tsum c')"
    using step ad iff i sum_enter_inv [OF ad, of i] sum_add_inv [OF ad]
    by (cases "wpc c i") (auto simp: tle_defs split: if_splits option.splits)
  moreover have "apc (tsum c') i \<noteq> AIdle \<longleftrightarrow> wpc c' i = WSum"
    using step iff by (cases "wpc c i") (auto simp: tle_defs split: if_splits option.splits)
  moreover have "apc (tsum c') j \<noteq> AIdle \<longleftrightarrow> wpc c' j = WSum" if "j < N" "j \<noteq> i" for j
    using w_frame(1,3) [OF step that(2)] inv that(1) by (simp add: t_add_inv_def)
  ultimately show ?thesis unfolding t_add_inv_def by metis
qed

lemma w_local:
  assumes "tle_wrapper f i c = Some c'"
  shows "w_live (wpc c i) \<longleftrightarrow> wpc c i \<noteq> WFree \<and> w_live (wpc c' i) \<or> wpc c i = WFree" "wpc c i \<noteq> WNone"
    "w_live (wpc c' i) \<Longrightarrow> w_live (wpc c i) \<and> tstat c' i = tstat c i"
    "\<not> w_live (wpc c i) \<Longrightarrow> tstat c' i = tstat c i"
    "wpc c i = WFree \<Longrightarrow> tstat c' i = T_FREE \<and> wpc c' i = WBcast"
  using assms by (cases "wpc c i"; auto simp: tle_defs split: if_splits option.splits)+

lemma w_mpc_views:
  assumes "tle_wrapper f i c = Some c'"
  shows "m_slot (mpc c') = m_slot (mpc c)" "m_given (mpc c') = m_given (mpc c)" "m_joined N (mpc c') = m_joined N (mpc c)"
    "m_holds (mpc c') = m_holds (mpc c)" "mpc c' = MDead j \<longleftrightarrow> mpc c = MDead j" "mpc c' = MWait j \<longleftrightarrow> mpc c = MWait j"
    "mpc c' = MDone \<longleftrightarrow> mpc c = MDone" "mpc c' = MSleep \<Longrightarrow> mpc c = MSleep"
  using w_frame(8) [OF assms] by (elim disjE conjE; simp)+

lemma w_slot:
  assumes inv: "t_slot_inv N c" and i: "i < N" and step: "tle_wrapper f i c = Some c'"
  shows "t_slot_inv N c'"
proof -
  note fr = w_frame [OF step] and lo = w_local [OF step] and mv = w_mpc_views [OF step]
  have live: "tstat c j = T_LIVE \<longleftrightarrow> w_live (wpc c j) \<or> m_given (mpc c) = Some j" if "j < N" for j
    using t_slotD(1) [OF inv that] .
  have slot: "j < N \<and> wpc c j = WNone" if "m_slot (mpc c) = Some j" for j using t_slotD(2) [OF inv that] .
  have given: "m_given (mpc c) \<noteq> Some i"
  proof
    assume "m_given (mpc c) = Some i"
    then have "m_slot (mpc c) = Some i" by (cases "mpc c") auto
    then show False using slot lo(2) by blast
  qed
  have "tstat c' j = T_LIVE \<longleftrightarrow> w_live (wpc c' j) \<or> m_given (mpc c') = Some j" if "j < N" for j
  proof (cases "j = i")
    case True
    have l: "tstat c i = T_LIVE \<longleftrightarrow> w_live (wpc c i)" using live [OF i] given by blast
    have "tstat c' i = T_LIVE \<longleftrightarrow> w_live (wpc c' i)"
    proof (cases "wpc c i = WFree")
      case True
      then show ?thesis using lo(5) by simp
    next
      case False
      then show ?thesis using l lo(1,3,4) by metis
    qed
    then show ?thesis using True mv(2) given by simp
  next
    case False
    then show ?thesis using live [OF that] fr(1,2) [of j] mv(2) by simp
  qed
  moreover have "j < N \<and> wpc c' j = WNone" if "m_slot (mpc c') = Some j" for j
  proof -
    have "j < N" "wpc c j = WNone" using slot that mv(1) by auto
    then show ?thesis using fr(1) [of j] lo(2) by metis
  qed
  moreover have "m_joined N (mpc c') \<noteq> None" if "j < N" "tstat c' j = T_DEAD" for j
  proof -
    have "tstat c j = T_DEAD" using that fr(2) [of j] lo(3-5) by (metis tstatus.distinct(3) lo(1))
    then show ?thesis using t_slotD(3) [OF inv that(1)] mv(3) by simp
  qed
  moreover have "tin c' = [] \<and> j \<le> N \<and> (\<forall>k < j. \<not> w_live (wpc c' k))" if "m_joined N (mpc c') = Some j" for j
  proof -
    have "tin c = [] \<and> j \<le> N \<and> (\<forall>k < j. \<not> w_live (wpc c k))" using t_slotD(4) [OF inv, of j] that mv(3) by simp
    then show ?thesis using fr(1,6) lo(3) by metis
  qed
  moreover have "wpc c' j = WNone" if "mpc c' = MDead j" for j
  proof -
    have "wpc c j = WNone" using t_slotD(5) [OF inv, of j] that mv(5) by simp
    then show ?thesis using fr(1) [of j] lo(2) by metis
  qed
  moreover have "j < N" if "mpc c' = MWait j \<or> mpc c' = MDead j" for j
    using t_slotD(6) [OF inv, of j] that mv(5,6) by simp
  moreover have "\<exists>k < N. wpc c' k = WBcast" if sl: "mpc c' = MSleep" and ex: "\<exists>k < N. tstat c' k = T_FREE"
  proof (cases "wpc c i = WFree")
    case True
    then show ?thesis using lo(5) i by blast
  next
    case False
    have nb: "wpc c i \<noteq> WBcast" using step sl by (auto simp: tle_defs split: if_splits)
    obtain k where k: "k < N" "tstat c' k = T_FREE" using ex by blast
    have "tstat c k = T_FREE" using k fr(2) [of k] lo(1,3,4) False by (cases "k = i") auto
    then obtain l where l: "l < N" "wpc c l = WBcast" using t_slotD(7) [OF inv] k(1) mv(8) sl by blast
    then have "wpc c' l = WBcast" using fr(1) [of l] nb by metis
    then show ?thesis using l(1) by blast
  qed
  ultimately show ?thesis by (rule t_slotI)
qed

lemma w_sum:
  assumes inv: "t_sum_inv f N xs c" "t_add_inv N c" "t_slot_inv N c" and i: "i < N" and step: "tle_wrapper f i c = Some c'"
  shows "t_sum_inv f N xs c'"
proof -
  note fr = w_frame [OF step] and mv = w_mpc_views [OF step]
  have ad: "adder_inv {0..<N} (tsum c)" and iff: "apc (tsum c) i \<noteq> AIdle \<longleftrightarrow> wpc c i = WSum" using inv(2) i by (auto simp: t_add_inv_def)
  have "m_given (mpc c) \<noteq> Some i"
  proof
    assume "m_given (mpc c) = Some i"
    then have "m_slot (mpc c) = Some i" by (cases "mpc c") auto
    then show False using t_slotD(2) [OF inv(3)] w_local(2) [OF step] by blast
  qed
  then have "promised {0..<N} (tsum c') + t_hand f c' i = promised {0..<N} (tsum c) + t_hand f c i"
    using step iff i sum_enter_promised [OF finite_atLeastLessThan, of i 0 N "tsum c"] sum_add_promised [OF finite_atLeastLessThan ad]
    by (cases "wpc c i") (auto simp: tle_defs t_hand_def split: if_splits option.splits)
  moreover have "t_hand f c' j = t_hand f c j" if "j \<noteq> i" for j
    using fr(1) [OF that] fr(4) mv(2) by (simp add: t_hand_def)
  then have "(\<Sum>j\<in>{0..<N}. t_hand f c' j) = (\<Sum>j\<in>{0..<N}. t_hand f c j) - t_hand f c i + t_hand f c' i"
    using i by (intro sum_change_one) simp_all
  ultimately show ?thesis using inv(1) fr(5,6,7) mv(4,7) by (cases "m_holds (mpc c)") (auto simp: t_sum_inv_def)
qed

subsection \<open>Steps of the main thread\<close>

lemma m_lk:
  assumes inv: "t_lk_inv N c" and sl: "t_slot_inv N c" and step: "tle_main N c = Some c'"
  shows "t_lk_inv N c'"
proof -
  have w: "w_locked (wpc c' i) = w_locked (wpc c i)" if "i < N" for i
  proof (cases "mpc c = MSpawn i")
    case True
    then have "wpc c i = WNone" using t_slotD(2) [OF sl] by simp
    then show ?thesis using step True by (auto simp: tle_defs)
  next
    case False
    then show ?thesis using step by (cases "mpc c") (auto simp: tle_defs split: list.splits option.splits if_splits)
  qed
  have own: "tpool_lk c = Some N \<longleftrightarrow> m_locked (mpc c)" using inv by (simp add: t_lk_inv_def)
  have "(tpool_lk c' = Some N \<longleftrightarrow> m_locked (mpc c')) \<and> (tpool_lk c' = tpool_lk c \<or> tpool_lk c' = Some N \<and> tpool_lk c = None
      \<or> tpool_lk c' = None \<and> tpool_lk c = Some N)"
    using step own by (cases "mpc c") (auto simp: tle_defs split: list.splits option.splits if_splits)
  then show ?thesis using inv w unfolding t_lk_inv_def by (metis less_irrefl option.distinct(1) option.inject order_refl)
qed

lemma m_add:
  assumes inv: "t_add_inv N c" and sl: "t_slot_inv N c" and step: "tle_main N c = Some c'"
  shows "t_add_inv N c'"
proof -
  have "tsum c' = tsum c" using step by (cases "mpc c") (auto simp: tle_defs split: list.splits option.splits if_splits)
  moreover have "wpc c' i = WSum \<longleftrightarrow> wpc c i = WSum" for i
  proof (cases "mpc c = MSpawn i")
    case True
    then have "wpc c i = WNone" using t_slotD(2) [OF sl] by simp
    then show ?thesis using step True by (auto simp: tle_defs)
  next
    case False
    then show ?thesis using step by (cases "mpc c") (auto simp: tle_defs split: list.splits option.splits if_splits)
  qed
  ultimately show ?thesis using inv by (simp add: t_add_inv_def)
qed

lemma m_sum:
  assumes inv: "t_sum_inv f N xs c" and sl: "t_slot_inv N c" and ad: "t_add_inv N c" and step: "tle_main N c = Some c'"
  shows "t_sum_inv f N xs c'"
proof -
  have ts: "tsum c' = tsum c" using step by (cases "mpc c") (auto simp: tle_defs split: list.splits option.splits if_splits)
  consider (set) i where "mpc c = MSet i" | (print) "mpc c = MPrint" | (other) "\<forall>i. mpc c \<noteq> MSet i" "mpc c \<noteq> MPrint" by blast
  then show ?thesis
  proof cases
    case (set i)
    have i: "i < N" "wpc c i = WNone" using t_slotD(2) [OF sl, of i] set by auto
    have "(\<Sum>j\<in>{0..<N}. t_hand f c' j) = (\<Sum>j\<in>{0..<N}. t_hand f c j) - t_hand f c i + t_hand f c' i"
      using i set step by (intro sum_change_one) (auto simp: t_hand_def tle_defs)
    then show ?thesis using inv i set step ts by (auto simp: t_sum_inv_def t_hand_def tle_defs)
  next
    case print
    then have j: "m_joined N (mpc c) = Some N" by simp
    have nl: "\<not> w_live (wpc c i)" if "i < N" for i using t_slotD(4) [OF sl j] that by blast
    have "apc (tsum c) i = AIdle" if "i \<in> {0..<N}" for i
    proof -
      have "wpc c i \<noteq> WSum" using nl [of i] that by auto
      then show ?thesis using ad that unfolding t_add_inv_def by auto
    qed
    then have "promised {0..<N} (tsum c) = asum (tsum c)" by (rule promised_idle)
    moreover have "t_hand f c i = 0" "t_hand f c' i = 0" if "i < N" for i
      using nl [OF that] print step by (auto simp: t_hand_def tle_defs)
    moreover have "tin c = []" using t_slotD(4) [OF sl j] by blast
    ultimately show ?thesis using inv print step by (auto simp: t_sum_inv_def tle_defs)
  next
    case other
    have "t_hand f c' i = t_hand f c i" for i
    proof (cases "mpc c = MSpawn i")
      case True
      then show ?thesis using step by (auto simp: t_hand_def tle_defs)
    next
      case False
      then show ?thesis using step other
        by (cases "mpc c") (auto simp: t_hand_def tle_defs split: list.splits option.splits if_splits)
    qed
    moreover have "(if m_holds (mpc c') then f (tx c') else 0) + sum_list (map f (tin c')) =
        (if m_holds (mpc c) then f (tx c) else 0) + sum_list (map f (tin c))" "mpc c' \<noteq> MDone"
      using step other by (cases "mpc c"; auto simp: tle_defs split: list.splits option.splits if_splits)+
    ultimately show ?thesis using inv ts by (simp add: t_sum_inv_def)
  qed
qed

lemma m_slot_step:
  assumes sl: "t_slot_inv N c" and lk: "t_lk_inv N c" and step: "tle_main N c = Some c'"
  shows "t_slot_inv N c'"
proof (cases "mpc c")
  case MFind
  show ?thesis
  proof (cases "free_index N (tstat c)")
    case None
    then have "tstat c i \<noteq> T_FREE" if "i < N" for i using free_index_None that by blast
    then show ?thesis using sl step MFind None by (auto simp: t_slot_inv_def tle_defs)
  next
    case (Some i)
    then have i: "i < N" "tstat c i = T_FREE" using free_index_Some by blast+
    then have "\<not> w_live (wpc c i)" using t_slotD(1) [OF sl i(1)] by auto
    moreover have "\<not> w_locked (wpc c i)" using lk MFind i(1) by (auto simp: t_lk_inv_def)
    ultimately have "wpc c i = WNone" by (cases "wpc c i") auto
    then show ?thesis using sl step MFind Some i by (auto simp: t_slot_inv_def tle_defs)
  qed
next
  case (MSet i)
  then have i: "i < N" "wpc c i = WNone" using t_slotD(2) [OF sl, of i] by auto
  then show ?thesis using sl step MSet by (auto simp: t_slot_inv_def tle_defs split: if_splits)
next
  case (MSpawn i)
  then have i: "i < N" "wpc c i = WNone" using t_slotD(2) [OF sl, of i] by auto
  then show ?thesis using sl step MSpawn by (auto simp: t_slot_inv_def tle_defs split: if_splits)
next
  case (MJoin i)
  show ?thesis
  proof (cases "i < N \<and> tstat c i \<noteq> T_LIVE")
    case True
    then have "\<not> w_live (wpc c i)" using t_slotD(1) [OF sl, of i] by auto
    then show ?thesis using sl step MJoin True by (auto simp: t_slot_inv_def tle_defs less_Suc_eq)
  next
    case False
    have "i \<le> N" using t_slotD(4) [OF sl, of i] MJoin by simp
    then show ?thesis using sl step MJoin False by (cases "i < N") (auto simp: t_slot_inv_def tle_defs)
  qed
next
  case (MDead i)
  then have "wpc c i = WNone" "i < N" using t_slotD(5,6) [OF sl, of i] by auto
  then show ?thesis using sl step MDead by (auto simp: t_slot_inv_def tle_defs less_Suc_eq split: if_splits)
qed (use sl step in \<open>auto simp: t_slot_inv_def tle_defs split: list.splits option.splits if_splits\<close>)

lemma tle_inv_spurious:
  assumes "tle_inv f N xs c" "mpc c = MSleep"
  shows "tle_inv f N xs (c\<lparr>mpc := MWake\<rparr>)"
proof -
  have "t_hand f (c\<lparr>mpc := MWake\<rparr>) i = t_hand f c i" for i using assms(2) by (simp add: t_hand_def)
  then show ?thesis using assms by (auto simp: tle_inv_def t_lk_inv_def t_add_inv_def t_slot_inv_def t_sum_inv_def)
qed

interpretation tle: threads_invariant "tle_init xs" "tle_step f N" "tle_acts N" "tle_inv f N xs" for f N xs
proof
  show "tle_inv f N xs c'" if inv: "tle_inv f N xs c" and a: "a \<in> tle_acts N" "tle_step f N a c = Some c'" for c c' a
  proof (cases a)
    case (Go t)
    show ?thesis
    proof (cases "t < N")
      case True
      then have st: "tle_wrapper f t c = Some c'" using a(2) Go by simp
      show ?thesis using inv w_lk [OF _ True st] w_add [OF _ True st] w_slot [OF _ True st] w_sum [OF _ _ _ True st]
        by (simp add: tle_inv_def)
    next
      case False
      then have st: "tle_main N c = Some c'" using a(2) Go by simp
      show ?thesis using inv m_lk [OF _ _ st] m_add [OF _ _ st] m_slot_step [OF _ _ st] m_sum [OF _ _ _ st]
        by (simp add: tle_inv_def)
    qed
  next
    case (Spurious t)
    then show ?thesis using tle_inv_spurious [OF inv] a(2) by (auto split: if_splits)
  qed
qed (rule tle_inv_init)

text \<open>Workers always get on: while one runs, some thread can move.\<close>

lemma w_mover:
  assumes inv: "t_lk_inv N c" "t_add_inv N c" and i: "i < N" "wpc c i \<noteq> WNone" and free: "tpool_lk c \<noteq> Some N"
  shows "\<exists>j < N. tle_wrapper f j c \<noteq> None"
proof (cases "tpool_lk c")
  case None
  show ?thesis
  proof (cases "wpc c i = WSum")
    case True
    then have "apc (tsum c) i \<noteq> AIdle" "adder_inv {0..<N} (tsum c)" using inv(2) i(1) by (auto simp: t_add_inv_def)
    then obtain u where u: "u \<in> {0..<N}" "apc (tsum c) u \<noteq> AIdle" "sum_add u (tsum c) \<noteq> None" using adder_live by blast
    then have "wpc c u = WSum" using inv(2) by (auto simp: t_add_inv_def)
    then have "tle_wrapper f u c \<noteq> None" using u(3) by (auto simp: tle_wrapper_def)
    then show ?thesis using u(1) by auto
  next
    case False
    then have "tle_wrapper f i c \<noteq> None" using i None by (cases "wpc c i") (auto simp: tle_defs)
    then show ?thesis using i by blast
  qed
next
  case (Some u)
  then have "u < N" using inv(1) free by (auto simp: t_lk_inv_def le_less)
  then have "w_locked (wpc c u)" using inv(1) Some by (auto simp: t_lk_inv_def)
  then have "tle_wrapper f u c \<noteq> None" by (cases "wpc c u") (auto simp: tle_defs)
  then show ?thesis using \<open>u < N\<close> by blast
qed

lemma tle_no_deadlock:
  assumes inv: "tle_inv f N xs c" and N: "0 < N" and main: "tle_main N c = None" "mpc c \<noteq> MDone"
  shows "\<exists>j < N. tle_wrapper f j c \<noteq> None"
proof -
  have lk: "t_lk_inv N c" and ad: "t_add_inv N c" and sl: "t_slot_inv N c" using inv by (auto simp: tle_inv_def)
  have nl: "\<not> m_locked (mpc c)"
    using main free_index_Some by (cases "mpc c") (auto simp: tle_defs split: option.splits if_splits)
  then have free: "tpool_lk c \<noteq> Some N" using lk by (simp add: t_lk_inv_def)
  consider (lock) "tpool_lk c \<noteq> None" | (sleep) "mpc c = MSleep" | (wait) i where "mpc c = MWait i" "wpc c i \<noteq> WNone"
    using main nl by (cases "mpc c") (auto simp: tle_defs split: list.splits option.splits if_splits)
  then show ?thesis
  proof cases
    case lock
    then obtain u where u: "tpool_lk c = Some u" by blast
    then have "u < N" using lk free by (auto simp: t_lk_inv_def le_less)
    then have "wpc c u \<noteq> WNone" using lk u by (auto simp: t_lk_inv_def)
    then show ?thesis using w_mover [OF lk ad \<open>u < N\<close> _ free] by blast
  next
    case sleep
    have "\<exists>i < N. wpc c i \<noteq> WNone"
    proof (rule ccontr)
      assume none: "\<not> (\<exists>i < N. wpc c i \<noteq> WNone)"
      then have "wpc c 0 = WNone" "tstat c 0 \<noteq> T_LIVE" using N t_slotD(1) [OF sl N] sleep by auto
      moreover have "tstat c 0 \<noteq> T_DEAD" using t_slotD(3) [OF sl N] sleep by auto
      ultimately have "tstat c 0 = T_FREE" by (cases "tstat c 0") auto
      then obtain i where "i < N" "wpc c i = WBcast" using t_slotD(7) [OF sl sleep] N by blast
      then show False using none by auto
    qed
    then show ?thesis using w_mover [OF lk ad _ _ free] by blast
  next
    case (wait i)
    then show ?thesis using w_mover [OF lk ad _ _ free] t_slotD(6) [OF sl] by blast
  qed
qed

text \<open>
  C27: \<^verbatim>\<open>midterm-tle.c\<close>, in every state it can reach, with any number of slots: a thread can
  go on unless the program has ended; a slot that the main thread is filling has no worker in it;
  and when the program has ended, the number it has printed is the sum of \<open>f x\<close> over the input.
\<close>

theorem midterm_tle_ok:
  assumes "reachable (tle_init xs) (tle_step f N) (tle_acts N) c" "0 < N"
  shows "((\<exists>t \<in> {0..N}. tle_step f N (Go t) c \<noteq> None) \<or> mpc c = MDone \<and> tout c = Some (sum_list (map f xs))) \<and>
    (\<forall>i. m_slot (mpc c) = Some i \<longrightarrow> wpc c i = WNone)"
proof -
  have inv: "tle_inv f N xs c" by (rule tle.inv_reach [OF assms(1)])
  then have "tout c = Some (sum_list (map f xs))" if "mpc c = MDone" using that by (auto simp: tle_inv_def t_sum_inv_def)
  moreover have "\<exists>t \<in> {0..N}. tle_step f N (Go t) c \<noteq> None" if nd: "mpc c \<noteq> MDone"
  proof (cases "tle_main N c")
    case None
    then obtain j where "j < N" "tle_wrapper f j c \<noteq> None" using tle_no_deadlock [OF inv assms(2) _ nd] by blast
    then show ?thesis by (intro bexI [of _ j]) auto
  next
    case (Some c')
    then show ?thesis by (intro bexI [of _ N]) auto
  qed
  moreover have "wpc c i = WNone" if "m_slot (mpc c) = Some i" for i
    using inv t_slotD(2) [OF _ that] unfolding tle_inv_def by blast
  ultimately show ?thesis by blast
qed

theorem midterm_tle_ok_witness:
  "\<exists>c. reachable (tle_init [4, 5]) (tle_step foo_f 1) (tle_acts 1) c \<and> mpc c = MDone \<and> tout c = Some 9"
proof -
  let ?s = "schedule (tle_step foo_f 1)
    ([Go 1, Go 1, Go 1, Go 1, Go 1, Go 1, Go 1, Go 1, Go 1] @ replicate 9 (Go 0) @ [Go 1, Go 1, Go 1, Go 1, Go 1, Go 1, Go 1] @
     replicate 9 (Go 0) @ [Go 1, Go 1, Go 1, Go 1]) (tle_init [4, 5])"
  have "case ?s of None \<Rightarrow> False | Some c \<Rightarrow> mpc c = MDone \<and> wpc c 0 = WNone" by code_simp
  then obtain c where c: "?s = Some c" and d: "mpc c = MDone" "wpc c 0 = WNone" by (auto split: option.splits)
  have r: "reachable (tle_init [4, 5]) (tle_step foo_f 1) (tle_acts 1) c"
    using c by (rule schedule_reachable) (auto simp: tle_acts_def)
  have "tle_step foo_f 1 (Go 1) c = None" using d by (simp add: tle_main_def)
  moreover have "tle_step foo_f 1 (Go 0) c = None" using d by (simp add: tle_wrapper_def)
  ultimately have "tle_step foo_f 1 (Go t) c = None" if "t \<in> {0..1}" for t using that by (cases "t = 0") auto
  then have "tout c = Some 9" using midterm_tle_ok [OF r] by (auto simp: foo_f_def)
  then show ?thesis using r d by blast
qed

end
