(* ===== verification/Dfs_Fork.thy ===== *)
theory Dfs_Fork
  imports Prelude
begin

text \<open>
  \<^verbatim>\<open>virtualization/dfs-fork.c\<close>: a maze is searched by forking a process for every possible
  move; each process has its own copy of the map, marks its moves in it and displays it when it has
  arrived. The model gives the maps displayed by a process and all its descendants, in the order of
  the serialised search (the processes share nothing, so another scheduling permutes them). Shown:
  the displayed maps are exactly the simple paths through empty cells to the destination, each
  drawn on the map, every path once; the search ends and never leaves the map.
\<close>

abbreviation DEST :: char where "DEST \<equiv> CHR ''+''"
abbreviation EMPTY :: char where "EMPTY \<equiv> CHR ''.''"

type_synonym grid = "string list"

record move =
  mx :: int
  my :: int
  mch :: char

definition moves :: "move list" where
  "moves = [\<lparr>mx = 0, my = 1, mch = CHR ''>''\<rparr>, \<lparr>mx = 1, my = 0, mch = CHR ''v''\<rparr>,
            \<lparr>mx = 0, my = -1, mch = CHR ''<''\<rparr>, \<lparr>mx = -1, my = 0, mch = CHR ''^''\<rparr>]"

definition the_map :: grid where
  "the_map = [''#######'', ''#.#.#+#'', ''#.....#'', ''#.....#'', ''#...#.#'', ''#######'', '''']"

text \<open>\<^verbatim>\<open>map[x][y]\<close>: a row has room for 512 characters, NUL after its string; \<open>None\<close>
  is an access outside the array.\<close>

definition cell :: "grid \<Rightarrow> int \<Rightarrow> int \<Rightarrow> char option" where
  "cell m x y =
     (if 0 \<le> x \<and> x < int (length m) \<and> 0 \<le> y \<and> y < 512
      then Some (if nat y < length (m ! nat x) then m ! nat x ! nat y else NUL) else None)"

text \<open>\<^verbatim>\<open>map[x][y] = ch\<close>, for a cell of the string of its row.\<close>

definition mark :: "grid \<Rightarrow> int \<Rightarrow> int \<Rightarrow> char \<Rightarrow> grid" where
  "mark m x y ch = (if 0 \<le> x \<and> 0 \<le> y then m[nat x := (m ! nat x)[nat y := ch]] else m)"

lemma cell_mark_same: "cell m x y = Some c \<Longrightarrow> c \<noteq> NUL \<Longrightarrow> cell (mark m x y ch) x y = Some ch"
  by (auto simp: cell_def mark_def split: if_splits)

lemma cell_mark_other: "(x', y') \<noteq> (x, y) \<Longrightarrow> cell (mark m x y ch) x' y' = cell m x' y'"
  by (cases "x' = x") (auto simp: cell_def mark_def nat_less_iff eq_nat_nat_iff)

text \<open>A process ends by displaying its map, by waiting for its children, or by a bad access.\<close>

datatype shown = Show grid | Fault

definition empties :: "grid \<Rightarrow> nat" where
  "empties m = length (filter (\<lambda>c. c = EMPTY) (concat m))"

definition rank :: "grid \<Rightarrow> int \<Rightarrow> int \<Rightarrow> nat" where
  "rank m x y = 2 * empties m + (if cell m x y = Some EMPTY then 1 else 2)"

lemma filter_update_le: "\<not> P v \<Longrightarrow> length (filter P (xs[i := v])) \<le> length (filter P xs)"
  by (induction xs arbitrary: i) (auto split: nat.splits intro: le_SucI)

lemma filter_update_less: "\<not> P v \<Longrightarrow> i < length xs \<Longrightarrow> P (xs ! i) \<Longrightarrow> length (filter P (xs[i := v])) < length (filter P xs)"
proof (induction xs arbitrary: i)
  case (Cons a xs)
  then show ?case by (cases i) auto
qed simp

lemma empties_sum: "empties m = sum_list (map (\<lambda>r. length (filter (\<lambda>c. c = EMPTY) r)) m)"
  by (simp add: empties_def length_concat filter_concat comp_def)

lemma sum_list_update_nat: "i < length xs \<Longrightarrow> sum_list (map g (xs[i := v])) + g (xs ! i) = sum_list (map g xs) + (g v :: nat)"
  by (induction xs arbitrary: i) (auto split: nat.splits simp: less_Suc_eq_0_disj)

lemma empties_mark:
  assumes "ch \<noteq> EMPTY"
  shows "empties (mark m x y ch) \<le> empties m" "cell m x y = Some EMPTY \<Longrightarrow> empties (mark m x y ch) < empties m"
proof -
  let ?g = "\<lambda>r. length (filter (\<lambda>c. c = EMPTY) r)" and ?r = "m ! nat x"
  have le: "?g (?r[nat y := ch]) \<le> ?g ?r" using assms by (intro filter_update_le) simp
  have eq: "empties (mark m x y ch) + ?g ?r = empties m + ?g (?r[nat y := ch])" if "nat x < length m" "0 \<le> x" "0 \<le> y"
    unfolding empties_sum mark_def using that sum_list_update_nat [of "nat x" m ?g] by simp
  show "empties (mark m x y ch) \<le> empties m"
  proof (cases "nat x < length m \<and> 0 \<le> x \<and> 0 \<le> y")
    case True
    then show ?thesis using eq le by simp
  next
    case False
    then have "mark m x y ch = m" by (auto simp: mark_def list_update_beyond)
    then show ?thesis by simp
  qed
  assume c: "cell m x y = Some EMPTY"
  then have x: "nat x < length m" "0 \<le> x" "0 \<le> y" and y: "nat y < length ?r" "?r ! nat y = EMPTY" by (auto simp: cell_def split: if_splits)
  have "?g (?r[nat y := ch]) < ?g ?r" using assms y by (intro filter_update_less) auto
  then show "empties (mark m x y ch) < empties m" using eq [OF x] by simp
qed

lemma rank_mark:
  assumes "ch \<noteq> EMPTY" "cell (mark m x y ch) x' y' = Some EMPTY"
  shows "rank (mark m x y ch) x' y' < rank m x y"
  using empties_mark [OF assms(1), of m x y] assms(2) by (auto simp: rank_def)

text \<open>The four moves draw an arrow and lead to another cell.\<close>

lemma moves_nth:
  assumes "i < 4"
  shows "mch (moves ! i) \<notin> {EMPTY, DEST, NUL}" "(x + mx (moves ! i), y + my (moves ! i)) \<noteq> (x, y)"
proof -
  have "i = 0 \<or> i = 1 \<or> i = 2 \<or> i = 3" using assms by auto
  then show "mch (moves ! i) \<notin> {EMPTY, DEST, NUL}" "(x + mx (moves ! i), y + my (moves ! i)) \<noteq> (x, y)" by (auto simp: moves_def)
qed

text \<open>\<open>dfs_loop\<close> is the loop over the moves from number \<open>i\<close> on.\<close>

function dfs :: "grid \<Rightarrow> int \<Rightarrow> int \<Rightarrow> shown list"
  and dfs_loop :: "nat \<Rightarrow> grid \<Rightarrow> int \<Rightarrow> int \<Rightarrow> shown list" where
  "dfs m x y =
     (case cell m x y of
        None \<Rightarrow> [Fault]
      | Some c \<Rightarrow> if c = DEST then [Show m] else dfs_loop 0 m x y)"
| "dfs_loop i m x y =
     (if i < 4
      then let x1 = x + mx (moves ! i); y1 = y + my (moves ! i)
           in case cell m x1 y1 of
                None \<Rightarrow> [Fault]
              | Some c \<Rightarrow>
                  (if c = DEST \<or> c = EMPTY then dfs (mark m x y (mch (moves ! i))) x1 y1 else []) @ dfs_loop (Suc i) m x y
      else [])"
  by pat_completeness auto
termination
proof (relation "measures [\<lambda>a. case a of Inl (m, x, y) \<Rightarrow> if cell m x y = Some DEST then 0 else rank m x y
      | Inr (i, m, x, y) \<Rightarrow> rank m x y, \<lambda>a. case a of Inl _ \<Rightarrow> 5 | Inr (i, _) \<Rightarrow> 4 - i]", goal_cases)
  case (3 i m x y x1 y1 c)
  let ?m = "mark m x y (mch (moves ! i))"
  have "cell ?m x1 y1 = Some c" using 3 moves_nth(2) [of i x y] cell_mark_other [of x1 y1 x y] by simp
  moreover have "0 < rank m x y" by (simp add: rank_def)
  ultimately show ?case using 3 moves_nth(1) [of i] rank_mark [of "mch (moves ! i)" m x y x1 y1] by auto
qed auto

declare dfs.simps [simp del] dfs_loop.simps [simp del]

subsection \<open>What is displayed\<close>

text \<open>The cells that a sequence of moves visits, and the map with the moves drawn in.\<close>

fun visited :: "int \<Rightarrow> int \<Rightarrow> move list \<Rightarrow> (int \<times> int) list" where
  "visited x y [] = [(x, y)]"
| "visited x y (d # ds) = (x, y) # visited (x + mx d) (y + my d) ds"

fun drawn :: "grid \<Rightarrow> int \<Rightarrow> int \<Rightarrow> move list \<Rightarrow> grid" where
  "drawn m x y [] = m"
| "drawn m x y (d # ds) = drawn (mark m x y (mch d)) (x + mx d) (y + my d) ds"

text \<open>A simple path: no cell twice, empty cells, then the destination.\<close>

definition simple_path :: "grid \<Rightarrow> int \<Rightarrow> int \<Rightarrow> move list \<Rightarrow> bool" where
  "simple_path m x y ds \<longleftrightarrow> set ds \<subseteq> set moves \<and> distinct (visited x y ds) \<and>
     (\<forall>(a, b) \<in> set (butlast (visited x y ds)). cell m a b = Some EMPTY) \<and>
     (case last (visited x y ds) of (a, b) \<Rightarrow> cell m a b = Some DEST)"

lemma visited_ne [simp]: "visited x y ds \<noteq> []"
  by (cases ds) auto

lemma simple_path_cells: "simple_path m x y ds \<Longrightarrow> (a, b) \<in> set (visited x y ds) \<Longrightarrow> cell m a b \<in> {Some EMPTY, Some DEST}"
proof -
  assume p: "simple_path m x y ds" and "(a, b) \<in> set (visited x y ds)"
  then have "(a, b) \<in> set (butlast (visited x y ds)) \<or> (a, b) = last (visited x y ds)"
    using append_butlast_last_id [of "visited x y ds"] by (metis UnE empty_iff empty_set set_ConsD set_append visited_ne)
  then show ?thesis using p by (auto simp: simple_path_def)
qed

lemma simple_path_Nil: "simple_path m x y [] \<longleftrightarrow> cell m x y = Some DEST"
  by (simp add: simple_path_def)

lemma simple_path_Cons:
  assumes d: "d \<in> set moves" and e: "cell m x y = Some EMPTY"
  shows "simple_path m x y (d # ds) \<longleftrightarrow> simple_path (mark m x y (mch d)) (x + mx d) (y + my d) ds"
proof -
  have ch: "mch d \<noteq> EMPTY" "mch d \<noteq> DEST" using d by (auto simp: moves_def)
  let ?m = "mark m x y (mch d)" and ?vs = "visited (x + mx d) (y + my d) ds"
  have here: "cell ?m x y = Some (mch d)" using cell_mark_same [OF e] by simp
  have there: "cell ?m a b = cell m a b" if "(a, b) \<noteq> (x, y)" for a b by (rule cell_mark_other [OF that])
  have inv: "(x, y) \<notin> set ?vs" if "simple_path ?m (x + mx d) (y + my d) ds"
    using simple_path_cells [OF that, of x y] here ch by auto
  have "simple_path m x y (d # ds) \<longleftrightarrow> (x, y) \<notin> set ?vs \<and> simple_path m (x + mx d) (y + my d) ds"
    using d e by (auto simp: simple_path_def)
  also have "\<dots> \<longleftrightarrow> (x, y) \<notin> set ?vs \<and> simple_path ?m (x + mx d) (y + my d) ds"
  proof -
    have "cell ?m a b = cell m a b" if "(x, y) \<notin> set ?vs" "(a, b) \<in> set ?vs" for a b using that there by metis
    moreover have "last ?vs \<in> set ?vs" "set (butlast ?vs) \<subseteq> set ?vs" by (auto dest: in_set_butlastD)
    ultimately show ?thesis unfolding simple_path_def by (cases "last ?vs") (auto split: prod.splits; metis in_mono)
  qed
  also have "\<dots> \<longleftrightarrow> simple_path ?m (x + mx d) (y + my d) ds" using inv by blast
  finally show ?thesis .
qed

text \<open>A map in which no cell that can be entered lies at the border.\<close>

definition walled :: "grid \<Rightarrow> bool" where
  "walled m \<longleftrightarrow> (\<forall>x < length m. \<forall>y < length (m ! x). m ! x ! y = EMPTY \<or> m ! x ! y = DEST \<longrightarrow>
     0 < x \<and> Suc x < length m \<and> 0 < y \<and> y < 511)"

lemma length_mark [simp]: "length (mark m x y ch) = length m"
  by (simp add: mark_def)

lemma mark_row: "a < length m \<Longrightarrow> mark m x y ch ! a = m ! a \<or> mark m x y ch ! a = (m ! a)[nat y := ch]"
  by (cases "a = nat x") (auto simp: mark_def)

lemma walled_mark: "walled m \<Longrightarrow> ch \<noteq> EMPTY \<Longrightarrow> ch \<noteq> DEST \<Longrightarrow> walled (mark m x y ch)"
proof -
  assume w: "walled m" and ch: "ch \<noteq> EMPTY" "ch \<noteq> DEST"
  have "0 < a \<and> Suc a < length m \<and> 0 < b \<and> b < 511"
    if a: "a < length m" and b: "b < length (mark m x y ch ! a)" and c: "mark m x y ch ! a ! b = EMPTY \<or> mark m x y ch ! a ! b = DEST" for a b
  proof -
    have "b < length (m ! a) \<and> (m ! a ! b = EMPTY \<or> m ! a ! b = DEST)"
      using mark_row [OF a, of x y ch] b c ch by (cases "b = nat y") auto
    then show ?thesis using w a unfolding walled_def by blast
  qed
  then show ?thesis unfolding walled_def length_mark by blast
qed

lemma walled_cell:
  assumes "walled m" "cell m x y = Some c" "c = EMPTY \<or> c = DEST"
  shows "0 < x" "x + 1 < int (length m)" "0 < y" "y < 511"
proof -
  have "nat x < length m" "nat y < length (m ! nat x)" "m ! nat x ! nat y = c" and xy: "0 \<le> x" "0 \<le> y"
    using assms(2,3) by (auto simp: cell_def split: if_splits)
  then have "0 < nat x \<and> Suc (nat x) < length m \<and> 0 < nat y \<and> nat y < 511" using assms(1,3) unfolding walled_def by blast
  then show "0 < x" "x + 1 < int (length m)" "0 < y" "y < 511" using xy by auto
qed

lemma walled_next:
  assumes "walled m" "cell m x y = Some EMPTY" "i < 4"
  shows "cell m (x + mx (moves ! i)) (y + my (moves ! i)) \<noteq> None"
proof -
  have "i = 0 \<or> i = 1 \<or> i = 2 \<or> i = 3" using assms(3) by auto
  then show ?thesis using walled_cell [OF assms(1,2)] by (auto simp: cell_def moves_def)
qed

lemma distinct_moves: "distinct moves" and length_moves [simp]: "length moves = 4"
  by (simp_all add: moves_def)

lemma set_moves: "d \<in> set moves \<longleftrightarrow> (\<exists>j < 4. d = moves ! j)"
  unfolding in_set_conv_nth length_moves by blast

lemma simple_path_step:
  assumes "cell m x y = Some EMPTY" "simple_path m x y (d # ds)"
  shows "cell m (x + mx d) (y + my d) \<in> {Some EMPTY, Some DEST}"
  using simple_path_cells [OF assms(2), of "x + mx d" "y + my d"] by (cases ds) auto

definition paths_from :: "nat \<Rightarrow> grid \<Rightarrow> int \<Rightarrow> int \<Rightarrow> move list set" where
  "paths_from i m x y = {ds. simple_path m x y ds \<and> (\<exists>j \<ge> i. j < 4 \<and> ds \<noteq> [] \<and> hd ds = moves ! j)}"

lemma paths_from_0: "cell m x y = Some EMPTY \<Longrightarrow> paths_from 0 m x y = {ds. simple_path m x y ds}"
proof -
  assume e: "cell m x y = Some EMPTY"
  have "ds \<noteq> [] \<and> (\<exists>j < 4. hd ds = moves ! j)" if "simple_path m x y ds" for ds
    using that e set_moves by (cases ds) (auto simp: simple_path_Nil simple_path_def)
  then show ?thesis by (auto simp: paths_from_def)
qed

lemma paths_from_Suc:
  assumes "i < 4" "cell m x y = Some EMPTY"
  defines "d \<equiv> moves ! i"
  shows "paths_from i m x y = Cons d ` {ds. simple_path (mark m x y (mch d)) (x + mx d) (y + my d) ds} \<union> paths_from (Suc i) m x y"
proof -
  have d: "d \<in> set moves" using assms(1) by (simp add: d_def)
  have "ds \<in> paths_from i m x y \<longleftrightarrow> (\<exists>es. ds = d # es \<and> simple_path m x y (d # es)) \<or> ds \<in> paths_from (Suc i) m x y" for ds
  proof -
    have "i \<le> j \<longleftrightarrow> j = i \<or> Suc i \<le> j" for j by auto
    then show ?thesis using assms(1) by (cases ds) (auto simp: paths_from_def d_def)
  qed
  then show ?thesis using simple_path_Cons [OF d assms(2)] by auto
qed

lemma paths_from_disjoint:
  assumes "i < 4" shows "Cons (moves ! i) ` A \<inter> paths_from (Suc i) m x y = {}"
  using assms distinct_moves by (auto simp: paths_from_def nth_eq_iff_index_eq)

lemma dfs_paths:
  "walled m \<Longrightarrow> cell m x y = Some EMPTY \<or> cell m x y = Some DEST \<Longrightarrow>
     \<exists>ps. distinct ps \<and> set ps = {ds. simple_path m x y ds} \<and> dfs m x y = map (\<lambda>ds. Show (drawn m x y ds)) ps"
  "walled m \<Longrightarrow> cell m x y = Some EMPTY \<Longrightarrow>
     \<exists>ps. distinct ps \<and> set ps = paths_from i m x y \<and> dfs_loop i m x y = map (\<lambda>ds. Show (drawn m x y ds)) ps"
proof (induction m x y and i m x y rule: dfs_dfs_loop.induct)
  case (1 m x y)
  show ?case
  proof (cases "cell m x y = Some DEST")
    case True
    have "simple_path m x y ds \<longleftrightarrow> ds = []" for ds
      using True by (cases ds) (auto simp: simple_path_Nil simple_path_def)
    then show ?thesis using True by (intro exI [of _ "[[]]"]) (simp add: dfs.simps)
  next
    case False
    then have e: "cell m x y = Some EMPTY" using 1 by blast
    then show ?thesis using 1 paths_from_0 [OF e] by (simp add: dfs.simps)
  qed
next
  case (2 i m x y)
  show ?case
  proof (cases "i < 4")
    case True
    let ?d = "moves ! i" let ?x = "x + mx ?d" and ?y = "y + my ?d" let ?m = "mark m x y (mch ?d)"
    obtain c where c: "cell m ?x ?y = Some c" using walled_next [OF 2(3,4) True] by blast
    obtain ps where ps: "distinct ps" "set ps = paths_from (Suc i) m x y" "dfs_loop (Suc i) m x y = map (\<lambda>ds. Show (drawn m x y ds)) ps"
      using 2(2) [OF True refl refl c 2(3,4)] by blast
    have w: "walled ?m" using walled_mark [OF 2(3)] moves_nth(1) [OF True] by blast
    have cm: "cell ?m ?x ?y = Some c" using c cell_mark_other [OF moves_nth(2) [OF True]] by simp
    have "\<exists>qs. distinct qs \<and> set qs = {ds. simple_path ?m ?x ?y ds} \<and>
      (if c = DEST \<or> c = EMPTY then dfs ?m ?x ?y else []) = map (\<lambda>ds. Show (drawn ?m ?x ?y ds)) qs"
    proof (cases "c = DEST \<or> c = EMPTY")
      case True
      then show ?thesis using 2(1) [OF \<open>i < 4\<close> refl refl c True w] cm by auto
    next
      case False
      have "\<not> simple_path ?m ?x ?y ds" for ds
        using simple_path_cells [of ?m ?x ?y ds ?x ?y] cm False by (cases ds) auto
      then show ?thesis using False by auto
    qed
    then obtain qs where qs: "distinct qs" "set qs = {ds. simple_path ?m ?x ?y ds}"
      "(if c = DEST \<or> c = EMPTY then dfs ?m ?x ?y else []) = map (\<lambda>ds. Show (drawn ?m ?x ?y ds)) qs" by blast
    have "dfs_loop i m x y = map (\<lambda>ds. Show (drawn m x y ds)) (map (Cons ?d) qs @ ps)"
      using True c qs(3) ps(3) by (subst dfs_loop.simps) (simp add: Let_def comp_def)
    moreover have "set (map (Cons ?d) qs @ ps) = paths_from i m x y"
      using paths_from_Suc [OF True 2(4)] qs(2) ps(2) by simp
    moreover have "distinct (map (Cons ?d) qs @ ps)"
      using qs(1) ps(1) paths_from_disjoint [OF True, of "set qs" m x y] ps(2) by (simp add: distinct_map)
    ultimately show ?thesis by blast
  next
    case False
    then show ?thesis by (subst dfs_loop.simps) (auto simp: paths_from_def)
  qed
qed

text \<open>
  C28: the search is sound and complete. In a walled map, started on an empty cell, the processes
  display exactly the simple paths over empty cells to a destination, drawn on the map, each path
  once, and none of them accesses a cell outside the map. (That \<open>dfs\<close> is a total function says
  that the search ends.)
\<close>

theorem dfs_shows_paths:
  assumes "walled m" "cell m x y = Some EMPTY"
  shows "\<exists>ps. distinct ps \<and> set ps = {ds. simple_path m x y ds} \<and> dfs m x y = map (\<lambda>ds. Show (drawn m x y ds)) ps"
  using dfs_paths(1) [OF assms(1)] assms(2) by blast

theorem dfs_shows_paths_witness:
  "walled the_map \<and> (\<exists>ps. set ps = {ds. simple_path the_map 1 1 ds} \<and> dfs the_map 1 1 = map (\<lambda>ds. Show (drawn the_map 1 1 ds)) ps)"
proof -
  have w: "walled the_map" unfolding walled_def the_map_def by (simp add: All_less_Suc numeral_eq_Suc)
  have "cell the_map 1 1 = Some EMPTY" by (simp add: cell_def the_map_def)
  then show ?thesis using w dfs_shows_paths [OF w] by blast
qed

subsection \<open>Display\<close>

datatype glyph = Blank | Circle | Right | Left | Up | Down | Block

definition glyph_of :: "char \<Rightarrow> glyph" where
  "glyph_of s =
     (if s = EMPTY then Blank else if s = DEST then Circle else if s = CHR ''>'' then Right else if s = CHR ''<'' then Left
      else if s = CHR ''^'' then Up else if s = CHR ''v'' then Down else Block)"

text \<open>The lines printed, up to the line of the first empty row; \<open>None\<close>: no such row, the loop runs
  over the end of the array.\<close>

fun display :: "grid \<Rightarrow> glyph list list option" where
  "display [] = None"
| "display (r # rs) = (if r = [] then Some [[]] else map_option (Cons (map glyph_of r)) (display rs))"

lemma display_ends: "[] \<in> set m \<Longrightarrow> \<exists>ls. display m = Some ls"
  by (induction m) auto

lemma mark_rows: "[] \<in> set m \<Longrightarrow> [] \<in> set (mark m x y ch)"
  unfolding in_set_conv_nth length_mark by (metis length_0_conv length_list_update mark_row)

lemma drawn_display: "[] \<in> set m \<Longrightarrow> \<exists>ls. display (drawn m x y ds) = Some ls"
proof (induction ds arbitrary: m x y)
  case (Cons d ds)
  show ?case using Cons.IH [OF mark_rows [OF Cons.prems]] by simp
qed (simp add: display_ends)

end
