(* ===== verification/Aligned_Words.thy ===== *)
theory Aligned_Words
  imports Prelude
begin

text \<open>
  Rounding of 64-bit addresses down to a power of two, as the loaders and the code patcher compute it
  with a mask.
\<close>

unbundle bit_operations_syntax

lemma mask_power: "k < 64 \<Longrightarrow> (2 ^ k :: u64) - 1 = mask k"
  by (simp add: mask_eq_exp_minus_1)

lemma align_down: "k < 64 \<Longrightarrow> (x :: u64) AND NOT (2 ^ k - 1) = x - take_bit k x"
proof -
  assume k: "k < 64"
  have "x AND NOT (mask k) = push_bit k (drop_bit k x)" by (auto simp: bit_eq_iff bit_simps not_less)
  also have "\<dots> = x - take_bit k x" using bits_ident [of k x] by (metis add_diff_cancel_right')
  finally show ?thesis unfolding mask_power [OF k] .
qed

lemma unat_take_bit64: "unat (take_bit k (x :: u64)) = unat x mod 2 ^ k"
  by (subst unsigned_take_bit_eq) (rule take_bit_eq_mod)

lemma unat_align_down: "k < 64 \<Longrightarrow> unat ((x :: u64) AND NOT (2 ^ k - 1)) = unat x - unat x mod 2 ^ k"
  by (simp add: align_down unat_sub_if' unat_take_bit64)

lemma unat_power: "k < 64 \<Longrightarrow> unat (2 ^ k :: u64) = 2 ^ k"
proof -
  assume k: "k < 64"
  have "(2 :: nat) ^ k < 2 ^ 64" using k by (rule power_strict_increasing) simp
  then have "take_bit 64 (2 ^ k :: nat) = 2 ^ k" by (rule take_bit_nat_eq_self)
  moreover have "unat (of_nat (2 ^ k) :: u64) = take_bit 64 (2 ^ k)" unfolding unsigned_of_nat by simp
  ultimately show ?thesis by simp
qed

end
