(* ===== verification/Loader.thy ===== *)
theory Loader
  imports Aligned_Words
begin

text \<open>
  The program loader \<^verbatim>\<open>virtualization/loader-static.c\<close>: maps the segments of a static
  executable, builds the initial stack and jumps to the entry point. Memory is the bytes at the
  64-bit addresses together with the protection of each; a write where there is no mapping, no
  permission, or no page of the file any more is a fault. What \<^verbatim>\<open>mmap\<close> does is the interface
  \<open>file_mapping\<close>, after mmap(2): whole pages show the file from the given offset with the given
  protection, the rest of its last page is zero, pages wholly behind its end are not accessible, and
  nothing else changes; \<open>granting_mapping\<close> adds that requests in the user's address space are
  granted. The words of the new stack are kept apart, within the bounds of the array they are in.
  Failed assertions, faults and writes outside of that array are errors of a sum type.
  Shown, for every \<^verbatim>\<open>mmap\<close> of that interface: exactly when every segment that is longer in
  memory than in the file is writable and ends within the pages of the file, all loadable
  segments are in memory with their protection, the file part and then zeros, otherwise the loader
  faults; a program started on the stack finds exactly its arguments, the environment without the
  entries that contain an underscore, and the auxiliary vector, where they fit, and where they do
  not the loader writes past the end of its array.
\<close>

unbundle bit_operations_syntax

datatype lfail = AssertFails | MemFault | StackOverrun

type_synonym 'a lres = "lfail + 'a"

definition bindl :: "'a lres \<Rightarrow> ('a \<Rightarrow> 'b lres) \<Rightarrow> 'b lres" where
  "bindl r f = (case r of Inl e \<Rightarrow> Inl e | Inr x \<Rightarrow> f x)"

lemma bindl_simps [simp]: "bindl (Inl e) f = Inl e" "bindl (Inr x) f = f x"
  by (simp_all add: bindl_def)

text \<open>Memory: the bytes, and the protection of every accessible address.\<close>

record lmem =
  mbyte :: "u64 \<Rightarrow> u8"
  mprot :: "u64 \<Rightarrow> int option"

definition STK_SZ :: u64 where "STK_SZ = push_bit 20 1"

definition ROUND :: "u64 \<Rightarrow> u64 \<Rightarrow> u64" where "ROUND x align = x AND NOT (align - 1)"
definition MOD :: "u64 \<Rightarrow> u64 \<Rightarrow> u64" where "MOD x align = x AND (align - 1)"

lemma MOD_take_bit: "k < 64 \<Longrightarrow> MOD x (2 ^ k) = take_bit k x"
  by (simp add: MOD_def mask_power take_bit_eq_mask)

lemma unat_MOD: "k < 64 \<Longrightarrow> unat (MOD x (2 ^ k)) = unat x mod 2 ^ k"
  by (simp add: MOD_take_bit unat_take_bit64)

lemma ROUND_MOD: "k < 64 \<Longrightarrow> ROUND x (2 ^ k) = x - MOD x (2 ^ k)"
  by (simp add: ROUND_def MOD_take_bit align_down)

lemma unat_ROUND: "k < 64 \<Longrightarrow> unat (ROUND x (2 ^ k)) = unat x - unat x mod 2 ^ k"
  by (simp add: ROUND_def unat_align_down)

subsection \<open>Segments\<close>

definition PT_LOAD :: u32 where "PT_LOAD = 1"
definition PF_X :: u32 where "PF_X = 1"
definition PF_W :: u32 where "PF_W = 2"
definition PF_R :: u32 where "PF_R = 4"
definition PROT_READ :: int where "PROT_READ = 1"
definition PROT_WRITE :: int where "PROT_WRITE = 2"
definition PROT_EXEC :: int where "PROT_EXEC = 4"

record lphdr =
  lp_type :: u32
  lp_flags :: u32
  lp_offset :: u64
  lp_vaddr :: u64
  lp_filesz :: u64
  lp_memsz :: u64
  lp_align :: u64

definition prot_of :: "u32 \<Rightarrow> int" where
  "prot_of flags =
     (let p = (0 :: int);
          p = (if flags AND PF_R \<noteq> 0 then p OR PROT_READ else p);
          p = (if flags AND PF_W \<noteq> 0 then p OR PROT_WRITE else p)
      in if flags AND PF_X \<noteq> 0 then p OR PROT_EXEC else p)"

lemma prot_of_write: "prot_of flags AND PROT_WRITE \<noteq> 0 \<longleftrightarrow> flags AND PF_W \<noteq> 0"
  by (simp add: prot_of_def PROT_READ_def PROT_WRITE_def PROT_EXEC_def Let_def)

text \<open>\<open>mmap addr length prot offset m\<close> with the flags \<^verbatim>\<open>MAP_PRIVATE | MAP_FIXED\<close> on the opened
  file; \<open>None\<close> is \<^verbatim>\<open>MAP_FAILED\<close>.\<close>

type_synonym mmap_fun = "u64 \<Rightarrow> u64 \<Rightarrow> int \<Rightarrow> u64 \<Rightarrow> lmem \<Rightarrow> lmem option"

definition writable :: "lmem \<Rightarrow> u64 \<Rightarrow> bool" where
  "writable m x = (case mprot m x of None \<Rightarrow> False | Some p \<Rightarrow> p AND PROT_WRITE \<noteq> 0)"

definition memset :: "u64 \<Rightarrow> u8 \<Rightarrow> u64 \<Rightarrow> lmem \<Rightarrow> lmem lres" where
  "memset a v n m =
     (if \<forall>i < unat n. writable m (a + of_nat i)
      then Inr (m\<lparr>mbyte := (\<lambda>x. if unat (x - a) < unat n then v else mbyte m x)\<rparr>) else Inl MemFault)"

definition load_segment :: "mmap_fun \<Rightarrow> lphdr \<Rightarrow> lmem \<Rightarrow> lmem lres" where
  "load_segment mmap p m =
     (case mmap (ROUND (lp_vaddr p) (lp_align p)) (lp_memsz p + MOD (lp_vaddr p) (lp_align p)) (prot_of (lp_flags p))
             (ROUND (lp_offset p) (lp_align p)) m of
        None \<Rightarrow> Inl AssertFails
      | Some m \<Rightarrow> memset (lp_vaddr p + lp_filesz p) 0 (lp_memsz p - lp_filesz p) m)"

fun load_segments :: "mmap_fun \<Rightarrow> lphdr list \<Rightarrow> lmem \<Rightarrow> lmem lres" where
  "load_segments mmap [] m = Inr m"
| "load_segments mmap (p # ps) m =
     (if lp_type p = PT_LOAD then bindl (load_segment mmap p m) (load_segments mmap ps) else load_segments mmap ps m)"

text \<open>The bytes of the pages that hold \<open>n\<close> bytes.\<close>

definition page_up :: "nat \<Rightarrow> nat" where "page_up n = (n + 4095) div 4096 * 4096"

lemma page_up_bounds: "n \<le> page_up n" "page_up n \<le> n + 4095"
  unfolding page_up_def by linarith+

text \<open>What a linker guarantees of a segment: the alignment is a power of two and at least a page,
  address and offset agree modulo it, the file part is in the file (of \<open>fsize\<close> bytes) and not longer
  than the segment, which is not empty and lies in the user's part of the address space.\<close>

definition seg_ok :: "nat \<Rightarrow> lphdr \<Rightarrow> bool" where
  "seg_ok fsize p \<longleftrightarrow> lp_align p \<in> (\<lambda>k. 2 ^ k) ` {12..<47} \<and> unat (lp_vaddr p) mod unat (lp_align p) = unat (lp_offset p) mod unat (lp_align p) \<and>
     unat (lp_filesz p) \<le> unat (lp_memsz p) \<and> 0 < unat (lp_memsz p) \<and> unat (lp_offset p) + unat (lp_filesz p) \<le> fsize \<and>
     0x10000 \<le> unat (ROUND (lp_vaddr p) (lp_align p)) \<and> unat (lp_vaddr p) + unat (lp_memsz p) + 8191 \<le> 2 ^ 47 \<and>
     unat (lp_offset p) + unat (lp_memsz p) + 4095 < 2 ^ 63"

text \<open>The part that \<^verbatim>\<open>memset\<close> clears is writable and in the pages of the file.\<close>

definition bss_ok :: "nat \<Rightarrow> lphdr \<Rightarrow> bool" where
  "bss_ok fsize p \<longleftrightarrow> (unat (lp_filesz p) < unat (lp_memsz p) \<longrightarrow>
     lp_flags p AND PF_W \<noteq> 0 \<and> unat (lp_offset p) + unat (lp_memsz p) \<le> page_up fsize)"

definition seg_loaded :: "(nat \<Rightarrow> u8) \<Rightarrow> lphdr \<Rightarrow> lmem \<Rightarrow> bool" where
  "seg_loaded content p m \<longleftrightarrow> (\<forall>i < unat (lp_memsz p). mprot m (lp_vaddr p + of_nat i) = Some (prot_of (lp_flags p)) \<and>
     mbyte m (lp_vaddr p + of_nat i) = (if i < unat (lp_filesz p) then content (unat (lp_offset p) + i) else 0))"

text \<open>The addresses of a segment, and of the pages mapped for it.\<close>

definition in_seg :: "lphdr \<Rightarrow> u64 \<Rightarrow> bool" where
  "in_seg p x \<longleftrightarrow> unat (lp_vaddr p) \<le> unat x \<and> unat x < unat (lp_vaddr p) + unat (lp_memsz p)"

definition seg_pages :: "lphdr \<Rightarrow> u64 \<Rightarrow> bool" where
  "seg_pages p x \<longleftrightarrow> unat (ROUND (lp_vaddr p) (lp_align p)) \<le> unat x \<and>
     unat x < unat (ROUND (lp_vaddr p) (lp_align p)) + page_up (unat (lp_memsz p) + unat (MOD (lp_vaddr p) (lp_align p)))"

lemma seg_numbers:
  assumes "seg_ok fsize p"
  defines "r \<equiv> unat (MOD (lp_vaddr p) (lp_align p))"
  shows "unat (ROUND (lp_vaddr p) (lp_align p)) = unat (lp_vaddr p) - r" "unat (ROUND (lp_offset p) (lp_align p)) = unat (lp_offset p) - r"
    "r \<le> unat (lp_vaddr p)" "r \<le> unat (lp_offset p)" "unat (lp_memsz p + MOD (lp_vaddr p) (lp_align p)) = unat (lp_memsz p) + r"
    "unat (ROUND (lp_vaddr p) (lp_align p)) mod 4096 = 0" "unat (ROUND (lp_offset p) (lp_align p)) mod 4096 = 0"
    "ROUND (lp_vaddr p) (lp_align p) + MOD (lp_vaddr p) (lp_align p) = lp_vaddr p"
proof -
  obtain k where k: "lp_align p = 2 ^ k" "12 \<le> k" "k < 47" using assms(1) by (auto simp: seg_ok_def)
  have al: "unat (lp_align p) = 2 ^ k" unfolding k(1) using k(3) by (simp add: unat_power)
  have r: "r = unat (lp_vaddr p) mod 2 ^ k" unfolding r_def k(1) using k(3) by (simp add: unat_MOD)
  then have r2: "r = unat (lp_offset p) mod 2 ^ k" using assms(1) unfolding seg_ok_def al by simp
  show a: "unat (ROUND (lp_vaddr p) (lp_align p)) = unat (lp_vaddr p) - r" and o: "unat (ROUND (lp_offset p) (lp_align p)) = unat (lp_offset p) - r"
    using k(3) unfolding k(1) by (simp add: unat_ROUND r, simp add: unat_ROUND r2)
  show le: "r \<le> unat (lp_vaddr p)" unfolding r by simp
  show "r \<le> unat (lp_offset p)" unfolding r2 by simp
  have "unat (lp_memsz p) + r < 2 ^ 64" using le assms(1) unfolding seg_ok_def by simp
  then show "unat (lp_memsz p + MOD (lp_vaddr p) (lp_align p)) = unat (lp_memsz p) + r"
    by (subst unat_plus_if') (simp add: r_def)
  have "(4096 :: nat) dvd 2 ^ k" using le_imp_power_dvd [OF k(2), of "2 :: nat"] by simp
  then have d: "(4096 :: nat) dvd n - n mod 2 ^ k" for n by (meson dvd_minus_mod dvd_trans)
  show "unat (ROUND (lp_vaddr p) (lp_align p)) mod 4096 = 0" unfolding a r using d by simp
  show "unat (ROUND (lp_offset p) (lp_align p)) mod 4096 = 0" unfolding o r2 using d by simp
  show "ROUND (lp_vaddr p) (lp_align p) + MOD (lp_vaddr p) (lp_align p) = lp_vaddr p"
    unfolding k(1) using ROUND_MOD [of k "lp_vaddr p"] k(3) by simp
qed

lemma seg_addr: "seg_ok fsize p \<Longrightarrow> i \<le> unat (lp_memsz p) \<Longrightarrow> unat (lp_vaddr p + of_nat i) = unat (lp_vaddr p) + i"
  by (subst unat_plus_if') (simp add: seg_ok_def unsigned_of_nat take_bit_nat_eq_self)

lemma in_seg_addr: "seg_ok fsize p \<Longrightarrow> i < unat (lp_memsz p) \<Longrightarrow> in_seg p (lp_vaddr p + of_nat i)"
  using seg_addr [of fsize p i] by (simp add: in_seg_def)

lemma in_seg_pages:
  assumes "seg_ok fsize p" "in_seg p x"
  shows "seg_pages p x"
  using assms(2) seg_numbers(1,3) [OF assms(1)] page_up_bounds(1) [of "unat (lp_memsz p) + unat (MOD (lp_vaddr p) (lp_align p))"]
  unfolding in_seg_def seg_pages_def by linarith

subsection \<open>What mmap provides\<close>

text \<open>The file has \<open>fsize\<close> bytes \<open>content 0\<close>, \<open>content 1\<close>, and so on.\<close>

locale file_mapping =
  fixes mmap :: mmap_fun and content :: "nat \<Rightarrow> u8" and fsize :: nat
  assumes mapped_prot: "mmap a len prot off m = Some m' \<Longrightarrow> unat a + page_up (unat len) < 2 ^ 64 \<Longrightarrow> i < page_up (unat len) \<Longrightarrow>
      mprot m' (a + of_nat i) = (if unat off + i < page_up fsize then Some prot else None)"
    and mapped_byte: "mmap a len prot off m = Some m' \<Longrightarrow> unat a + page_up (unat len) < 2 ^ 64 \<Longrightarrow> i < page_up (unat len) \<Longrightarrow>
      unat off + i < page_up fsize \<Longrightarrow> mbyte m' (a + of_nat i) = (if unat off + i < fsize then content (unat off + i) else 0)"
    and unmapped: "mmap a len prot off m = Some m' \<Longrightarrow> unat a + page_up (unat len) < 2 ^ 64 \<Longrightarrow>
      unat x < unat a \<or> unat a + page_up (unat len) \<le> unat x \<Longrightarrow> mprot m' x = mprot m x \<and> mbyte m' x = mbyte m x"

text \<open>Requests that the kernel grants: whole pages, not empty, above the lowest 64 KiB and below the
  end of the user's addresses, with an offset and length that fit a file offset.\<close>

definition mappable :: "u64 \<Rightarrow> u64 \<Rightarrow> u64 \<Rightarrow> bool" where
  "mappable a len off \<longleftrightarrow> unat a mod 4096 = 0 \<and> unat off mod 4096 = 0 \<and> len \<noteq> 0 \<and> 0x10000 \<le> unat a \<and>
     unat a + page_up (unat len) \<le> 2 ^ 47 - 4096 \<and> unat off + page_up (unat len) < 2 ^ 63"

locale granting_mapping = file_mapping +
  assumes granted: "mappable a len off \<Longrightarrow> mmap a len prot off m \<noteq> None"
begin

text \<open>The mapping of a segment, before the \<^verbatim>\<open>memset\<close>.\<close>

lemma map_segment:
  assumes ok: "seg_ok fsize p"
  obtains m1 where "mmap (ROUND (lp_vaddr p) (lp_align p)) (lp_memsz p + MOD (lp_vaddr p) (lp_align p)) (prot_of (lp_flags p))
        (ROUND (lp_offset p) (lp_align p)) m = Some m1"
    "\<And>i. i < unat (lp_memsz p) \<Longrightarrow> mprot m1 (lp_vaddr p + of_nat i) =
        (if unat (lp_offset p) + i < page_up fsize then Some (prot_of (lp_flags p)) else None)"
    "\<And>i. i < unat (lp_filesz p) \<Longrightarrow> mbyte m1 (lp_vaddr p + of_nat i) = content (unat (lp_offset p) + i)"
    "\<And>x. \<not> seg_pages p x \<Longrightarrow> mprot m1 x = mprot m x \<and> mbyte m1 x = mbyte m x"
proof -
  let ?a = "ROUND (lp_vaddr p) (lp_align p)" and ?o = "ROUND (lp_offset p) (lp_align p)" and ?R = "MOD (lp_vaddr p) (lp_align p)"
  let ?len = "lp_memsz p + ?R" and ?r = "unat (MOD (lp_vaddr p) (lp_align p))"
  note n = seg_numbers [OF ok]
  have up: "unat (lp_memsz p) + ?r \<le> page_up (unat ?len)" "page_up (unat ?len) \<le> unat (lp_memsz p) + ?r + 4095"
    using page_up_bounds [of "unat ?len"] unfolding n(5) by auto
  have fit: "unat ?a + page_up (unat ?len) \<le> 2 ^ 47 - 4096" "unat ?o + page_up (unat ?len) < 2 ^ 63"
    using ok up(2) n(3,4) unfolding seg_ok_def n(1,2) by linarith+
  have "unat ?len \<noteq> 0" using ok unfolding n(5) seg_ok_def by simp
  then have "mappable ?a ?len ?o" using ok n(6,7) fit unfolding mappable_def seg_ok_def by auto
  then obtain m1 where m1: "mmap ?a ?len (prot_of (lp_flags p)) ?o m = Some m1" using granted by blast
  have top: "unat ?a + page_up (unat ?len) < 2 ^ 64" using fit(1) by simp
  have idx: "?a + of_nat (?r + i) = lp_vaddr p + of_nat i" for i
  proof -
    have "?a + of_nat (?r + i) = ?a + ?R + of_nat i" by simp
    then show ?thesis unfolding n(8) .
  qed
  have off: "unat ?o + (?r + i) = unat (lp_offset p) + i" for i using n(2,4) by simp
  have pr: "mprot m1 (lp_vaddr p + of_nat i) = (if unat (lp_offset p) + i < page_up fsize then Some (prot_of (lp_flags p)) else None)"
    if "i < unat (lp_memsz p)" for i
    using mapped_prot [OF m1 top, of "?r + i"] that up(1) unfolding idx off by simp
  have byt: "mbyte m1 (lp_vaddr p + of_nat i) = content (unat (lp_offset p) + i)" if "i < unat (lp_filesz p)" for i
    using mapped_byte [OF m1 top, of "?r + i"] that up(1) ok page_up_bounds(1) [of fsize] unfolding idx off seg_ok_def by simp
  have fr: "mprot m1 x = mprot m x \<and> mbyte m1 x = mbyte m x" if "\<not> seg_pages p x" for x
    using unmapped [OF m1 top, of x] that unfolding seg_pages_def n(5) by linarith
  show thesis by (rule that [OF m1 pr byt fr])
qed

lemma load_segment_ok:
  assumes ok: "seg_ok fsize p" and bss: "bss_ok fsize p"
  shows "\<exists>m'. load_segment mmap p m = Inr m' \<and> seg_loaded content p m' \<and>
    (\<forall>x. \<not> seg_pages p x \<longrightarrow> mprot m' x = mprot m x \<and> mbyte m' x = mbyte m x)"
proof -
  let ?v = "unat (lp_vaddr p)" and ?f = "unat (lp_filesz p)" and ?M = "unat (lp_memsz p)" and ?b = "lp_vaddr p + lp_filesz p"
  obtain m1 where m1: "mmap (ROUND (lp_vaddr p) (lp_align p)) (lp_memsz p + MOD (lp_vaddr p) (lp_align p)) (prot_of (lp_flags p))
        (ROUND (lp_offset p) (lp_align p)) m = Some m1"
    and pr: "\<And>i. i < ?M \<Longrightarrow> mprot m1 (lp_vaddr p + of_nat i) = (if unat (lp_offset p) + i < page_up fsize then Some (prot_of (lp_flags p)) else None)"
    and byt: "\<And>i. i < ?f \<Longrightarrow> mbyte m1 (lp_vaddr p + of_nat i) = content (unat (lp_offset p) + i)"
    and fr: "\<And>x. \<not> seg_pages p x \<Longrightarrow> mprot m1 x = mprot m x \<and> mbyte m1 x = mbyte m x"
    using map_segment [OF ok] by metis
  have le: "?f \<le> ?M" and top: "?v + ?M < 2 ^ 47" and fs: "unat (lp_offset p) + ?f \<le> fsize" using ok by (auto simp: seg_ok_def)
  have n: "unat (lp_memsz p - lp_filesz p) = ?M - ?f" using le by (simp add: unat_sub_if')
  have b: "?b + of_nat i = lp_vaddr p + of_nat (?f + i)" for i by simp
  have "writable m1 (?b + of_nat i)" if "i < ?M - ?f" for i
  proof -
    have "lp_flags p AND PF_W \<noteq> 0" "unat (lp_offset p) + (?f + i) < page_up fsize" using bss that by (auto simp: bss_ok_def)
    then show ?thesis using pr [of "?f + i"] that prot_of_write unfolding writable_def b by simp
  qed
  then have l: "load_segment mmap p m = Inr (m1\<lparr>mbyte := (\<lambda>x. if unat (x - ?b) < ?M - ?f then 0 else mbyte m1 x)\<rparr>)" (is "_ = Inr ?m'")
    by (simp add: load_segment_def m1 memset_def n)
  have z: "unat (x - ?b) < ?M - ?f \<longleftrightarrow> ?v + ?f \<le> unat x \<and> unat x < ?v + ?M" for x
  proof -
    have "unat ?b = ?v + ?f" using top le by (subst unat_plus_if') simp
    then show ?thesis using top le unsigned_less [of x] by (simp add: unat_sub_if') linarith
  qed
  have "unat (lp_offset p) + i < page_up fsize" if "i < ?M" for i
    using bss fs page_up_bounds(1) [of fsize] that unfolding bss_ok_def by (cases "?f < ?M") auto
  then have "mprot ?m' (lp_vaddr p + of_nat i) = Some (prot_of (lp_flags p))" if "i < ?M" for i using pr [OF that] that by simp
  moreover have "mbyte ?m' (lp_vaddr p + of_nat i) = (if i < ?f then content (unat (lp_offset p) + i) else 0)" if "i < ?M" for i
    using z [of "lp_vaddr p + of_nat i"] seg_addr [OF ok, of i] byt [of i] that by (cases "i < ?f") simp_all
  ultimately have "seg_loaded content p ?m'" unfolding seg_loaded_def by blast
  moreover have "mprot ?m' x = mprot m x \<and> mbyte ?m' x = mbyte m x" if "\<not> seg_pages p x" for x
  proof -
    have "\<not> in_seg p x" using in_seg_pages [OF ok] that by blast
    then show ?thesis using fr [OF that] by (auto simp: z in_seg_def)
  qed
  ultimately show ?thesis using l by blast
qed

lemma load_segment_fault:
  assumes ok: "seg_ok fsize p" and bss: "\<not> bss_ok fsize p"
  shows "load_segment mmap p m = Inl MemFault"
proof -
  let ?f = "unat (lp_filesz p)" and ?M = "unat (lp_memsz p)"
  obtain m1 where m1: "mmap (ROUND (lp_vaddr p) (lp_align p)) (lp_memsz p + MOD (lp_vaddr p) (lp_align p)) (prot_of (lp_flags p))
        (ROUND (lp_offset p) (lp_align p)) m = Some m1"
    and pr: "\<And>i. i < ?M \<Longrightarrow> mprot m1 (lp_vaddr p + of_nat i) = (if unat (lp_offset p) + i < page_up fsize then Some (prot_of (lp_flags p)) else None)"
    using map_segment [OF ok] by metis
  have lt: "?f < ?M" using bss by (simp add: bss_ok_def)
  have n: "unat (lp_memsz p - lp_filesz p) = ?M - ?f" using lt by (simp add: unat_sub_if')
  have "\<exists>i < ?M - ?f. \<not> writable m1 (lp_vaddr p + lp_filesz p + of_nat i)"
  proof (intro exI conjI)
    show "?M - ?f - 1 < ?M - ?f" using lt by simp
    have "lp_vaddr p + lp_filesz p + of_nat (?M - ?f - 1) = lp_vaddr p + of_nat (?f + (?M - ?f - 1))" by simp
    also have "?f + (?M - ?f - 1) = ?M - 1" using lt by simp
    finally have x: "lp_vaddr p + lp_filesz p + of_nat (?M - ?f - 1) = lp_vaddr p + of_nat (?M - 1)" .
    have pr1: "mprot m1 (lp_vaddr p + of_nat (?M - 1)) = (if unat (lp_offset p) + (?M - 1) < page_up fsize then Some (prot_of (lp_flags p)) else None)"
      by (rule pr) (use lt in simp)
    have "\<not> (unat (lp_offset p) + (?M - 1) < page_up fsize \<and> lp_flags p AND PF_W \<noteq> 0)"
      using bss lt unfolding bss_ok_def by linarith
    then show "\<not> writable m1 (lp_vaddr p + lp_filesz p + of_nat (?M - ?f - 1))"
      unfolding x writable_def pr1 using prot_of_write [of "lp_flags p"] by (cases "unat (lp_offset p) + (?M - 1) < page_up fsize") (simp_all only: simp_thms if_True if_False option.case)
  qed
  then show ?thesis by (auto simp: load_segment_def m1 memset_def n)
qed

lemma load_segments_frame:
  "load_segments mmap ps m = Inr m' \<Longrightarrow> (\<And>q. q \<in> set ps \<Longrightarrow> lp_type q = PT_LOAD \<Longrightarrow> seg_ok fsize q \<and> \<not> seg_pages q x) \<Longrightarrow>
   mprot m' x = mprot m x \<and> mbyte m' x = mbyte m x"
proof (induction ps arbitrary: m)
  case (Cons p ps)
  show ?case
  proof (cases "lp_type p = PT_LOAD")
    case True
    then have ok: "seg_ok fsize p" "\<not> seg_pages p x" using Cons.prems(2) by auto
    then have "bss_ok fsize p" using Cons.prems(1) load_segment_fault [OF ok(1)] True by (cases "bss_ok fsize p") auto
    then obtain m1 where m1: "load_segment mmap p m = Inr m1" "mprot m1 x = mprot m x \<and> mbyte m1 x = mbyte m x"
      using load_segment_ok [OF ok(1)] ok(2) by blast
    then have "load_segments mmap ps m1 = Inr m'" using Cons.prems(1) True by simp
    then show ?thesis using Cons.IH [of m1] Cons.prems(2) m1(2) by simp
  qed (use Cons in simp)
qed simp

end

text \<open>Segments whose pages do not touch an earlier one.\<close>

fun layout_ok :: "lphdr list \<Rightarrow> bool" where
  "layout_ok [] \<longleftrightarrow> True"
| "layout_ok (p # ps) \<longleftrightarrow> layout_ok ps \<and>
     (lp_type p = PT_LOAD \<longrightarrow> (\<forall>q \<in> set ps. lp_type q = PT_LOAD \<longrightarrow> (\<forall>x. in_seg p x \<longrightarrow> \<not> seg_pages q x)))"

definition loadable :: "lphdr list \<Rightarrow> lphdr set" where
  "loadable ps = {p \<in> set ps. lp_type p = PT_LOAD}"

context granting_mapping
begin

lemma load_segments_ok:
  assumes "\<forall>q \<in> loadable ps. seg_ok fsize q" "layout_ok ps" "\<forall>q \<in> loadable ps. bss_ok fsize q"
  shows "\<exists>m'. load_segments mmap ps m = Inr m' \<and> (\<forall>p \<in> loadable ps. seg_loaded content p m')"
  using assms
proof (induction ps arbitrary: m)
  case (Cons p ps)
  have rest: "\<forall>q \<in> loadable ps. seg_ok fsize q" "layout_ok ps" "\<forall>q \<in> loadable ps. bss_ok fsize q"
    using Cons.prems by (auto simp: loadable_def)
  show ?case
  proof (cases "lp_type p = PT_LOAD")
    case False
    then have "loadable (p # ps) = loadable ps" by (auto simp: loadable_def)
    then show ?thesis using Cons.IH [OF rest] False by simp
  next
    case True
    then have ok: "seg_ok fsize p" "bss_ok fsize p" and l: "loadable (p # ps) = insert p (loadable ps)"
      using Cons.prems by (auto simp: loadable_def)
    obtain m1 where m1: "load_segment mmap p m = Inr m1" "seg_loaded content p m1" using load_segment_ok [OF ok] by blast
    obtain m' where m': "load_segments mmap ps m1 = Inr m'" "\<forall>q \<in> loadable ps. seg_loaded content q m'" using Cons.IH [OF rest] by blast
    have "mprot m' x = mprot m1 x \<and> mbyte m' x = mbyte m1 x" if "in_seg p x" for x
      using load_segments_frame [OF m'(1), of x] Cons.prems(2) rest(1) True that by (simp add: loadable_def)
    then have "seg_loaded content p m'" using m1(2) in_seg_addr [OF ok(1)] unfolding seg_loaded_def by simp
    then show ?thesis using m1(1) m' True unfolding l by simp
  qed
qed (simp add: loadable_def)

lemma load_segments_fault:
  assumes "\<forall>q \<in> loadable ps. seg_ok fsize q" "\<not> (\<forall>q \<in> loadable ps. bss_ok fsize q)"
  shows "load_segments mmap ps m = Inl MemFault"
  using assms
proof (induction ps arbitrary: m)
  case (Cons p ps)
  show ?case
  proof (cases "lp_type p = PT_LOAD")
    case False
    then show ?thesis using Cons by (auto simp: loadable_def)
  next
    case True
    then have ok: "seg_ok fsize p" using Cons.prems(1) by (simp add: loadable_def)
    show ?thesis
    proof (cases "bss_ok fsize p")
      case True
      then obtain m1 where m1: "load_segment mmap p m = Inr m1" using load_segment_ok [OF ok] by blast
      have "\<forall>q \<in> loadable ps. seg_ok fsize q" "\<not> (\<forall>q \<in> loadable ps. bss_ok fsize q)"
        using Cons.prems True by (auto simp: loadable_def)
      then show ?thesis using Cons.IH [of m1] m1 \<open>lp_type p = PT_LOAD\<close> by simp
    next
      case False
      then show ?thesis using load_segment_fault [OF ok False] True by simp
    qed
  qed
qed (simp add: loadable_def)

end

text \<open>A private file mapping at a fixed address, after mmap(2).\<close>

definition in_pages :: "u64 \<Rightarrow> u64 \<Rightarrow> u64 \<Rightarrow> bool" where
  "in_pages a len x \<longleftrightarrow> unat (x - a) < page_up (unat len)"

definition page_mmap :: "(nat \<Rightarrow> u8) \<Rightarrow> nat \<Rightarrow> mmap_fun" where
  "page_mmap content fsize a len prot off m =
     (if mappable a len off
      then Some \<lparr>mbyte = (\<lambda>x. if in_pages a len x then (let j = unat off + unat (x - a) in if j < fsize then content j else 0) else mbyte m x),
                 mprot = (\<lambda>x. if in_pages a len x then (if unat off + unat (x - a) < page_up fsize then Some prot else None) else mprot m x)\<rparr>
      else None)"

interpretation page: granting_mapping "page_mmap content fsize" content fsize for content fsize
proof
  fix a len :: u64 and prot off m m' i and x :: u64
  assume m: "page_mmap content fsize a len prot off m = Some m'" and top: "unat a + page_up (unat len) < 2 ^ 64"
  {
    assume i: "i < page_up (unat len)"
    then have "unat (a + of_nat i - a) = i" using top by (simp add: unsigned_of_nat take_bit_nat_eq_self)
    then show "mprot m' (a + of_nat i) = (if unat off + i < page_up fsize then Some prot else None)"
      and "unat off + i < page_up fsize \<Longrightarrow> mbyte m' (a + of_nat i) = (if unat off + i < fsize then content (unat off + i) else 0)"
      using m i by (auto simp: page_mmap_def in_pages_def Let_def split: if_splits)
  }
  assume "unat x < unat a \<or> unat a + page_up (unat len) \<le> unat x"
  then have "\<not> in_pages a len x" using top unsigned_less [of x] unfolding in_pages_def by (auto simp: unat_sub_if')
  then show "mprot m' x = mprot m x \<and> mbyte m' x = mbyte m x" using m by (auto simp: page_mmap_def split: if_splits)
qed (simp add: page_mmap_def)

subsection \<open>The initial stack\<close>

record lstack =
  sp :: u64
  words :: "u64 \<Rightarrow> u64"

text \<open>\<open>stack\<close> is the address of the array of \<open>STK_SZ\<close> bytes; a word that does not fit in it would
  overwrite what lies behind.\<close>

definition pushw :: "u64 \<Rightarrow> u64 \<Rightarrow> lstack \<Rightarrow> lstack lres" where
  "pushw stack v s =
     (if unat stack \<le> unat (sp s) \<and> unat (sp s) + 8 \<le> unat stack + unat STK_SZ
      then Inr (s\<lparr>words := (words s)(sp s := v), sp := sp s + 8\<rparr>) else Inl StackOverrun)"

definition AT_NULL :: u64 where "AT_NULL = 0"
definition AT_RANDOM :: u64 where "AT_RANDOM = 25"

definition push_auxv :: "u64 \<Rightarrow> u64 \<Rightarrow> u64 \<Rightarrow> lstack \<Rightarrow> lstack lres" where
  "push_auxv stack ty v s = bindl (pushw stack ty s) (pushw stack v)"

text \<open>Loops of the stack construction: over \<open>argv\<close> with its NULL, and over the environment
  (pointer and string of each entry).\<close>

fun push_args :: "u64 \<Rightarrow> u64 list \<Rightarrow> lstack \<Rightarrow> lstack lres" where
  "push_args stack [] s = pushw stack 0 s"
| "push_args stack (a # as) s = bindl (pushw stack a s) (push_args stack as)"

fun push_env :: "u64 \<Rightarrow> (u64 \<times> string) list \<Rightarrow> lstack \<Rightarrow> lstack lres" where
  "push_env stack [] s = Inr s"
| "push_env stack ((e, str) # es) s =
     (if CHR ''_'' \<notin> set str then bindl (pushw stack e s) (push_env stack es) else push_env stack es s)"

definition stack_top :: "u64 \<Rightarrow> u64" where
  "stack_top stack = ROUND (stack + STK_SZ - 4096) 16"

text \<open>\<open>rnd\<close> is the address of the static array of random bytes.\<close>

definition build_stack :: "u64 \<Rightarrow> u64 \<Rightarrow> u64 list \<Rightarrow> (u64 \<times> string) list \<Rightarrow> (u64 \<Rightarrow> u64) \<Rightarrow> lstack lres" where
  "build_stack stack rnd argv envp w =
     (let s = \<lparr>sp = stack_top stack, words = w\<rparr>;
          argc = of_nat (length argv)
      in bindl (pushw stack argc s) (\<lambda>s.
         bindl (push_args stack argv s) (\<lambda>s.
         bindl (push_env stack envp s) (\<lambda>s.
         bindl (pushw stack 0 s) (\<lambda>s.
         bindl (push_auxv stack AT_RANDOM rnd s) (push_auxv stack AT_NULL 0))))))"

text \<open>All of these push a list of words; \<open>pushes\<close> is the outcome where they fit.\<close>

fun push_all :: "u64 \<Rightarrow> u64 list \<Rightarrow> lstack \<Rightarrow> lstack lres" where
  "push_all stack [] s = Inr s"
| "push_all stack (v # vs) s = bindl (pushw stack v s) (push_all stack vs)"

fun pushes :: "u64 list \<Rightarrow> lstack \<Rightarrow> lstack" where
  "pushes [] s = s"
| "pushes (v # vs) s = pushes vs (s\<lparr>words := (words s)(sp s := v), sp := sp s + 8\<rparr>)"

lemma bindl_assoc: "bindl (bindl r f) g = bindl r (\<lambda>x. bindl (f x) g)"
  by (cases r) simp_all

lemma push_all_append: "push_all stack (vs @ us) s = bindl (push_all stack vs s) (push_all stack us)"
  by (induction vs arbitrary: s) (auto simp: bindl_def split: sum.splits)

lemma pushw_all: "pushw stack v s = push_all stack [v] s"
  by (simp add: bindl_def split: sum.splits)

lemma push_args_all: "push_args stack as s = push_all stack (as @ [0]) s"
  by (induction as arbitrary: s) (auto simp: bindl_def split: sum.splits)

definition kept :: "(u64 \<times> string) list \<Rightarrow> u64 list" where
  "kept envp = map fst (filter (\<lambda>(e, str). CHR ''_'' \<notin> set str) envp)"

lemma push_env_all: "push_env stack es s = push_all stack (kept es) s"
  by (induction stack es s rule: push_env.induct) (auto simp: bindl_def kept_def split: sum.splits)

definition stack_words :: "u64 \<Rightarrow> u64 list \<Rightarrow> (u64 \<times> string) list \<Rightarrow> u64 list" where
  "stack_words rnd argv envp = of_nat (length argv) # argv @ 0 # kept envp @ [0, AT_RANDOM, rnd, AT_NULL, 0]"

lemma build_stack_all:
  "build_stack stack rnd argv envp w = push_all stack (stack_words rnd argv envp) \<lparr>sp = stack_top stack, words = w\<rparr>"
proof -
  have ws: "stack_words rnd argv envp = [of_nat (length argv)] @ (argv @ [0]) @ kept envp @ [0] @ [AT_RANDOM, rnd] @ [AT_NULL, 0]"
    by (simp add: stack_words_def)
  have "pushw stack v = push_all stack [v]" "push_args stack argv = push_all stack (argv @ [0])"
    "push_env stack envp = push_all stack (kept envp)" for v
    by (intro ext pushw_all push_args_all push_env_all)+
  moreover have "push_auxv stack ty v = push_all stack [ty, v]" for ty v
    by (rule ext) (simp add: push_auxv_def bindl_def split: sum.splits)
  moreover have "push_all stack (vs @ us) = (\<lambda>s. bindl (push_all stack vs s) (push_all stack us))" for vs us
    by (rule ext) (rule push_all_append)
  ultimately show ?thesis unfolding build_stack_def Let_def ws by presburger
qed

text \<open>What fits: the array ends at \<open>stack + STK_SZ\<close>.\<close>

lemma push_all_fits:
  assumes "unat stack \<le> unat (sp s)" "unat (sp s) \<le> unat stack + unat STK_SZ" "unat stack + unat STK_SZ < 2 ^ 64"
  shows "push_all stack vs s =
    (if unat (sp s) + 8 * length vs \<le> unat stack + unat STK_SZ then Inr (pushes vs s) else Inl StackOverrun)"
  using assms
proof (induction vs arbitrary: s)
  case (Cons v vs)
  show ?case
  proof (cases "unat (sp s) + 8 \<le> unat stack + unat STK_SZ")
    case True
    let ?s = "s\<lparr>words := (words s)(sp s := v), sp := sp s + 8\<rparr>"
    have p: "pushw stack v s = Inr ?s" using Cons.prems(1) True by (simp add: pushw_def)
    have u: "unat (sp ?s) = unat (sp s) + 8" using True Cons.prems(3) by (simp add: unat_plus_if')
    have "unat stack \<le> unat (sp ?s)" "unat (sp ?s) \<le> unat stack + unat STK_SZ" unfolding u using Cons.prems(1) True by simp_all
    then have "push_all stack vs ?s =
        (if unat (sp ?s) + 8 * length vs \<le> unat stack + unat STK_SZ then Inr (pushes vs ?s) else Inl StackOverrun)"
      using Cons.prems(3) by (rule Cons.IH)
    then show ?thesis unfolding u by (simp add: p)
  qed (simp add: pushw_def)
qed simp

text \<open>Reading the words back, from the address that the program finds in its stack pointer.\<close>

definition words_at :: "(u64 \<Rightarrow> u64) \<Rightarrow> u64 \<Rightarrow> nat \<Rightarrow> u64 list" where
  "words_at w a n = map (\<lambda>i. w (a + 8 * of_nat i)) [0..<n]"

lemma pushes_append: "pushes (vs @ us) s = pushes us (pushes vs s)"
  by (induction vs arbitrary: s) auto

lemma pushes_sp: "sp (pushes vs s) = sp s + 8 * of_nat (length vs)"
  by (induction vs arbitrary: s) (auto simp: algebra_simps)

lemma word_offset_inj:
  assumes "8 * i < 2 ^ 64" "8 * j < 2 ^ 64" "a + 8 * of_nat i = a + 8 * (of_nat j :: u64)"
  shows "i = j"
proof -
  have "unat (of_nat (8 * i) :: u64) = 8 * i" "unat (of_nat (8 * j) :: u64) = 8 * j"
    using assms(1,2) by (simp_all only: unsigned_of_nat) (simp_all add: take_bit_nat_eq_self)
  moreover have "(of_nat (8 * i) :: u64) = of_nat (8 * j)" using assms(3) by simp
  ultimately have "8 * i = 8 * j" by metis
  then show ?thesis by simp
qed

lemma pushes_words: "8 * length vs < 2 ^ 64 \<Longrightarrow> words_at (words (pushes vs s)) (sp s) (length vs) = vs"
proof (induction vs arbitrary: s rule: rev_induct)
  case Nil
  then show ?case by (simp add: words_at_def)
next
  case (snoc v vs)
  let ?s = "pushes vs s"
  have w: "words (pushes (vs @ [v]) s) = (words ?s)(sp s + 8 * of_nat (length vs) := v)"
    by (simp add: pushes_append pushes_sp)
  have "sp s + 8 * of_nat i \<noteq> sp s + 8 * of_nat (length vs)" if "i < length vs" for i
    using word_offset_inj [of i "length vs" "sp s"] that snoc.prems by auto
  then have "words_at (words (pushes (vs @ [v]) s)) (sp s) (length vs) = words_at (words ?s) (sp s) (length vs)"
    by (simp add: words_at_def w)
  also have "\<dots> = vs" using snoc by simp
  finally have "words_at (words (pushes (vs @ [v]) s)) (sp s) (length vs) = vs" .
  moreover have "words (pushes (vs @ [v]) s) (sp s + 8 * of_nat (length vs)) = v" by (simp add: w)
  moreover have "words_at u a (length (vs @ [v])) = words_at u a (length vs) @ [u (a + 8 * of_nat (length vs))]" for u a
    by (simp add: words_at_def)
  ultimately show ?case by (simp only:)
qed

text \<open>What a start-up routine reads, by the convention of the System V ABI.\<close>

fun aux_pairs :: "u64 list \<Rightarrow> (u64 \<times> u64) list" where
  "aux_pairs (t # v # ws) = (if t = AT_NULL then [] else (t, v) # aux_pairs ws)"
| "aux_pairs _ = []"

definition abi_argv :: "u64 list \<Rightarrow> u64 list" where
  "abi_argv ws = take (unat (hd ws)) (tl ws)"

definition abi_envp :: "u64 list \<Rightarrow> u64 list" where
  "abi_envp ws = takeWhile (\<lambda>v. v \<noteq> 0) (drop (unat (hd ws) + 2) ws)"

definition abi_auxv :: "u64 list \<Rightarrow> (u64 \<times> u64) list" where
  "abi_auxv ws = aux_pairs (tl (dropWhile (\<lambda>v. v \<noteq> 0) (drop (unat (hd ws) + 2) ws)))"

lemma unat_STK_SZ: "unat STK_SZ = 2 ^ 20"
  by (simp add: STK_SZ_def)

lemma stack_room:
  assumes "unat stack + 2 ^ 20 < 2 ^ 64"
  shows "unat stack \<le> unat (stack_top stack)" "unat (stack_top stack) + 4096 \<le> unat stack + 2 ^ 20"
    "unat stack + 2 ^ 20 \<le> unat (stack_top stack) + 4111"
proof -
  have "unat (stack + STK_SZ) = unat stack + 2 ^ 20" using assms by (simp add: unat_plus_if' STK_SZ_def)
  then have "unat (stack + STK_SZ - 4096) = unat stack + 2 ^ 20 - 4096" by (simp add: unat_sub_if')
  then have e: "unat (stack_top stack) = unat stack + 2 ^ 20 - 4096 - (unat stack + 2 ^ 20 - 4096) mod 16"
    using unat_ROUND [of 4 "stack + STK_SZ - 4096"] by (simp add: stack_top_def)
  have "(unat stack + 2 ^ 20 - 4096) mod 16 < 16" by simp
  then show "unat stack \<le> unat (stack_top stack)" "unat (stack_top stack) + 4096 \<le> unat stack + 2 ^ 20"
    "unat stack + 2 ^ 20 \<le> unat (stack_top stack) + 4111" unfolding e by simp_all
qed

lemma build_stack_fits:
  assumes "unat stack + 2 ^ 20 < 2 ^ 64"
  shows "build_stack stack rnd argv envp w =
    (if unat (stack_top stack) + 8 * (length argv + length (kept envp) + 7) \<le> unat stack + 2 ^ 20
     then Inr (pushes (stack_words rnd argv envp) \<lparr>sp = stack_top stack, words = w\<rparr>) else Inl StackOverrun)"
  using push_all_fits [of stack "\<lparr>sp = stack_top stack, words = w\<rparr>" "stack_words rnd argv envp"] stack_room [OF assms] assms
  unfolding build_stack_all unat_STK_SZ by (simp add: stack_words_def)

lemma stack_words_abi:
  assumes "length argv < 2 ^ 31" "0 \<notin> fst ` set envp"
  shows "abi_argv (stack_words rnd argv envp) = argv" "abi_envp (stack_words rnd argv envp) = kept envp"
    "abi_auxv (stack_words rnd argv envp) = [(AT_RANDOM, rnd)]"
proof -
  let ?vs = "stack_words rnd argv envp"
  have hd: "unat (hd ?vs) = length argv" using assms(1) by (simp add: stack_words_def unsigned_of_nat take_bit_nat_eq_self)
  have d: "drop (length argv + 2) ?vs = kept envp @ [0, AT_RANDOM, rnd, AT_NULL, 0]" by (simp add: stack_words_def)
  have z: "\<forall>v \<in> set (kept envp). v \<noteq> 0" using assms(2) by (force simp: kept_def)
  show "abi_argv ?vs = argv" using hd by (simp add: abi_argv_def) (simp add: stack_words_def)
  show "abi_envp ?vs = kept envp" using z unfolding abi_envp_def hd d by (simp add: takeWhile_append)
  show "abi_auxv ?vs = [(AT_RANDOM, rnd)]" using z unfolding abi_auxv_def hd d
    by (simp add: dropWhile_append AT_RANDOM_def AT_NULL_def)
qed

text \<open>
  C30: the stack that \<^verbatim>\<open>execve_\<close> builds, with \<open>n\<close> words for \<open>argc\<close>, the arguments, the
  environment entries whose strings have no underscore, the two NULLs and the auxiliary vector.
  Up to 512 words fit in \<^verbatim>\<open>stack\<close> and are read back correctly: a program that starts on them
  by the conventions of the ABI finds the given arguments, the kept environment entries, in order,
  and an auxiliary vector with the address of the 16 random bytes. From 514 words on the loader
  writes past the end of the array, which it does not check (513 fit or not, by the alignment of
  the array). The new stack pointer is a multiple of 16.
\<close>

theorem execve_stack:
  assumes "unat stack + 2 ^ 20 < 2 ^ 64" "length argv < 2 ^ 31" "0 \<notin> fst ` set envp"
  shows "unat (stack_top stack) mod 16 = 0 \<and>
    (let n = length argv + length (kept envp) + 7
     in (n \<le> 512 \<longrightarrow> (\<exists>s. build_stack stack rnd argv envp w = Inr s \<and>
           (let ws = words_at (words s) (stack_top stack) n
            in abi_argv ws = argv \<and> abi_envp ws = kept envp \<and> abi_auxv ws = [(AT_RANDOM, rnd)]))) \<and>
        (513 < n \<longrightarrow> build_stack stack rnd argv envp w = Inl StackOverrun))"
proof -
  let ?vs = "stack_words rnd argv envp" and ?n = "length argv + length (kept envp) + 7"
  let ?s = "pushes ?vs \<lparr>sp = stack_top stack, words = w\<rparr>"
  note room = stack_room [OF assms(1)] and fits = build_stack_fits [OF assms(1), of rnd argv envp w]
  have n: "length ?vs = ?n" by (simp add: stack_words_def)
  have top: "unat (stack_top stack) mod 16 = 0"
    using unat_ROUND [of 4 "stack + STK_SZ - 4096"] by (simp add: stack_top_def mod_eq_0_iff_dvd dvd_minus_mod)
  have "build_stack stack rnd argv envp w = Inr ?s \<and> words_at (words ?s) (stack_top stack) ?n = ?vs" if le: "?n \<le> 512"
  proof -
    have "unat (stack_top stack) + 8 * ?n \<le> unat stack + 2 ^ 20" using room(2) le by simp
    moreover have "8 * length ?vs < 2 ^ 64" unfolding n using le by simp
    ultimately show ?thesis using fits pushes_words [of ?vs "\<lparr>sp = stack_top stack, words = w\<rparr>"] n by simp
  qed
  moreover have "build_stack stack rnd argv envp w = Inl StackOverrun" if gt: "513 < ?n"
  proof -
    have "\<not> unat (stack_top stack) + 8 * ?n \<le> unat stack + 2 ^ 20" using room(3) gt by simp
    then show ?thesis using fits by (simp only: if_False)
  qed
  ultimately show ?thesis using top stack_words_abi [OF assms(2,3), of rnd] unfolding Let_def by metis
qed

text \<open>Two arguments and two environment entries fit; 600 arguments do not.\<close>

theorem execve_stack_witness:
  "(\<exists>s. build_stack 0x400000 0x3000 [0x10, 0x20] [(0x30, ''HOME=/root''), (0x40, ''LC_ALL=C'')] (\<lambda>_. 0) = Inr s \<and>
     abi_envp (words_at (words s) (stack_top 0x400000) 10) = [0x30]) \<and>
   build_stack 0x400000 0x3000 (replicate 600 0x10) [] (\<lambda>_. 0) = Inl StackOverrun"
proof -
  have "\<exists>s. build_stack 0x400000 0x3000 [0x10, 0x20] [(0x30, ''HOME=/root''), (0x40, ''LC_ALL=C'')] (\<lambda>_. 0) = Inr s \<and>
     abi_envp (words_at (words s) (stack_top 0x400000) 10) = [0x30]"
    using execve_stack [of "0x400000" "[0x10, 0x20]" "[(0x30, ''HOME=/root''), (0x40, ''LC_ALL=C'')]" "0x3000" "\<lambda>_. 0"]
    by (auto simp: Let_def kept_def)
  moreover have "build_stack 0x400000 0x3000 (replicate 600 0x10) [] (\<lambda>_. 0) = Inl StackOverrun"
    using execve_stack [of "0x400000" "replicate 600 0x10" "[]" "0x3000" "\<lambda>_. 0"] by (simp add: Let_def)
  ultimately show ?thesis by blast
qed

subsection \<open>execve\<close>

record ehdr =
  eh_type :: u16
  eh_machine :: u16
  eh_entry :: u64
  eh_pht :: "lphdr list"

text \<open>\<open>fd\<close> is what \<^verbatim>\<open>open\<close> returned, \<open>h\<close> the header and the program header table in the page
  mapped first (\<open>None\<close>: that mapping failed), which the segments leave alone. The result is the
  memory, the words of the stack, the stack pointer and the address jumped to.\<close>

definition execve_static :: "mmap_fun \<Rightarrow> int \<Rightarrow> ehdr option \<Rightarrow> u64 \<Rightarrow> u64 \<Rightarrow> u64 list \<Rightarrow> (u64 \<times> string) list \<Rightarrow> lmem \<Rightarrow> (u64 \<Rightarrow> u64)
    \<Rightarrow> (lmem \<times> (u64 \<Rightarrow> u64) \<times> u64 \<times> u64) lres" where
  "execve_static mmap fd h stack rnd argv envp m w =
     (if \<not> fd > 0 then Inl AssertFails
      else case h of
        None \<Rightarrow> Inl AssertFails
      | Some h \<Rightarrow>
          if \<not> (eh_type h = 2 \<and> eh_machine h = 62) then Inl AssertFails
          else bindl (load_segments mmap (eh_pht h) m) (\<lambda>m'.
            bindl (build_stack stack rnd argv envp w) (\<lambda>s.
            Inr (m', words s, stack_top stack, eh_entry h))))"

text \<open>\<open>main\<close>: \<open>None\<close> is the usage message and \<^verbatim>\<open>exit(1)\<close>.\<close>

definition loader_main :: "'a list \<Rightarrow> ('a \<times> 'a list) option" where
  "loader_main argv = (if length argv < 2 then None else Some (argv ! 1, drop 1 argv))"

text \<open>
  C29: \<^verbatim>\<open>execve_\<close> loads a static 64-bit executable whose segments are as a linker lays them
  out (the pages of a later one do not touch an earlier one), with every \<^verbatim>\<open>mmap\<close> that behaves
  as documented and grants the requests, and an initial stack that fits. If every segment that is longer
  in memory than in the file is writable and ends within the pages of the file, control goes to the
  entry point with every loadable segment in memory: with the protection of its flags, its bytes
  from the file and then zeros up to its size in memory. If not, the \<^verbatim>\<open>memset\<close> faults. A file
  that is not a static executable for the machine fails an assertion.
\<close>

theorem execve_loads:
  assumes "granting_mapping mmap content fsize" "fd > 0" "build_stack stack rnd argv envp w = Inr s"
    and "\<forall>q \<in> loadable (eh_pht h). seg_ok fsize q" "layout_ok (eh_pht h)"
  shows "if \<not> (eh_type h = 2 \<and> eh_machine h = 62)
    then execve_static mmap fd (Some h) stack rnd argv envp m w = Inl AssertFails
    else if \<forall>q \<in> loadable (eh_pht h). bss_ok fsize q
    then \<exists>m'. execve_static mmap fd (Some h) stack rnd argv envp m w = Inr (m', words s, stack_top stack, eh_entry h) \<and>
      (\<forall>p \<in> loadable (eh_pht h). seg_loaded content p m')
    else execve_static mmap fd (Some h) stack rnd argv envp m w = Inl MemFault"
proof -
  have "\<exists>m'. load_segments mmap (eh_pht h) m = Inr m' \<and> (\<forall>p \<in> loadable (eh_pht h). seg_loaded content p m')"
    if "\<forall>q \<in> loadable (eh_pht h). bss_ok fsize q"
    by (rule granting_mapping.load_segments_ok [OF assms(1,4,5) that])
  moreover have "load_segments mmap (eh_pht h) m = Inl MemFault" if "\<not> (\<forall>q \<in> loadable (eh_pht h). bss_ok fsize q)"
    by (rule granting_mapping.load_segments_fault [OF assms(1,4) that])
  ultimately show ?thesis using assms(2,3) by (auto simp: execve_static_def)
qed

text \<open>A file of 0x2004 bytes with a read-only segment of four bytes and a writable one of four bytes
  and four zeros; and the same file with the second segment not writable.\<close>

definition text_seg :: lphdr where
  "text_seg = \<lparr>lp_type = 1, lp_flags = 5, lp_offset = 0x1000, lp_vaddr = 0x401000, lp_filesz = 4, lp_memsz = 4, lp_align = 0x1000\<rparr>"

definition data_seg :: "u32 \<Rightarrow> lphdr" where
  "data_seg flags = \<lparr>lp_type = 1, lp_flags = flags, lp_offset = 0x2000, lp_vaddr = 0x402000, lp_filesz = 4, lp_memsz = 8, lp_align = 0x1000\<rparr>"

definition two_segs :: "u32 \<Rightarrow> ehdr" where
  "two_segs flags = \<lparr>eh_type = 2, eh_machine = 62, eh_entry = 0x401000, eh_pht = [text_seg, data_seg flags]\<rparr>"

lemma two_segs_loadable: "loadable (eh_pht (two_segs flags)) = {text_seg, data_seg flags}"
  by (auto simp: loadable_def PT_LOAD_def two_segs_def text_seg_def data_seg_def)

lemma two_segs_ok:
  "\<forall>q \<in> loadable (eh_pht (two_segs flags)). seg_ok 0x2004 q" "layout_ok (eh_pht (two_segs flags))"
  "(\<forall>q \<in> loadable (eh_pht (two_segs flags)). bss_ok 0x2004 q) \<longleftrightarrow> flags AND PF_W \<noteq> 0"
proof -
  have r: "ROUND 0x401000 0x1000 = 0x401000" "ROUND 0x402000 0x1000 = 0x402000" "MOD 0x402000 0x1000 = 0"
    by (simp_all add: ROUND_def MOD_def)
  have p: "(0x1000 :: u64) \<in> (\<lambda>k. 2 ^ k) ` {12..<47}" by (rule image_eqI [of _ _ 12]) auto
  have "seg_ok 0x2004 text_seg" "seg_ok 0x2004 (data_seg flags)"
    using p by (simp_all add: text_seg_def data_seg_def seg_ok_def r)
  then show "\<forall>q \<in> loadable (eh_pht (two_segs flags)). seg_ok 0x2004 q" unfolding two_segs_loadable by simp
  show "layout_ok (eh_pht (two_segs flags))"
    by (auto simp: two_segs_def text_seg_def data_seg_def in_seg_def seg_pages_def r)
  have "bss_ok 0x2004 text_seg" unfolding bss_ok_def text_seg_def by simp
  moreover have "bss_ok 0x2004 (data_seg flags) \<longleftrightarrow> flags AND PF_W \<noteq> 0" unfolding bss_ok_def data_seg_def page_up_def by simp
  ultimately show "(\<forall>q \<in> loadable (eh_pht (two_segs flags)). bss_ok 0x2004 q) \<longleftrightarrow> flags AND PF_W \<noteq> 0"
    unfolding two_segs_loadable by simp
qed

theorem execve_loads_witness:
  "(\<exists>m' w'. execve_static (page_mmap of_nat 0x2004) 3 (Some (two_segs 6)) 0x600000 0x3000 [0x10] [] \<lparr>mbyte = \<lambda>_. 0xff, mprot = \<lambda>_. None\<rparr> (\<lambda>_. 0)
      = Inr (m', w', stack_top 0x600000, 0x401000) \<and>
    mbyte m' 0x401001 = 1 \<and> mbyte m' 0x402001 = 1 \<and> mbyte m' 0x402004 = 0 \<and> mprot m' 0x401001 = Some 5 \<and> mprot m' 0x402004 = Some 3) \<and>
   execve_static (page_mmap of_nat 0x2004) 3 (Some (two_segs 5)) 0x600000 0x3000 [0x10] [] \<lparr>mbyte = \<lambda>_. 0xff, mprot = \<lambda>_. None\<rparr> (\<lambda>_. 0)
      = Inl MemFault"
proof -
  let ?m = "\<lparr>mbyte = \<lambda>_. 0xff, mprot = \<lambda>_. None\<rparr>"
  have "build_stack 0x600000 0x3000 [0x10] [] (\<lambda>_. 0) \<noteq> Inl e" for e
    using stack_room [of "0x600000"] build_stack_fits [of "0x600000" "0x3000" "[0x10]" "[]" "\<lambda>_. 0"] by (simp add: kept_def)
  then obtain s where s: "build_stack 0x600000 0x3000 [0x10] [] (\<lambda>_. 0) = Inr s" by (cases "build_stack 0x600000 0x3000 [0x10] [] (\<lambda>_. 0)") auto
  note e = execve_loads [of "page_mmap of_nat 0x2004" of_nat "0x2004" 3 "0x600000" "0x3000" "[0x10]" "[]" "\<lambda>_. 0" s,
      OF page.granting_mapping_axioms _ s two_segs_ok(1,2)]
  have w: "(6 :: u32) AND PF_W \<noteq> 0" "(5 :: u32) AND PF_W = 0" by (simp_all add: PF_W_def)
  obtain m' where m': "execve_static (page_mmap of_nat 0x2004) 3 (Some (two_segs 6)) 0x600000 0x3000 [0x10] [] ?m (\<lambda>_. 0)
      = Inr (m', words s, stack_top 0x600000, 0x401000)" "\<forall>p \<in> {text_seg, data_seg 6}. seg_loaded of_nat p m'"
    using e [of 6 ?m] w(1) unfolding two_segs_ok(3) unfolding two_segs_loadable by (auto simp: two_segs_def)
  have "prot_of 5 = 5" "prot_of 6 = 3" by code_simp+
  moreover have "seg_loaded of_nat text_seg m'" "seg_loaded of_nat (data_seg 6) m'" using m'(2) by simp_all
  ultimately have "mbyte m' 0x401001 = 1 \<and> mprot m' 0x401001 = Some 5" "mbyte m' 0x402001 = 1" "mbyte m' 0x402004 = 0 \<and> mprot m' 0x402004 = Some 3"
    unfolding seg_loaded_def by (force simp: text_seg_def dest: spec [of _ 1], force simp: data_seg_def dest: spec [of _ 1],
      force simp: data_seg_def dest: spec [of _ 4])
  moreover have "execve_static (page_mmap of_nat 0x2004) 3 (Some (two_segs 5)) 0x600000 0x3000 [0x10] [] ?m (\<lambda>_. 0) = Inl MemFault"
    using e [of 5 ?m] w(2) unfolding two_segs_ok(3) by (auto simp: two_segs_def)
  ultimately show ?thesis using m'(1) by blast
qed

end
