(* ===== verification/Litmus.thy ===== *)
theory Litmus
  imports Store_Buffer
begin

text \<open>
  The store buffer litmus test \<^verbatim>\<open>concurrency/mem-ordering.c\<close>: in rounds started by
  \<^verbatim>\<open>Tsync\<close>, thread \<^verbatim>\<open>T1\<close> stores to \<^verbatim>\<open>x\<close> and loads \<^verbatim>\<open>y\<close> while
  \<^verbatim>\<open>T2\<close> stores to \<^verbatim>\<open>y\<close> and loads \<^verbatim>\<open>x\<close>, and each round prints a line of the two
  loaded values. Shown: the rounds do not overlap (the assertion never fails and each
  line has two values, on store buffers as well); on a sequentially consistent memory no
  line is \<open>0 0\<close>; on store buffers such a line is printed.
\<close>

unbundle bit_operations_syntax

text \<open>The processors: \<open>W A\<close> runs \<^verbatim>\<open>T1\<close>, \<open>W B\<close> runs \<^verbatim>\<open>T2\<close>, \<open>S\<close> runs \<^verbatim>\<open>Tsync\<close>. The
  variable \<^verbatim>\<open>x\<close> is location \<open>A\<close>, \<^verbatim>\<open>y\<close> is location \<open>B\<close>.\<close>

datatype cpu = W side | S

datatype worker_pc = WWait | WStore | WLoad | WPrint int | WXor

datatype sync_pc = SStoreY | SStoreX | SFence | SAssert | SXor | SWait | SPrint | SFail

record litc =
  lmem :: "(cpu, side) tso"
  flag :: u32
  wpc :: "side \<Rightarrow> worker_pc"
  spc :: sync_pc
  line :: "int list"
  lines :: "int list list"

definition lit_init :: litc where
  "lit_init = \<lparr>lmem = \<lparr>mem = \<lambda>_. 0, buf = \<lambda>_. []\<rparr>, flag = 0, wpc = \<lambda>_. WWait, spc = SStoreY, line = [], lines = []\<rparr>"

fun flag_bit :: "side \<Rightarrow> u32" where
  "flag_bit A = 1" | "flag_bit B = 2"

definition wgoto :: "side \<Rightarrow> worker_pc \<Rightarrow> litc \<Rightarrow> litc" where
  "wgoto t p c = c\<lparr>wpc := (wpc c)(t := p)\<rparr>"

text \<open>An atomic read-modify-write of the flag; it waits for the buffer of its processor.\<close>

definition flag_xor :: "cpu \<Rightarrow> u32 \<Rightarrow> litc \<Rightarrow> litc option" where
  "flag_xor i v c = (if buf (lmem c) i = [] then Some (c\<lparr>flag := flag c XOR v\<rparr>) else None)"

text \<open>\<open>wr\<close> is how the machine stores. The two inlined instructions of \<^verbatim>\<open>write_x_read_y\<close>
  (\<^verbatim>\<open>write_y_read_x\<close>) are two steps, its \<^verbatim>\<open>printf\<close> the third.\<close>

definition write_read :: "(cpu \<Rightarrow> side \<Rightarrow> int \<Rightarrow> (cpu, side) tso \<Rightarrow> (cpu, side) tso) \<Rightarrow> side \<Rightarrow> litc \<Rightarrow> litc option" where
  "write_read wr t c =
     (case wpc c t of
        WStore \<Rightarrow> Some (wgoto t WLoad (c\<lparr>lmem := wr (W t) t 1 (lmem c)\<rparr>))
      | WLoad \<Rightarrow> Some (wgoto t (WPrint (tso_read (W t) (other t) (lmem c))) c)
      | WPrint v \<Rightarrow> Some (wgoto t WXor (c\<lparr>line := line c @ [v]\<rparr>))
      | _ \<Rightarrow> None)"

definition Tworker :: "(cpu \<Rightarrow> side \<Rightarrow> int \<Rightarrow> (cpu, side) tso \<Rightarrow> (cpu, side) tso) \<Rightarrow> side \<Rightarrow> litc \<Rightarrow> litc option" where
  "Tworker wr t c =
     (case wpc c t of
        WWait \<Rightarrow> Some (if flag c AND flag_bit t \<noteq> 0 then wgoto t WStore c else c)
      | WXor \<Rightarrow> map_option (wgoto t WWait) (flag_xor (W t) (flag_bit t) c)
      | _ \<Rightarrow> write_read wr t c)"

definition Tsync :: "(cpu \<Rightarrow> side \<Rightarrow> int \<Rightarrow> (cpu, side) tso \<Rightarrow> (cpu, side) tso) \<Rightarrow> litc \<Rightarrow> litc option" where
  "Tsync wr c =
     (case spc c of
        SStoreY \<Rightarrow> Some (c\<lparr>lmem := wr S B 0 (lmem c), spc := SStoreX\<rparr>)
      | SStoreX \<Rightarrow> Some (c\<lparr>lmem := wr S A 0 (lmem c), spc := SFence\<rparr>)
      | SFence \<Rightarrow> if buf (lmem c) S = [] then Some (c\<lparr>spc := SAssert\<rparr>) else None
      | SAssert \<Rightarrow> Some (c\<lparr>spc := if flag c = 0 then SXor else SFail\<rparr>)
      | SXor \<Rightarrow> map_option (\<lambda>c. c\<lparr>spc := SWait\<rparr>) (flag_xor S 3 c)
      | SWait \<Rightarrow> Some (if flag c = 0 then c\<lparr>spc := SPrint\<rparr> else c)
      | SPrint \<Rightarrow> Some (c\<lparr>lines := lines c @ [line c], line := [], spc := SStoreY\<rparr>)
      | SFail \<Rightarrow> None)"

fun lit_step :: "(cpu \<Rightarrow> side \<Rightarrow> int \<Rightarrow> (cpu, side) tso \<Rightarrow> (cpu, side) tso) \<Rightarrow> cpu \<Rightarrow> litc \<Rightarrow> litc option" where
  "lit_step wr (W t) c = Tworker wr t c"
| "lit_step wr S c = Tsync wr c"

primrec lit_tso_step :: "cpu tso_act \<Rightarrow> litc \<Rightarrow> litc option" where
  "lit_tso_step (Exec i) c = lit_step tso_write i c"
| "lit_tso_step (Drain i) c = map_option (\<lambda>m. c\<lparr>lmem := m\<rparr>) (tso_drain i (lmem c))"

subsection \<open>The rounds do not overlap\<close>

text \<open>A worker that has printed its value in the running round.\<close>

definition printed :: "litc \<Rightarrow> side \<Rightarrow> bool" where
  "printed c t \<longleftrightarrow> wpc c t = WXor \<or> wpc c t = WWait \<and> flag c AND flag_bit t = 0"

definition bit01 :: "int \<Rightarrow> bool" where
  "bit01 v \<longleftrightarrow> v = 0 \<or> v = 1"

definition worker_inv :: "litc \<Rightarrow> side \<Rightarrow> bool" where
  "worker_inv c t \<longleftrightarrow> (wpc c t \<noteq> WWait \<longrightarrow> flag c AND flag_bit t \<noteq> 0) \<and>
     (buf (lmem c) (W t) = [] \<or> buf (lmem c) (W t) = [(t, 1)] \<and> wpc c t \<notin> {WWait, WStore}) \<and>
     bit01 (mem (lmem c) t) \<and> (\<forall>v. wpc c t = WPrint v \<longrightarrow> bit01 v)"

definition sync_inv :: "litc \<Rightarrow> bool" where
  "sync_inv c \<longleftrightarrow> flag c \<in> {0, 1, 2, 3} \<and> (spc c \<noteq> SWait \<longrightarrow> flag c = 0) \<and> spc c \<noteq> SFail \<and>
     buf (lmem c) S \<in> (case spc c of SStoreX \<Rightarrow> {[], [(B, 0)]} | SFence \<Rightarrow> {[], [(A, 0)], [(B, 0)], [(B, 0), (A, 0)]} | _ \<Rightarrow> {[]})"

definition line_inv :: "litc \<Rightarrow> bool" where
  "line_inv c \<longleftrightarrow> (\<forall>v \<in> set (line c). bit01 v) \<and>
     length (line c) = (case spc c of SPrint \<Rightarrow> 2 | SWait \<Rightarrow> of_bool (printed c A) + of_bool (printed c B) | _ \<Rightarrow> 0)"

definition lines_inv :: "litc \<Rightarrow> bool" where
  "lines_inv c \<longleftrightarrow> (\<forall>l \<in> set (lines c). length l = 2 \<and> (\<forall>v \<in> set l. bit01 v))"

definition lit_inv :: "litc \<Rightarrow> bool" where
  "lit_inv c \<longleftrightarrow> worker_inv c A \<and> worker_inv c B \<and> sync_inv c \<and> line_inv c \<and> lines_inv c"

lemmas lit_inv_defs = lit_inv_def worker_inv_def sync_inv_def line_inv_def lines_inv_def

lemmas lit_step_defs = Tworker_def write_read_def Tsync_def wgoto_def flag_xor_def tso_write_def sc_write_def

lemma bit01_simps [simp]: "bit01 0" "bit01 1"
  by (simp_all add: bit01_def)

lemma lit_inv_init: "lit_inv lit_init"
  by (simp add: lit_inv_defs lit_init_def)

text \<open>The steps of \<^verbatim>\<open>Tsync\<close>.\<close>

lemma sync_worker_inv:
  assumes "sync_inv c" and "worker_inv c t" and "Tsync wr c = Some c'" and "wr = tso_write \<or> wr = sc_write"
  shows "worker_inv c' t"
proof -
  have "wpc c' = wpc c" "buf (lmem c') (W t) = buf (lmem c) (W t)" "mem (lmem c') t \<in> {0, mem (lmem c) t}"
      "flag c' = flag c \<or> spc c = SXor"
    using assms(3,4) by (cases "spc c"; auto simp: lit_step_defs split: if_splits)+
  then show ?thesis using assms(1,2) by (auto simp: worker_inv_def sync_inv_def)
qed

lemma sync_sync_inv:
  assumes "sync_inv c" and "Tsync wr c = Some c'" and "wr = tso_write \<or> wr = sc_write"
  shows "sync_inv c'"
  using assms(2,3,1) by (cases "spc c") (auto simp: sync_inv_def lit_step_defs split: if_splits)

lemma sync_line_inv:
  assumes "sync_inv c" and "worker_inv c A" and "worker_inv c B" and "line_inv c" and "Tsync wr c = Some c'"
  shows "line_inv c'"
proof (cases "spc c = SXor \<or> spc c = SWait")
  case True
  have "wpc c A = WWait" "wpc c B = WWait" if "flag c = 0"
    using assms(2,3) that by (auto simp: worker_inv_def)
  then show ?thesis using True assms(1,4,5)
    by (auto simp: line_inv_def sync_inv_def lit_step_defs printed_def split: if_splits)
next
  case False
  then show ?thesis using assms(4,5) by (cases "spc c") (auto simp: line_inv_def lit_step_defs split: if_splits)
qed

lemma sync_lines_inv:
  assumes "line_inv c" and "lines_inv c" and "Tsync wr c = Some c'"
  shows "lines_inv c'"
  using assms(3,1,2) by (cases "spc c") (auto simp: lines_inv_def line_inv_def lit_step_defs split: if_splits)

lemma sync_keeps:
  "lit_inv c \<Longrightarrow> Tsync wr c = Some c' \<Longrightarrow> wr = tso_write \<or> wr = sc_write \<Longrightarrow> lit_inv c'"
  unfolding lit_inv_def by (meson sync_worker_inv sync_sync_inv sync_line_inv sync_lines_inv)

text \<open>The steps of a worker.\<close>

lemma flag_bit_simps: "f \<in> {0, 1, 2, 3} \<Longrightarrow> f AND flag_bit t \<noteq> 0 \<Longrightarrow>
    (f XOR flag_bit t) AND flag_bit t = 0 \<and> (f XOR flag_bit t) AND flag_bit (other t) = f AND flag_bit (other t) \<and> f XOR flag_bit t \<in> {0, 1, 2, 3}"
  by (cases t) auto

lemma worker_busy:
  "sync_inv c \<Longrightarrow> flag c AND flag_bit t \<noteq> 0 \<Longrightarrow> spc c = SWait \<and> flag c \<in> {0, 1, 2, 3}"
  by (auto simp: sync_inv_def)

lemma worker_frame:
  assumes "Tworker wr t c = Some c'" and "wr = tso_write \<or> wr = sc_write"
  shows "spc c' = spc c" "lines c' = lines c" "wpc c' (other t) = wpc c (other t)" "buf (lmem c') S = buf (lmem c) S"
    "buf (lmem c') (W (other t)) = buf (lmem c) (W (other t))" "mem (lmem c') (other t) = mem (lmem c) (other t)"
  using assms by (cases "wpc c t"; auto simp: lit_step_defs split: if_splits)+

lemma worker_flag:
  assumes "worker_inv c t" and "sync_inv c" and "Tworker wr t c = Some c'"
  shows "flag c' AND flag_bit (other t) = flag c AND flag_bit (other t)" "flag c' \<in> {0, 1, 2, 3}"
    "flag c AND flag_bit t = 0 \<Longrightarrow> flag c' = flag c"
proof -
  have f: "flag c \<in> {0, 1, 2, 3}" using assms(2) by (simp add: sync_inv_def)
  have d: "flag c' = flag c \<or> flag c' = flag c XOR flag_bit t \<and> flag c AND flag_bit t \<noteq> 0"
    using assms(1,3) by (cases "wpc c t") (auto simp: lit_step_defs worker_inv_def split: if_splits)
  then show "flag c' AND flag_bit (other t) = flag c AND flag_bit (other t)" "flag c' \<in> {0, 1, 2, 3}"
    using f flag_bit_simps [OF f, of t] by metis+
  show "flag c AND flag_bit t = 0 \<Longrightarrow> flag c' = flag c" using d by simp
qed

lemma worker_sync_inv:
  assumes "worker_inv c t" and "sync_inv c" and "Tworker wr t c = Some c'" and "wr = tso_write \<or> wr = sc_write"
  shows "sync_inv c'"
proof -
  have "spc c \<noteq> SWait \<Longrightarrow> flag c' = 0"
    using worker_flag(3) [OF assms(1-3)] assms(2) by (simp add: sync_inv_def)
  then show ?thesis using assms(2) worker_frame [OF assms(3,4)] worker_flag(2) [OF assms(1-3)]
    by (simp add: sync_inv_def)
qed

lemma worker_self_inv:
  assumes "worker_inv c t" and "worker_inv c (other t)" and "Tworker wr t c = Some c'" and "wr = tso_write \<or> wr = sc_write"
  shows "worker_inv c' t"
  using assms(3,4,1,2) by (cases "wpc c t") (auto simp: lit_step_defs worker_inv_def tso_read_def split: if_splits)

lemma worker_other_inv:
  assumes "worker_inv c t" and "worker_inv c (other t)" and "sync_inv c" and "Tworker wr t c = Some c'" and "wr = tso_write \<or> wr = sc_write"
  shows "worker_inv c' (other t)"
  using assms(2) worker_frame [OF assms(4,5)] worker_flag(1) [OF assms(1,3,4)] by (simp add: worker_inv_def)

lemma worker_printed:
  assumes "worker_inv c t" and "sync_inv c" and "Tworker wr t c = Some c'" and "wr = tso_write \<or> wr = sc_write"
  shows "printed c' (other t) = printed c (other t)"
    and "line c' = line c \<and> printed c' t = printed c t \<or>
      (\<exists>v. wpc c t = WPrint v \<and> line c' = line c @ [v] \<and> \<not> printed c t \<and> printed c' t)"
proof -
  show "printed c' (other t) = printed c (other t)"
    using worker_frame [OF assms(3,4)] worker_flag(1) [OF assms(1-3)] by (simp add: printed_def)
  have "flag c \<in> {0, 1, 2, 3}" using assms(2) by (simp add: sync_inv_def)
  from flag_bit_simps [OF this, of t]
  show "line c' = line c \<and> printed c' t = printed c t \<or>
      (\<exists>v. wpc c t = WPrint v \<and> line c' = line c @ [v] \<and> \<not> printed c t \<and> printed c' t)"
    using assms(1,3) by (cases "wpc c t") (auto simp: lit_step_defs worker_inv_def printed_def split: if_splits)
qed

lemma worker_line_inv:
  assumes "worker_inv c t" and "sync_inv c" and "line_inv c" and "Tworker wr t c = Some c'" and "wr = tso_write \<or> wr = sc_write"
  shows "line_inv c'"
proof -
  note pr = worker_printed [OF assms(1,2,4,5)]
  have sum: "of_bool (printed c A) + of_bool (printed c B) = of_bool (printed c t) + (of_bool (printed c (other t)) :: nat)" for c
    by (cases t) simp_all
  have busy: "spc c = SWait" if "wpc c t = WPrint v" for v
    using assms(1) worker_busy [OF assms(2), of t] that by (simp add: worker_inv_def)
  have v: "bit01 v" if "wpc c t = WPrint v" for v using assms(1) that by (simp add: worker_inv_def)
  show ?thesis using pr(2) assms(3) worker_frame(1) [OF assms(4,5)] busy v
    unfolding line_inv_def sum by (auto simp: pr(1) split: sync_pc.splits)
qed

lemma worker_keeps:
  assumes "lit_inv c" and "Tworker wr t c = Some c'" and "wr = tso_write \<or> wr = sc_write"
  shows "lit_inv c'"
proof -
  have i: "worker_inv c t" "worker_inv c (other t)" "sync_inv c" "line_inv c" "lines_inv c"
    using assms(1) by (cases t; simp add: lit_inv_def)+
  have "\<forall>u. worker_inv c' u"
    by (rule all_sides [OF worker_self_inv [OF i(1,2) assms(2,3)] worker_other_inv [OF i(1-3) assms(2,3)]])
  moreover have "lines_inv c'" using i(5) worker_frame [OF assms(2,3)] by (simp add: lines_inv_def)
  ultimately show ?thesis unfolding lit_inv_def
    using worker_sync_inv [OF i(1,3) assms(2,3)] worker_line_inv [OF i(1,3,4) assms(2,3)] by blast
qed

lemma drain_keeps:
  assumes "lit_inv c" and "tso_drain i (lmem c) = Some m"
  shows "lit_inv (c\<lparr>lmem := m\<rparr>)"
proof -
  obtain l v b where b: "buf (lmem c) i = (l, v) # b"
    and m: "m = (lmem c)\<lparr>mem := (mem (lmem c))(l := v), buf := (buf (lmem c))(i := b)\<rparr>"
    using assms(2) by (auto simp: tso_drain_def split: list.splits)
  have i: "worker_inv c t" "sync_inv c" "line_inv c" "lines_inv c" for t
    using assms(1) by (cases t; simp add: lit_inv_def)+
  have "bit01 v"
  proof (cases i)
    case (W t)
    then show ?thesis using i(1) [of t] b by (auto simp: worker_inv_def)
  next
    case S
    then show ?thesis using i(2) b by (auto simp: sync_inv_def split: sync_pc.splits)
  qed
  then have "worker_inv (c\<lparr>lmem := m\<rparr>) t" for t using i(1) [of t] b by (auto simp: worker_inv_def m)
  moreover have "sync_inv (c\<lparr>lmem := m\<rparr>)" using i(2) b by (auto simp: sync_inv_def m split: sync_pc.splits)
  moreover have "printed (c\<lparr>lmem := m\<rparr>) t = printed c t" for t by (simp add: printed_def)
  ultimately show ?thesis using i(3,4) by (simp add: lit_inv_def line_inv_def lines_inv_def)
qed

interpretation lit_tso: threads_invariant lit_init lit_tso_step UNIV lit_inv
proof unfold_locales
  show "lit_inv lit_init" by (rule lit_inv_init)
  fix c a c' assume inv: "lit_inv c" and step: "lit_tso_step a c = Some c'"
  show "lit_inv c'"
  proof (cases a)
    case (Exec i)
    then show ?thesis using inv step by (cases i) (auto intro: worker_keeps sync_keeps)
  next
    case (Drain i)
    then show ?thesis using inv step by (auto intro: drain_keeps)
  qed
qed

subsection \<open>On a sequentially consistent memory\<close>

definition stored :: "litc \<Rightarrow> side \<Rightarrow> bool" where
  "stored c t \<longleftrightarrow> wpc c t \<noteq> WStore \<and> (wpc c t = WWait \<longrightarrow> flag c AND flag_bit t = 0)"

text \<open>The values of the round that have been loaded: those printed and those about to be.\<close>

fun loaded :: "worker_pc \<Rightarrow> int list" where
  "loaded (WPrint v) = [v]" | "loaded _ = []"

definition round_values :: "litc \<Rightarrow> int list" where
  "round_values c = line c @ loaded (wpc c A) @ loaded (wpc c B)"

definition sc_inv :: "litc \<Rightarrow> bool" where
  "sc_inv c \<longleftrightarrow> lit_inv c \<and> (\<forall>i. buf (lmem c) i = []) \<and>
     (spc c \<in> {SStoreX, SFence, SAssert, SXor} \<longrightarrow> mem (lmem c) B = 0) \<and>
     (spc c \<in> {SFence, SAssert, SXor} \<longrightarrow> mem (lmem c) A = 0) \<and>
     (spc c = SWait \<longrightarrow> (\<forall>t. mem (lmem c) t = of_bool (stored c t)) \<and> (length (round_values c) = 2 \<longrightarrow> 1 \<in> set (round_values c))) \<and>
     (spc c = SPrint \<longrightarrow> 1 \<in> set (line c)) \<and> (\<forall>l \<in> set (lines c). 1 \<in> set l)"

lemma sc_inv_init: "sc_inv lit_init"
  by (simp add: sc_inv_def lit_inv_init) (simp add: lit_init_def)

lemma sc_inv_sync:
  assumes "sc_inv c" and "Tsync sc_write c = Some c'"
  shows "sc_inv c'"
proof -
  have l: "lit_inv c" using assms(1) by (simp add: sc_inv_def)
  have idle: "wpc c t = WWait" if "flag c = 0" for t
    using l that by (cases t) (auto simp: lit_inv_def worker_inv_def)
  have f: "flag c = 0" if "spc c \<noteq> SWait" using l that by (auto simp: lit_inv_def sync_inv_def)
  have ln: "line c = []" if "spc c = SXor" using l that by (auto simp: lit_inv_def line_inv_def)
  have three: "3 AND flag_bit t \<noteq> 0" for t by (cases t) simp_all
  have two: "length (line c) = 2" if "spc c = SWait" "flag c = 0"
    using l that idle by (auto simp: lit_inv_def line_inv_def printed_def)
  have zero: "mem (lmem c) t = 0" if "spc c = SXor" for t
    using assms(1) that by (cases t) (auto simp: sc_inv_def)
  have "lit_inv c'" by (rule sync_keeps [OF l assms(2)]) simp
  then show ?thesis using assms idle f ln three two zero
    by (cases "spc c") (auto simp: sc_inv_def lit_step_defs stored_def round_values_def split: if_splits)
qed

lemma round_values_side: "set (round_values c) = set (line c) \<union> set (loaded (wpc c t)) \<union> set (loaded (wpc c (other t)))"
    "length (round_values c) = length (line c) + length (loaded (wpc c t)) + length (loaded (wpc c (other t)))"
  by (cases t; auto simp: round_values_def)+

text \<open>A value loaded when the other thread has loaded its own is 1, since that thread has stored before.\<close>

lemma load_second:
  assumes "sc_inv c" and "spc c = SWait" and "wpc c t = WLoad" and "length (round_values c) = 1"
  shows "mem (lmem c) (other t) = 1"
proof -
  have "length (line c) = of_bool (printed c t) + of_bool (printed c (other t))"
    using assms(1,2) by (cases t) (auto simp: sc_inv_def lit_inv_def line_inv_def)
  then have "printed c (other t) \<or> loaded (wpc c (other t)) \<noteq> []"
    using assms(3,4) by (cases "printed c (other t)") (auto simp: round_values_side(2) [of c t], simp add: printed_def)
  then have "stored c (other t)" by (cases "wpc c (other t)") (auto simp: stored_def printed_def)
  then show ?thesis using assms(1,2) by (simp add: sc_inv_def)
qed

lemma worker_stored:
  assumes "worker_inv c t" and "sync_inv c" and "Tworker sc_write t c = Some c'"
  shows "stored c' (other t) = stored c (other t)" "buf (lmem c') = buf (lmem c)"
    "mem (lmem c) t = of_bool (stored c t) \<Longrightarrow> mem (lmem c') t = of_bool (stored c' t)"
proof -
  show "stored c' (other t) = stored c (other t)"
    using worker_frame [OF assms(3)] worker_flag(1) [OF assms] by (simp add: stored_def)
  show "buf (lmem c') = buf (lmem c)"
    using assms(3) by (cases "wpc c t") (auto simp: lit_step_defs split: if_splits)
  have "flag c \<in> {0, 1, 2, 3}" using assms(2) by (simp add: sync_inv_def)
  from flag_bit_simps [OF this, of t]
  show "mem (lmem c') t = of_bool (stored c' t)" if "mem (lmem c) t = of_bool (stored c t)"
    using assms(1,3) that by (cases "wpc c t") (auto simp: lit_step_defs worker_inv_def stored_def split: if_splits)
qed

lemma worker_values:
  assumes "sc_inv c" and "spc c = SWait" and "Tworker sc_write t c = Some c'" and "length (round_values c') = 2"
  shows "1 \<in> set (round_values c')"
proof (cases "wpc c t = WLoad")
  case True
  then have c': "c' = wgoto t (WPrint (mem (lmem c) (other t))) c"
    using assms(1,3) by (simp add: Tworker_def write_read_def sc_inv_def)
  then have "length (round_values c) = 1" using assms(4) True
    by (simp add: round_values_side(2) [of _ t] wgoto_def)
  then show ?thesis using load_second [OF assms(1,2) True] by (simp add: c' round_values_side(1) [of _ t] wgoto_def)
next
  case False
  then have "length (round_values c') = length (round_values c) \<and> set (round_values c') = set (round_values c)"
    using assms(3) unfolding round_values_side [of _ t]
    by (cases "wpc c t") (auto simp: lit_step_defs split: if_splits)
  then show ?thesis using assms(1,2,4) by (simp add: sc_inv_def)
qed

lemma sc_inv_worker:
  assumes "sc_inv c" and "Tworker sc_write t c = Some c'"
  shows "sc_inv c'"
proof (cases "spc c = SWait")
  case True
  have l: "lit_inv c" using assms(1) by (simp add: sc_inv_def)
  have i: "worker_inv c t" "sync_inv c" using l by (cases t; simp add: lit_inv_def)+
  note fr = worker_frame [OF assms(2)] and st = worker_stored [OF i assms(2)]
  have "lit_inv c'" by (rule worker_keeps [OF l assms(2)]) simp
  moreover have "\<forall>u. mem (lmem c') u = of_bool (stored c' u)"
    using assms(1) True st fr by (intro all_sides [of _ t]) (auto simp: sc_inv_def)
  moreover note worker_values [OF assms(1) True assms(2)]
  ultimately show ?thesis using assms(1) True st fr by (simp add: sc_inv_def)
next
  case False
  then have "flag c = 0" "wpc c t = WWait"
    using assms(1) by (cases t; auto simp: sc_inv_def lit_inv_def worker_inv_def sync_inv_def)+
  then have "c' = c" using assms(2) by (simp add: Tworker_def)
  then show ?thesis using assms(1) by simp
qed

interpretation lit_sc: threads_invariant lit_init "lit_step sc_write" UNIV sc_inv
proof unfold_locales
  show "sc_inv lit_init" by (rule sc_inv_init)
  fix c i c' assume "sc_inv c" "lit_step sc_write i c = Some c'"
  then show "sc_inv c'" by (cases i) (auto intro: sc_inv_worker sc_inv_sync)
qed

text \<open>A round in which both loads overtake the stores.\<close>

definition litmus_round :: "cpu tso_act list" where
  "litmus_round = replicate 2 (Exec S) @ replicate 2 (Drain S) @ replicate 3 (Exec S)
     @ replicate 4 (Exec (W A)) @ replicate 4 (Exec (W B)) @ [Drain (W A), Drain (W B), Exec (W A), Exec (W B), Exec S, Exec S]"

lemma litmus_round_runs: "\<exists>c. reachable lit_init lit_tso_step UNIV c \<and> lines c = [[0, 0]]"
proof -
  have "map_option lines (schedule lit_tso_step litmus_round lit_init) = Some [[0, 0]]" by code_simp
  then obtain c where c: "schedule lit_tso_step litmus_round lit_init = Some c" "lines c = [[0, 0]]" by auto
  have "reachable lit_init lit_tso_step UNIV c" using c(1) by (rule schedule_reachable) simp
  with c(2) show ?thesis by blast
qed

text \<open>
  C31: mem-ordering.c on the store buffers of x86, for every interleaving and every moment at which the
  stores reach the memory: the assertion of \<^verbatim>\<open>Tsync\<close> never fails, and each line
  that is printed has two values, 0 or 1: the three threads keep the rounds apart.
\<close>

theorem litmus_rounds:
  assumes "reachable lit_init lit_tso_step UNIV c"
  shows "spc c \<noteq> SFail \<and> (\<forall>l \<in> set (lines c). length l = 2 \<and> set l \<subseteq> {0, 1})"
  using lit_tso.inv_reach [OF assms] by (auto simp: lit_inv_def sync_inv_def lines_inv_def bit01_def)

text \<open>
  C32: mem-ordering.c tells the two memories apart: on a sequentially consistent memory no line is
  \<open>0 0\<close>; on the store buffers of x86 such a line can be printed, since both loads may overtake
  the stores before them.
\<close>

theorem litmus_memories:
  "(reachable lit_init (lit_step sc_write) UNIV c \<longrightarrow> [0, 0] \<notin> set (lines c)) \<and>
   (\<exists>d. reachable lit_init lit_tso_step UNIV d \<and> [0, 0] \<in> set (lines d))"
proof
  show "reachable lit_init (lit_step sc_write) UNIV c \<longrightarrow> [0, 0] \<notin> set (lines c)"
  proof
    assume "reachable lit_init (lit_step sc_write) UNIV c"
    then have "sc_inv c" by (rule lit_sc.inv_reach)
    then show "[0, 0] \<notin> set (lines c)" by (auto simp: sc_inv_def)
  qed
  show "\<exists>d. reachable lit_init lit_tso_step UNIV d \<and> [0, 0] \<in> set (lines d)" using litmus_round_runs by force
qed

theorem litmus_rounds_witness: "\<exists>c. reachable lit_init lit_tso_step UNIV c \<and> spc c \<noteq> SFail \<and> lines c = [[0, 0]]"
  using litmus_round_runs litmus_rounds by blast

theorem litmus_memories_witness: "\<exists>c. lines c = [[0, 1]] \<and> reachable lit_init (lit_step sc_write) UNIV c \<and> [0, 0] \<notin> set (lines c)"
proof -
  let ?S = "schedule (lit_step sc_write) (replicate 5 S @ replicate 5 (W A) @ replicate 5 (W B) @ [S, S]) lit_init"
  have "map_option lines ?S = Some [[0, 1]]" by code_simp
  then obtain c where c: "?S = Some c" "lines c = [[0, 1]]" by auto
  have r: "reachable lit_init (lit_step sc_write) UNIV c" using c(1) by (rule schedule_reachable) simp
  show ?thesis using c(2) r litmus_memories [of c] by blast
qed

end
