(* ===== verification/Dosbox.thy ===== *)
theory Dosbox
  imports Prelude
begin

text \<open>
  The memory editor \<^verbatim>\<open>virtualization/dosbox-hack.c\<close>: it searches the writable memory of another
  process for a 16-bit value, narrows the matches by further searches, and overwrites what is left.
  The memory of the process is a function from addresses to bytes, given for each command, since the
  process runs in between; the lines of \<^verbatim>\<open>pmap\<close> are a list of regions; whether the memory file can
  be read at a place is a parameter. Failed assertions are \<open>None\<close>. Seeking in the
  memory file succeeds, and regions are shorter than 2 GB, so that the \<^verbatim>\<open>int\<close> that runs through them
  does not overflow. Shown: after any number of searches the matches are exactly those of the first 4096
  places with the first value that had the value of every later search; the match list never overflows; the editor writes exactly to the matches, and a search for the written value
  afterwards keeps them all.
\<close>

unbundle bit_operations_syntax

type_synonym pmem = "u64 \<Rightarrow> u8"

definition FOUND_MAX :: nat where "FOUND_MAX = 4096"

record dbx =
  nfound :: nat
  found :: "u64 list"
  reset :: bool

definition dbx0 :: dbx where
  "dbx0 = \<lparr>nfound = 0, found = replicate FOUND_MAX 0, reset = False\<rparr>"

text \<open>A line of \<^verbatim>\<open>pmap -x\<close>: start, size in KB, permissions.\<close>

record region =
  rstart :: u64
  rkb :: nat
  rperm :: string

definition peek16 :: "pmem \<Rightarrow> u64 \<Rightarrow> u16" where
  "peek16 m a = ucast (m a) OR push_bit 8 (ucast (m (a + 1)))"

definition poke16 :: "u64 \<Rightarrow> u16 \<Rightarrow> pmem \<Rightarrow> pmem" where
  "poke16 a v m = m(a := ucast v, a + 1 := ucast (drop_bit 8 v))"

subsection \<open>Search\<close>

function narrow :: "nat \<Rightarrow> nat \<Rightarrow> u64 \<Rightarrow> bool \<Rightarrow> u64 list \<Rightarrow> u64 list" where
  "narrow j n a differs fs =
     (if j < n then narrow (Suc j) n a differs (if fs ! j = a \<and> differs then fs[j := 0] else fs) else fs)"
  by auto
termination by (relation "measure (\<lambda>(j, n, _). n - j)") auto

declare narrow.simps [simp del]

definition scan_word :: "u16 \<Rightarrow> pmem \<Rightarrow> u64 \<Rightarrow> dbx \<Rightarrow> dbx" where
  "scan_word val m a st =
     (let v = peek16 m a
      in if reset st
         then if val = v \<and> nfound st < FOUND_MAX
              then st\<lparr>found := (found st)[nfound st := a], nfound := Suc (nfound st)\<rparr> else st
         else st\<lparr>found := narrow 0 (nfound st) a (v \<noteq> val) (found st)\<rparr>)"

text \<open>The loop over the words of one region.\<close>

function scan_from :: "u16 \<Rightarrow> pmem \<Rightarrow> u64 \<Rightarrow> nat \<Rightarrow> nat \<Rightarrow> dbx \<Rightarrow> dbx" where
  "scan_from val m start sz i st =
     (if i < sz then scan_from val m start sz (i + 2) (scan_word val m (start + of_nat i) st) else st)"
  by auto
termination by (relation "measure (\<lambda>(_, _, _, sz, i, _). sz - i)") auto

declare scan_from.simps [simp del]

text \<open>The loop over the lines; \<open>readable start size\<close> says that the memory file delivers the region.\<close>

fun scan_maps :: "(u64 \<Rightarrow> nat \<Rightarrow> bool) \<Rightarrow> u16 \<Rightarrow> pmem \<Rightarrow> region list \<Rightarrow> dbx \<Rightarrow> dbx option" where
  "scan_maps readable val m [] st = Some st"
| "scan_maps readable val m (r # rs) st =
     (if \<not> sint (rstart r) > 0 then Some st
      else if rperm r ! 1 \<noteq> CHR ''w'' then scan_maps readable val m rs st
      else if readable (rstart r) (rkb r * 1024)
           then scan_maps readable val m rs (scan_from val m (rstart r) (rkb r * 1024) 0 st)
           else None)"

text \<open>The state afterwards and the number of matches printed.\<close>

definition scan :: "(u64 \<Rightarrow> nat \<Rightarrow> bool) \<Rightarrow> region list \<Rightarrow> u16 \<Rightarrow> pmem \<Rightarrow> dbx \<Rightarrow> (dbx \<times> nat) option" where
  "scan readable rs val m st =
     (let st = (if reset st then st\<lparr>nfound := 0\<rparr> else st)
      in case scan_maps readable val m rs st of
           None \<Rightarrow> None
         | Some st \<Rightarrow> Some (st\<lparr>reset := False\<rparr>, length (filter (\<lambda>i. found st ! i \<noteq> 0) [0 ..< nfound st])))"

subsection \<open>Overwriting\<close>

text \<open>\<open>writable a\<close> says that the memory file takes a store at \<open>a\<close>; the code does not look at the result.\<close>

function overwrite_loop :: "(u64 \<Rightarrow> bool) \<Rightarrow> nat \<Rightarrow> u16 \<Rightarrow> dbx \<Rightarrow> nat \<Rightarrow> pmem \<Rightarrow> pmem \<times> nat" where
  "overwrite_loop writable i val st s m =
     (if i < nfound st
      then let a = found st ! i
           in if a \<noteq> 0 then overwrite_loop writable (Suc i) val st (Suc s) (if writable a then poke16 a val m else m)
              else overwrite_loop writable (Suc i) val st s m
      else (m, s))"
  by auto
termination by (relation "measure (\<lambda>(_, i, val, st, s, m). nfound st - i)") auto

declare overwrite_loop.simps [simp del]

definition overwrite :: "(u64 \<Rightarrow> bool) \<Rightarrow> u16 \<Rightarrow> dbx \<Rightarrow> pmem \<Rightarrow> pmem \<times> nat" where
  "overwrite writable val st m = overwrite_loop writable 0 val st 0 m"

subsection \<open>The command loop\<close>

text \<open>One command: its first letter and its number (an \<open>int\<close>, cut to 16 bits by the calls). What is
  printed is the number in the answer.\<close>

datatype reply = Quit | Reply dbx pmem "nat option" | Abort

definition command ::
    "(u64 \<Rightarrow> nat \<Rightarrow> bool) \<Rightarrow> (u64 \<Rightarrow> bool) \<Rightarrow> region list \<Rightarrow> char \<Rightarrow> int \<Rightarrow> dbx \<Rightarrow> pmem \<Rightarrow> reply" where
  "command readable writable rs c val st m =
     (if c = CHR ''q'' then Quit
      else if c = CHR ''s'' then
        (case scan readable rs (word_of_int val) m st of None \<Rightarrow> Abort | Some (st, s) \<Rightarrow> Reply st m (Some s))
      else if c = CHR ''w'' then (let (m, s) = overwrite writable (word_of_int val) st m in Reply st m (Some s))
      else if c = CHR ''r'' then Reply (st\<lparr>reset := True\<rparr>) m None
      else Reply st m None)"

text \<open>The loop of \<^verbatim>\<open>main\<close>: each command comes with the regions at that time and with what the
  process did to its memory before it. The end of the input ends the program.\<close>

type_synonym input = "char \<times> int \<times> region list \<times> (pmem \<Rightarrow> pmem)"

fun main_loop ::
    "(u64 \<Rightarrow> nat \<Rightarrow> bool) \<Rightarrow> (u64 \<Rightarrow> bool) \<Rightarrow> input list \<Rightarrow> dbx \<Rightarrow> pmem \<Rightarrow> (dbx \<times> pmem \<times> nat list) option" where
  "main_loop readable writable [] st m = Some (st, m, [])"
| "main_loop readable writable ((c, val, rs, run) # ins) st m =
     (case command readable writable rs c val st (run m) of
        Quit \<Rightarrow> Some (st, run m, [])
      | Abort \<Rightarrow> None
      | Reply st m out \<Rightarrow>
          map_option (\<lambda>(st, m, outs). (st, m, (case out of None \<Rightarrow> outs | Some k \<Rightarrow> k # outs)))
            (main_loop readable writable ins st m))"

definition dosbox_main :: "(u64 \<Rightarrow> nat \<Rightarrow> bool) \<Rightarrow> (u64 \<Rightarrow> bool) \<Rightarrow> input list \<Rightarrow> pmem \<Rightarrow> (dbx \<times> pmem \<times> nat list) option" where
  "dosbox_main readable writable ins m = main_loop readable writable ins (dbx0\<lparr>reset := True\<rparr>) m"

subsection \<open>What the searches find\<close>

text \<open>The addresses of the words that are looked at, in order.\<close>

definition region_addrs :: "region \<Rightarrow> u64 list" where
  "region_addrs r = map (\<lambda>k. rstart r + of_nat (2 * k)) [0 ..< rkb r * 512]"

fun scanned :: "region list \<Rightarrow> u64 list" where
  "scanned [] = []"
| "scanned (r # rs) =
     (if \<not> sint (rstart r) > 0 then [] else (if rperm r ! 1 \<noteq> CHR ''w'' then [] else region_addrs r) @ scanned rs)"

fun all_readable :: "(u64 \<Rightarrow> nat \<Rightarrow> bool) \<Rightarrow> region list \<Rightarrow> bool" where
  "all_readable readable [] = True"
| "all_readable readable (r # rs) =
     (\<not> sint (rstart r) > 0 \<or> (rperm r ! 1 \<noteq> CHR ''w'' \<or> readable (rstart r) (rkb r * 1024)) \<and> all_readable readable rs)"

definition entries :: "dbx \<Rightarrow> u64 list" where
  "entries st = take (nfound st) (found st)"

definition matches :: "dbx \<Rightarrow> u64 list" where
  "matches st = filter (\<lambda>a. a \<noteq> 0) (entries st)"

definition dbx_inv :: "dbx \<Rightarrow> bool" where
  "dbx_inv st \<longleftrightarrow> length (found st) = FOUND_MAX \<and> nfound st \<le> FOUND_MAX"

abbreviation scan_words :: "u16 \<Rightarrow> pmem \<Rightarrow> u64 list \<Rightarrow> dbx \<Rightarrow> dbx" where
  "scan_words val m as st \<equiv> fold (scan_word val m) as st"

lemma scan_from_words:
  "scan_from val m start (2 * q) (2 * i) st = scan_words val m (map (\<lambda>k. start + of_nat (2 * k)) [i ..< q]) st"
proof (induction "q - i" arbitrary: i st)
  case 0
  then show ?case by (subst scan_from.simps) simp
next
  case (Suc d)
  then have "i < q" by simp
  then have "[i ..< q] = i # [Suc i ..< q]" by (rule upt_conv_Cons)
  moreover have "scan_from val m start (2 * q) (2 * i) st = scan_from val m start (2 * q) (2 * Suc i) (scan_word val m (start + of_nat (2 * i)) st)"
    using \<open>i < q\<close> by (subst scan_from.simps) simp
  ultimately show ?case using Suc(1) [of "Suc i"] Suc(2) by simp
qed

lemma scan_maps_words:
  "all_readable readable rs \<Longrightarrow> scan_maps readable val m rs st = Some (scan_words val m (scanned rs) st)"
proof (induction rs arbitrary: st)
  case (Cons r rs)
  have "scan_from val m (rstart r) (rkb r * 1024) 0 st = scan_words val m (region_addrs r) st" for st
    using scan_from_words [of val m "rstart r" "rkb r * 512" 0 st] by (simp add: region_addrs_def mult.commute)
  then show ?case using Cons by auto
qed simp

lemma narrow_eq:
  "n \<le> length fs \<Longrightarrow> narrow j n a differs fs =
    take j fs @ map (\<lambda>b. if b = a \<and> differs then 0 else b) (drop j (take n fs)) @ drop (max j n) fs"
proof (induction "n - j" arbitrary: j fs)
  case 0
  then show ?case by (subst narrow.simps) (simp add: max_def)
next
  case (Suc d)
  then have j: "j < n" by simp
  let ?fs = "if fs ! j = a \<and> differs then fs[j := 0] else fs"
  have "narrow j n a differs fs = narrow (Suc j) n a differs ?fs" using j by (subst narrow.simps) simp
  also have "\<dots> = take (Suc j) ?fs @ map (\<lambda>b. if b = a \<and> differs then 0 else b) (drop (Suc j) (take n ?fs)) @ drop (max (Suc j) n) ?fs"
    using Suc j by (intro Suc(1)) auto
  also have "take (Suc j) ?fs = take j fs @ [if fs ! j = a \<and> differs then 0 else fs ! j]"
    using j Suc.prems(1) by (simp add: take_Suc_conv_app_nth)
  also have "drop (Suc j) (take n ?fs) = drop (Suc j) (take n fs)" by (simp add: drop_take)
  also have "drop (max (Suc j) n) ?fs = drop (max j n) fs" using j by (simp add: max_def)
  also have "drop j (take n fs) = fs ! j # drop (Suc j) (take n fs)"
    using j Suc.prems(1) by (subst Cons_nth_drop_Suc [symmetric]) auto
  ultimately show ?case by simp
qed

lemma narrow_entries:
  "n \<le> length fs \<Longrightarrow> take n (narrow 0 n a d fs) = map (\<lambda>b. if b = a \<and> d then 0 else b) (take n fs)"
  by (simp add: narrow_eq)

lemma length_narrow: "n \<le> length fs \<Longrightarrow> length (narrow 0 n a d fs) = length fs"
  by (simp add: narrow_eq)

lemma scan_word_inv: "dbx_inv st \<Longrightarrow> dbx_inv (scan_word val m a st)"
  by (auto simp: dbx_inv_def scan_word_def Let_def length_narrow)

lemma scan_words_inv: "dbx_inv st \<Longrightarrow> dbx_inv (scan_words val m as st)"
  by (induction as arbitrary: st) (simp_all add: scan_word_inv)

lemma scan_words_reset [simp]: "reset (scan_words val m as st) = reset st"
  by (induction as arbitrary: st) (simp_all add: scan_word_def Let_def)

lemma scan_word_collects:
  assumes "dbx_inv st" and "reset st"
  shows "entries (scan_word val m a st) = take FOUND_MAX (entries st @ (if peek16 m a = val then [a] else []))"
  using assms by (auto simp: entries_def scan_word_def dbx_inv_def Let_def take_Suc_conv_app_nth)

lemma take_take_append: "take n (take n xs @ ys) = take n (xs @ ys)"
  by (cases "length xs \<le> n") simp_all

lemma scan_words_collect:
  "dbx_inv st \<Longrightarrow> reset st \<Longrightarrow> entries (scan_words val m as st) = take FOUND_MAX (entries st @ filter (\<lambda>a. peek16 m a = val) as)"
proof (induction as arbitrary: st)
  case Nil
  then show ?case by (simp add: entries_def dbx_inv_def)
next
  case (Cons a as)
  have "reset (scan_word val m a st)" using Cons.prems scan_words_reset [of val m "[a]" st] by simp
  then have "entries (scan_words val m (a # as) st)
      = take FOUND_MAX (take FOUND_MAX (entries st @ (if peek16 m a = val then [a] else [])) @ filter (\<lambda>a. peek16 m a = val) as)"
    using Cons by (simp add: scan_word_inv scan_word_collects del: take_append)
  also have "\<dots> = take FOUND_MAX (entries st @ filter (\<lambda>a. peek16 m a = val) (a # as))"
    by (simp add: take_take_append del: take_append)
  finally show ?case .
qed

lemma scan_words_narrow:
  "dbx_inv st \<Longrightarrow> \<not> reset st \<Longrightarrow> entries (scan_words val m as st) = map (\<lambda>b. if b \<in> set as \<and> peek16 m b \<noteq> val then 0 else b) (entries st)"
proof (induction as arbitrary: st)
  case (Cons a as)
  let ?st = "scan_word val m a st"
  have st: "?st = st\<lparr>found := narrow 0 (nfound st) a (peek16 m a \<noteq> val) (found st)\<rparr>"
    using Cons.prems by (simp add: scan_word_def)
  have "entries ?st = map (\<lambda>b. if b = a \<and> peek16 m a \<noteq> val then 0 else b) (entries st)"
    using Cons.prems by (simp add: st entries_def narrow_entries dbx_inv_def)
  then show ?case using Cons.IH [of ?st] Cons.prems scan_word_inv [of st val m a] by (auto simp: st)
qed simp

lemma count_indices:
  assumes "n \<le> length xs"
  shows "length (filter (\<lambda>i. P (xs ! i)) [0 ..< n]) = length (filter P (take n xs))"
proof -
  have "take n xs = map ((!) xs) [0 ..< n]" using assms by (intro nth_equalityI) auto
  then show ?thesis by (simp add: filter_map o_def)
qed

lemma scan_runs:
  assumes "dbx_inv st" and "all_readable readable rs"
  obtains st' where "scan readable rs val m st = Some (st', length (matches st'))" and "dbx_inv st'" and "\<not> reset st'"
    and "entries st' = entries (scan_words val m (scanned rs) (if reset st then st\<lparr>nfound := 0\<rparr> else st))"
proof -
  let ?st = "scan_words val m (scanned rs) (if reset st then st\<lparr>nfound := 0\<rparr> else st)"
  let ?st' = "?st\<lparr>reset := False\<rparr>"
  have inv: "dbx_inv ?st" using assms by (intro scan_words_inv) (simp add: dbx_inv_def)
  have "length (filter (\<lambda>i. found ?st ! i \<noteq> 0) [0 ..< nfound ?st]) = length (matches ?st')"
    using count_indices [of "nfound ?st" "found ?st" "\<lambda>a. a \<noteq> 0"] inv by (simp add: matches_def entries_def dbx_inv_def)
  then have "scan readable rs val m st = Some (?st', length (matches ?st'))"
    using assms by (simp add: scan_def scan_maps_words Let_def)
  moreover have "dbx_inv ?st'" using inv by (simp add: dbx_inv_def)
  moreover have "entries ?st' = entries ?st" by (simp add: entries_def)
  ultimately show thesis using that [of ?st'] by simp
qed

lemma scan_first:
  assumes "dbx_inv st" and "reset st" and "all_readable readable rs" and "0 \<notin> set (scanned rs)"
  obtains st' where "scan readable rs val m st = Some (st', length (matches st'))" and "dbx_inv st'" and "\<not> reset st'"
    and "matches st' = take FOUND_MAX (filter (\<lambda>a. peek16 m a = val) (scanned rs))"
proof -
  have inv: "dbx_inv (st\<lparr>nfound := 0\<rparr>)" using assms(1) by (simp add: dbx_inv_def)
  obtain st' where st': "scan readable rs val m st = Some (st', length (matches st'))" "dbx_inv st'" "\<not> reset st'"
      "entries st' = entries (scan_words val m (scanned rs) (st\<lparr>nfound := 0\<rparr>))"
    using scan_runs [OF assms(1,3), of val m] assms(2) by auto
  have "entries st' = take FOUND_MAX (filter (\<lambda>a. peek16 m a = val) (scanned rs))"
    using scan_words_collect [OF inv, of val m "scanned rs"] assms(2) by (simp add: st'(4)) (simp add: entries_def)
  moreover from this have "0 \<notin> set (entries st')" using assms(4) by (auto dest: in_set_takeD)
  ultimately have "matches st' = take FOUND_MAX (filter (\<lambda>a. peek16 m a = val) (scanned rs))"
    unfolding matches_def by (metis (mono_tags, lifting) filter_True)
  with st' show thesis by (intro that)
qed

lemma scan_next:
  assumes "dbx_inv st" and "\<not> reset st" and "all_readable readable rs"
  obtains st' where "scan readable rs val m st = Some (st', length (matches st'))" and "dbx_inv st'" and "\<not> reset st'"
    and "matches st' = filter (\<lambda>a. a \<in> set (scanned rs) \<longrightarrow> peek16 m a = val) (matches st)"
proof -
  obtain st' where st': "scan readable rs val m st = Some (st', length (matches st'))" "dbx_inv st'" "\<not> reset st'"
      "entries st' = entries (scan_words val m (scanned rs) st)"
    using scan_runs [OF assms(1,3), of val m] assms(2) by auto
  have "filter (\<lambda>a. a \<noteq> 0) (map (\<lambda>b. if b \<in> S \<and> P b then 0 else b) es)
      = filter (\<lambda>a. a \<in> S \<longrightarrow> \<not> P a) (filter (\<lambda>a. a \<noteq> 0) es)" for S P and es :: "u64 list"
    by (induction es) auto
  then have "matches st' = filter (\<lambda>a. a \<in> set (scanned rs) \<longrightarrow> peek16 m a = val) (matches st)"
    by (simp add: matches_def st'(4) scan_words_narrow assms)
  with st' show thesis by (intro that)
qed

subsection \<open>A session of searches\<close>

text \<open>A search: the regions at that time, the number typed, the memory at that time.\<close>

type_synonym query = "region list \<times> int \<times> pmem"

definition search_input :: "query \<Rightarrow> input" where
  "search_input q = (case q of (rs, v, m) \<Rightarrow> (CHR ''s'', v, rs, \<lambda>_. m))"

definition hit :: "query \<Rightarrow> u64 \<Rightarrow> bool" where
  "hit q a = (case q of (rs, v, m) \<Rightarrow> peek16 m a = word_of_int v)"

definition keeps :: "query \<Rightarrow> u64 \<Rightarrow> bool" where
  "keeps q a = (case q of (rs, v, m) \<Rightarrow> a \<in> set (scanned rs) \<longrightarrow> hit q a)"

lemma main_loop_search:
  assumes "scan readable rs (word_of_int v) m st = Some (st', k)"
  shows "main_loop readable writable (search_input (rs, v, m) # ins) st m0
    = map_option (\<lambda>(st, m, outs). (st, m, k # outs)) (main_loop readable writable ins st' m)"
  using assms by (simp add: search_input_def command_def)

lemma narrowing_session:
  assumes "dbx_inv st" and "\<not> reset st" and "\<forall>q \<in> set qs. all_readable readable (fst q)"
  shows "\<exists>st' m' outs. main_loop readable writable (map search_input qs) st m0 = Some (st', m', outs)
    \<and> dbx_inv st' \<and> \<not> reset st' \<and> matches st' = filter (\<lambda>a. \<forall>q \<in> set qs. keeps q a) (matches st)"
  using assms
proof (induction qs arbitrary: st m0)
  case (Cons q qs)
  obtain rs v m where q: "q = (rs, v, m)" by (cases q)
  have r: "all_readable readable rs" using Cons.prems(3) by (simp add: q)
  have keep: "keeps q = (\<lambda>a. a \<in> set (scanned rs) \<longrightarrow> peek16 m a = word_of_int v)"
    by (simp add: fun_eq_iff q keeps_def hit_def)
  obtain st1 where st1: "scan readable rs (word_of_int v) m st = Some (st1, length (matches st1))" "dbx_inv st1" "\<not> reset st1"
      "matches st1 = filter (keeps q) (matches st)"
    unfolding keep by (rule scan_next [OF Cons.prems(1,2) r])
  obtain st' m' outs where "main_loop readable writable (map search_input qs) st1 m = Some (st', m', outs)"
      "dbx_inv st'" "\<not> reset st'" "matches st' = filter (\<lambda>a. \<forall>q \<in> set qs. keeps q a) (matches st1)"
    using Cons.IH [OF st1(2,3), of m] Cons.prems(3) by auto
  then show ?case using st1 by (auto simp: main_loop_search q conj_commute)
qed simp

subsection \<open>What is overwritten\<close>

lemma peek_poke: "peek16 (poke16 a v m) a = v"
proof -
  have "a \<noteq> a + 1" by simp
  then show ?thesis
    by (auto simp: peek16_def poke16_def bit_eq_iff bit_simps less_diff_conv2 intro: le_Suc_ex) 
qed

lemma poke_other: "b \<noteq> a \<Longrightarrow> b \<noteq> a + 1 \<Longrightarrow> poke16 a v m b = m b"
  by (simp add: poke16_def)

definition poke_all :: "u16 \<Rightarrow> u64 list \<Rightarrow> pmem \<Rightarrow> pmem" where
  "poke_all v as m = fold (\<lambda>a. poke16 a v) as m"

lemma poke_all_other: "(\<And>a. a \<in> set as \<Longrightarrow> b \<noteq> a \<and> b \<noteq> a + 1) \<Longrightarrow> poke_all v as m b = m b"
  by (induction as arbitrary: m) (simp_all add: poke_all_def poke_other)

lemma even_not_next: "even (a :: u64) \<Longrightarrow> even b \<Longrightarrow> a \<noteq> b + 1"
  by auto

lemma peek_poke_even:
  assumes "even a" and "even b"
  shows "peek16 (poke16 b v m) a = (if a = b then v else peek16 m a)"
proof (cases "a = b")
  case False
  then have "a + 1 \<noteq> b + 1" "a + 1 \<noteq> b" "a \<noteq> b + 1" using assms even_not_next by auto
  then show ?thesis using False by (simp add: peek16_def poke_other)
qed (simp add: peek_poke)

lemma peek_poke_all:
  "even a \<Longrightarrow> (\<And>b. b \<in> set as \<Longrightarrow> even b) \<Longrightarrow> peek16 (poke_all v as m) a = (if a \<in> set as then v else peek16 m a)"
  by (induction as arbitrary: m) (auto simp: poke_all_def peek_poke_even)

lemma overwrite_loop_eq:
  assumes "dbx_inv st" and "\<And>a. a \<in> set (matches st) \<Longrightarrow> writable a"
  shows "overwrite_loop writable i v st s m
    = (poke_all v (filter (\<lambda>a. a \<noteq> 0) (drop i (entries st))) m, s + length (filter (\<lambda>a. a \<noteq> 0) (drop i (entries st))))"
proof (induction "nfound st - i" arbitrary: i s m)
  case 0
  then show ?case by (subst overwrite_loop.simps) (simp add: entries_def poke_all_def)
next
  case (Suc d)
  then have i: "i < nfound st" by simp
  then have e: "drop i (entries st) = found st ! i # drop (Suc i) (entries st)"
    using assms(1) by (subst Cons_nth_drop_Suc [symmetric]) (auto simp: entries_def dbx_inv_def)
  then have "found st ! i \<in> set (entries st)" by (metis in_set_dropD list.set_intros(1))
  then have "found st ! i \<noteq> 0 \<Longrightarrow> writable (found st ! i)" using assms(2) by (simp add: matches_def)
  then show ?case using Suc(1) [of "Suc i"] Suc(2) i
    by (subst overwrite_loop.simps) (simp add: e poke_all_def Let_def)
qed

lemma overwrite_eq:
  "dbx_inv st \<Longrightarrow> (\<And>a. a \<in> set (matches st) \<Longrightarrow> writable a) \<Longrightarrow>
    overwrite writable v st m = (poke_all v (matches st) m, length (matches st))"
  using overwrite_loop_eq [of st writable 0 v 0 m] by (simp add: overwrite_def matches_def)

subsection \<open>The properties\<close>

lemma command_inv:
  assumes "dbx_inv st" and "command readable writable rs c val st m = Reply st' m' out"
  shows "dbx_inv st'"
proof -
  have "dbx_inv st1" if "scan_maps readable v m rs st0 = Some st1" "dbx_inv st0" for v st0 st1
    using that
  proof (induction readable v m rs st0 rule: scan_maps.induct)
    case (2 readable val m r rs st)
    have "scan_from val m (rstart r) (rkb r * 1024) 0 st = scan_words val m (region_addrs r) st" 
      using scan_from_words [of val m "rstart r" "rkb r * 512" 0 st] by (simp add: region_addrs_def mult.commute)
    then show ?case using 2 by (auto split: if_splits intro: scan_words_inv)
  qed simp
  then have "scan readable rs v m st = Some (st1, k) \<Longrightarrow> dbx_inv st1" for v st1 k
    using assms(1) by (auto simp: scan_def Let_def dbx_inv_def split: option.splits if_splits)
  then show ?thesis using assms
    by (auto simp: command_def dbx_inv_def split: if_splits option.splits prod.splits)
qed

text \<open>
  However the editor is used, the list of matches never grows beyond its 4096 places.
\<close>

theorem found_never_overflows:
  "\<forall>st m' outs. dosbox_main readable writable ins m = Some (st, m', outs) \<longrightarrow> length (found st) = 4096 \<and> nfound st \<le> 4096"
proof -
  have "dbx_inv st \<Longrightarrow> main_loop readable writable ins st m = Some (st', m', outs) \<Longrightarrow> dbx_inv st'" for st st' m m' outs
  proof (induction ins arbitrary: st m outs)
    case (Cons i ins)
    obtain c val rs run where i: "i = (c, val, rs, run)" by (cases i)
    show ?case using Cons by (auto simp: i split: reply.splits dest: command_inv)
  qed simp
  moreover have "dbx_inv (dbx0\<lparr>reset := True\<rparr>)" by (simp add: dbx_inv_def dbx0_def)
  ultimately have "dosbox_main readable writable ins m = Some (st, m', outs) \<Longrightarrow> dbx_inv st" for st m' outs
    unfolding dosbox_main_def by blast
  then show ?thesis by (simp add: dbx_inv_def FOUND_MAX_def)
qed

text \<open>
  C35: A session of searches: if the memory can be read, the first search takes the first 4096 words of the writable regions
  that have the value, and each further one keeps of them exactly those that have the value now,
  or that have left the regions.
\<close>

theorem search_session:
  assumes "\<forall>q \<in> set (q # qs). all_readable readable (fst q)" and "0 \<notin> set (scanned (fst q))"
  shows "\<exists>st m' outs. dosbox_main readable writable (map search_input (q # qs)) m0 = Some (st, m', outs)
    \<and> matches st = filter (\<lambda>a. \<forall>q' \<in> set qs. keeps q' a) (take 4096 (filter (hit q) (scanned (fst q))))"
proof -
  obtain rs v m where q: "q = (rs, v, m)" by (cases q)
  have r: "all_readable readable rs" using assms(1) by (simp add: q)
  let ?st = "dbx0\<lparr>reset := True\<rparr>"
  have st: "dbx_inv ?st" "reset ?st" "0 \<notin> set (scanned rs)" using assms(2) by (simp_all add: dbx_inv_def dbx0_def q)
  have hit: "hit q = (\<lambda>a. peek16 m a = word_of_int v)" by (simp add: fun_eq_iff q hit_def)
  obtain st1 where st1: "scan readable rs (word_of_int v) m ?st = Some (st1, length (matches st1))" "dbx_inv st1" "\<not> reset st1"
      "matches st1 = take FOUND_MAX (filter (hit q) (scanned rs))"
    unfolding hit by (rule scan_first [OF st(1,2) r st(3)])
  obtain st m' outs where "main_loop readable writable (map search_input qs) st1 m = Some (st, m', outs)"
      "matches st = filter (\<lambda>a. \<forall>q \<in> set qs. keeps q a) (matches st1)"
    using narrowing_session [OF st1(2,3), of qs readable writable m] assms(1) by auto
  then have "main_loop readable writable (map search_input (q # qs)) ?st m0 = Some (st, m', length (matches st1) # outs)
    \<and> matches st = filter (\<lambda>a. \<forall>q \<in> set qs. keeps q a) (take 4096 (filter (hit q) (scanned (fst q))))"
    using st1 by (simp add: main_loop_search q FOUND_MAX_def)
  then show ?thesis unfolding dosbox_main_def by blast
qed

text \<open>
  Writing: when the matches lie at even addresses and the memory takes the stores, every match
  has the new value afterwards, no other byte changes, the number of matches is printed, and a
  search for the new value keeps every match.
\<close>

theorem overwrite_matches:
  assumes "dbx_inv st" and "\<not> reset st" and "all_readable readable rs"
    and "\<And>a. a \<in> set (matches st) \<Longrightarrow> even a \<and> writable a"
  shows "\<exists>m' st'. command readable writable rs0 (CHR ''w'') val st m = Reply st m' (Some (length (matches st)))
    \<and> (\<forall>a \<in> set (matches st). peek16 m' a = word_of_int val)
    \<and> (\<forall>b. (\<forall>a \<in> set (matches st). b \<noteq> a \<and> b \<noteq> a + 1) \<longrightarrow> m' b = m b)
    \<and> command readable writable rs (CHR ''s'') val st m' = Reply st' m' (Some (length (matches st)))
    \<and> matches st' = matches st"
proof -
  let ?m = "poke_all (word_of_int val) (matches st) m"
  have w: "overwrite writable (word_of_int val) st m = (?m, length (matches st))"
    using assms by (intro overwrite_eq) auto
  have p: "\<forall>a \<in> set (matches st). peek16 ?m a = word_of_int val"
    using assms(4) by (simp add: peek_poke_all)
  have o: "\<forall>b. (\<forall>a \<in> set (matches st). b \<noteq> a \<and> b \<noteq> a + 1) \<longrightarrow> ?m b = m b"
    by (auto intro: poke_all_other)
  obtain st' where st': "scan readable rs (word_of_int val) ?m st = Some (st', length (matches st'))"
      "matches st' = filter (\<lambda>a. a \<in> set (scanned rs) \<longrightarrow> peek16 ?m a = word_of_int val) (matches st)"
    by (rule scan_next [OF assms(1-3)])
  have "matches st' = matches st" using p by (simp add: st'(2))
  then show ?thesis using w p o st'(1) by (intro exI [of _ ?m] exI [of _ st']) (simp add: command_def)
qed

text \<open>A region of 1 KB: the first search finds three words with the value 7, the process changes
  one of them, and the second search keeps the other two.\<close>

definition dbx_example_region :: region where
  "dbx_example_region = \<lparr>rstart = 0x1000, rkb = 1, rperm = ''rw---''\<rparr>"

definition dbx_example_mem :: "u8 \<Rightarrow> pmem" where
  "dbx_example_mem v a = (if a = 0x1000 \<or> a = 0x1010 then 7 else if a = 0x1020 then v else 0)"

lemma search_session_witness:
  "\<exists>st m' outs. dosbox_main (\<lambda>_ _. True) (\<lambda>_. True)
      (map search_input [([dbx_example_region], 7, dbx_example_mem 7), ([dbx_example_region], 7, dbx_example_mem 9)]) (\<lambda>_. 0)
      = Some (st, m', outs)
    \<and> 0x1010 \<in> set (matches st) \<and> 0x1020 \<notin> set (matches st)"
proof -
  have addrs: "scanned [dbx_example_region] = map (\<lambda>k. 0x1000 + of_nat (2 * k)) [0 ..< 512]"
    by (simp add: dbx_example_region_def region_addrs_def)
  let ?q1 = "([dbx_example_region], 7, dbx_example_mem 7)" and ?q2 = "([dbx_example_region], 7, dbx_example_mem 9)"
  have mem: "0x1000 + of_nat (2 * k) \<in> set (scanned [dbx_example_region])" if "k < 512" for k
    unfolding addrs using that by (simp del: of_nat_mult)
  have zero: "0 \<notin> set (scanned [dbx_example_region])" unfolding addrs by code_simp
  have len: "length (filter (hit ?q1) (scanned [dbx_example_region])) \<le> 4096"
    unfolding addrs by (rule le_trans [OF length_filter_le]) simp
  have hits: "hit ?q1 0x1010" "hit ?q2 0x1010" "\<not> hit ?q2 0x1020"
    by (simp_all add: hit_def peek16_def dbx_example_mem_def)
  obtain st m' outs where st: "dosbox_main (\<lambda>_ _. True) (\<lambda>_. True) (map search_input [?q1, ?q2]) (\<lambda>_. 0) = Some (st, m', outs)"
      "matches st = filter (\<lambda>a. \<forall>q' \<in> set [?q2]. keeps q' a) (take 4096 (filter (hit ?q1) (scanned [dbx_example_region])))"
    using search_session [of ?q1 "[?q2]" "\<lambda>_ _. True" "\<lambda>_. True" "\<lambda>_. 0"] zero by (auto simp: dbx_example_region_def)
  have "0x1010 \<in> set (matches st)" "0x1020 \<notin> set (matches st)"
    using hits mem [of 8] mem [of 16] by (simp_all add: st(2) len keeps_def del: scanned.simps)
  with st(1) show ?thesis by blast
qed

lemma found_never_overflows_witness:
  "\<exists>st m' outs. dosbox_main (\<lambda>_ _. True) (\<lambda>_. True) [(CHR ''r'', 0, [], id)] (\<lambda>_. 0) = Some (st, m', outs) \<and> nfound st \<le> 4096"
  using found_never_overflows [of "\<lambda>_ _. True" "\<lambda>_. True" "[(CHR ''r'', 0, [], id)]" "\<lambda>_. 0"]
  by (simp add: dosbox_main_def command_def)

lemma overwrite_matches_witness:
  "\<exists>m' st'. command (\<lambda>_ _. True) (\<lambda>_. True) [] (CHR ''w'') 99 (dbx0\<lparr>found := (found dbx0)[0 := 0x1000], nfound := 1\<rparr>) (\<lambda>_. 0)
      = Reply (dbx0\<lparr>found := (found dbx0)[0 := 0x1000], nfound := 1\<rparr>) m' (Some 1)
    \<and> peek16 m' 0x1000 = 99
    \<and> command (\<lambda>_ _. True) (\<lambda>_. True) [dbx_example_region] (CHR ''s'') 99 (dbx0\<lparr>found := (found dbx0)[0 := 0x1000], nfound := 1\<rparr>) m'
      = Reply st' m' (Some 1)"
proof -
  let ?st = "dbx0\<lparr>found := (found dbx0)[0 := 0x1000], nfound := 1\<rparr>"
  have "found ?st = 0x1000 # replicate 4095 0"
    by (simp add: dbx0_def FOUND_MAX_def list_eq_iff_nth_eq nth_Cons')
  then have m: "matches ?st = [0x1000]" by (simp add: matches_def entries_def)
  have "dbx_inv ?st" "\<not> reset ?st" "all_readable (\<lambda>_ _. True) [dbx_example_region]"
    by (simp_all add: dbx_inv_def dbx0_def FOUND_MAX_def)
  from overwrite_matches [OF this, of "\<lambda>_. True" "[]" 99 "\<lambda>_. 0"] show ?thesis
    unfolding m by auto
qed

end
