(* ===== verification/Launcher.thy ===== *)
theory Launcher
  imports Prelude
begin

text \<open>
  The character device of \<^verbatim>\<open>linux-minimal/launcher/launcher.c\<close> and its client
  \<^verbatim>\<open>linux-minimal/initramfs/code/nuke.c\<close>. The memory of the user process gives a byte for each
  mapped address; \<^verbatim>\<open>copy_to_user\<close> is the interface \<open>user_copy\<close> with its documented behaviour (it
  returns how many bytes it could not copy, and 0 when the whole range is mapped).
  The registration is the sequence of the calls made, since their results are
  not looked at. Shown: what any sequence of reads delivers, the -EFAULT path
  included; when a write launches, whatever its length; that the client launches; what
  unloading leaves behind.
\<close>

type_synonym umem = "nat \<Rightarrow> char option"

definition ubytes :: "umem \<Rightarrow> nat \<Rightarrow> nat \<Rightarrow> char option list" where
  "ubytes m a n = map (\<lambda>i. m (a + i)) [0 ..< n]"

subsection \<open>Reading\<close>

definition EFAULT :: int where "EFAULT = 14"

definition lx_data :: string where "lx_data = ''This is dangerous!'' @ [NL]"

text \<open>The result, the offset and the user memory afterwards.\<close>

definition lx_read ::
    "(umem \<Rightarrow> nat \<Rightarrow> string \<Rightarrow> umem \<times> nat) \<Rightarrow> nat \<Rightarrow> nat \<Rightarrow> nat \<Rightarrow> umem \<Rightarrow> int \<times> nat \<times> umem" where
  "lx_read copy_to_user a count offset m =
     (if offset \<noteq> 0 then (0, offset, m)
      else let datalen = length lx_data;
               count = (if count > datalen then datalen else count);
               (m, left) = copy_to_user m a (take count lx_data)
           in if left \<noteq> 0 then (- EFAULT, offset, m) else (int count, offset + count, m))"

subsection \<open>Writing\<close>

datatype printk = Explode nat | Incorrect

text \<open>The number of lines of the picture; \<open>Explode i\<close> is the printing of line \<open>i\<close>.\<close>

definition EXPLODE_LINES :: nat where "EXPLODE_LINES = 15"

definition SECRET :: string where "SECRET = [CHR 0x01, CHR 0x14, CHR 0x05, CHR 0x14]"

text \<open>\<^verbatim>\<open>strncmp(p, s, length s) == 0\<close> on user memory; \<open>None\<close> is the fault of an access to an unmapped byte.\<close>

fun strncmp0 :: "umem \<Rightarrow> nat \<Rightarrow> string \<Rightarrow> bool option" where
  "strncmp0 m a [] = Some True"
| "strncmp0 m a (c # cs) =
     (case m a of
        None \<Rightarrow> None
      | Some d \<Rightarrow> if d \<noteq> c then Some False else if d = NUL then Some True else strncmp0 m (Suc a) cs)"

text \<open>The messages and the result. The copy into \<^verbatim>\<open>databuf\<close> has no effect: neither its result nor the
  buffer is used.\<close>

definition lx_write :: "nat \<Rightarrow> nat \<Rightarrow> umem \<Rightarrow> (printk list \<times> int) option" where
  "lx_write a count m =
     (let count = (if count > 4 then 4 else count)
      in case strncmp0 m a SECRET of
           None \<Rightarrow> None
         | Some eq \<Rightarrow> Some (if eq then map Explode [0 ..< EXPLODE_LINES] else [Incorrect], int count))"

text \<open>nuke.c: \<open>fd\<close> is what \<^verbatim>\<open>open\<close> returned, \<open>a\<close> where the program's constant lies.\<close>

definition nuke_main :: "int \<Rightarrow> nat \<Rightarrow> umem \<Rightarrow> (printk list \<times> int) option" where
  "nuke_main fd a m = (if fd > 0 then lx_write a (length SECRET) m else Some ([], 0))"

subsection \<open>Loading and unloading\<close>

datatype kcall = Alloc_chrdev_region nat nat | Class_create | Cdev_init nat | Cdev_add "nat \<times> nat" nat
  | Device_create "nat \<times> nat" | Device_destroy "nat \<times> nat" | Class_unregister | Class_destroy
  | Unregister_chrdev_region "nat \<times> nat" nat

definition MAX_DEV :: nat where "MAX_DEV = 2"

definition MINORMASK :: nat where "MINORMASK = 2 ^ 20 - 1"

text \<open>\<open>major\<close> is the number that the allocation hands out.\<close>

definition lx_init :: "nat \<Rightarrow> kcall list" where
  "lx_init major =
     [Alloc_chrdev_region 0 1, Class_create] @
     concat (map (\<lambda>i. [Cdev_init i, Cdev_add (major, i) 1, Device_create (major, i)]) [0 ..< MAX_DEV])"

definition lx_exit :: "nat \<Rightarrow> kcall list" where
  "lx_exit major =
     [Device_destroy (major, 0), Class_unregister, Class_destroy, Unregister_chrdev_region (major, 0) MINORMASK]"

text \<open>The device nodes that exist after a sequence of calls.\<close>

fun nodes :: "kcall list \<Rightarrow> (nat \<times> nat) list \<Rightarrow> (nat \<times> nat) list" where
  "nodes [] ds = ds"
| "nodes (Device_create d # ks) ds = nodes ks (ds @ [d])"
| "nodes (Device_destroy d # ks) ds = nodes ks (removeAll d ds)"
| "nodes (_ # ks) ds = nodes ks ds"

subsection \<open>The interface of the copy to user memory\<close>

locale user_copy =
  fixes copy_to_user :: "umem \<Rightarrow> nat \<Rightarrow> string \<Rightarrow> umem \<times> nat"
  assumes copied: "copy_to_user m a s = (m', 0) \<Longrightarrow> ubytes m' a (length s) = map Some s"
    and whole: "(\<And>i. i < length s \<Longrightarrow> m (a + i) \<noteq> None) \<Longrightarrow> snd (copy_to_user m a s) = 0"
    and partial: "i < length s \<Longrightarrow> m (a + i) = None \<Longrightarrow> snd (copy_to_user m a s) \<noteq> 0"
begin

lemma read_first:
  assumes "\<And>i. i < min count (length lx_data) \<Longrightarrow> m (a + i) \<noteq> None"
  shows "\<exists>m'. lx_read copy_to_user a count 0 m = (int (min count (length lx_data)), min count (length lx_data), m')
    \<and> ubytes m' a (min count (length lx_data)) = map Some (take count lx_data)"
proof -
  let ?n = "min count (length lx_data)"
  obtain m' left where c: "copy_to_user m a (take ?n lx_data) = (m', left)" by fastforce
  have "left = 0" using whole [of "take ?n lx_data" m a] assms c by simp
  moreover from this have "ubytes m' a ?n = map Some (take count lx_data)"
    using copied [OF c [unfolded \<open>left = 0\<close>]] by (simp add: min_def split: if_splits)
  ultimately show ?thesis using c by (auto simp: lx_read_def min_def Let_def)
qed

lemma read_fault:
  assumes "i < min count (length lx_data)" and "m (a + i) = None"
  shows "\<exists>m'. lx_read copy_to_user a count 0 m = (- EFAULT, 0, m')"
proof -
  let ?n = "min count (length lx_data)"
  obtain m' left where c: "copy_to_user m a (take ?n lx_data) = (m', left)" by fastforce
  have "left \<noteq> 0" using partial [of i "take ?n lx_data" m a] assms c by simp
  then show ?thesis using c by (auto simp: lx_read_def min_def Let_def)
qed

end

text \<open>A copy that stops at the first unmapped byte.\<close>

fun plain_copy :: "umem \<Rightarrow> nat \<Rightarrow> string \<Rightarrow> umem \<times> nat" where
  "plain_copy m a [] = (m, 0)"
| "plain_copy m a (c # cs) = (if m a = None then (m, Suc (length cs)) else plain_copy (m(a \<mapsto> c)) (Suc a) cs)"

lemma plain_copy_below: "b < a \<Longrightarrow> fst (plain_copy m a s) b = m b"
  by (induction m a s rule: plain_copy.induct) auto

lemma ubytes_Suc: "ubytes m a (Suc n) = m a # ubytes m (Suc a) n"
  by (simp add: ubytes_def upt_rec [of 0 "Suc n"] map_Suc_upt [symmetric] comp_def del: upt_Suc)

interpretation plain_copy: user_copy plain_copy
proof unfold_locales
  show "plain_copy m a s = (m', 0) \<Longrightarrow> ubytes m' a (length s) = map Some s" for m a s m'
  proof (induction s arbitrary: m a)
    case (Cons c cs)
    then have r: "plain_copy (m(a \<mapsto> c)) (Suc a) cs = (m', 0)" by (auto split: if_splits)
    then have "m' a = Some c" using plain_copy_below [of a "Suc a" "m(a \<mapsto> c)" cs] by simp
    then show ?case using Cons.IH [OF r] by (simp add: ubytes_Suc)
  qed (simp add: ubytes_def)
  show "(\<And>i. i < length s \<Longrightarrow> m (a + i) \<noteq> None) \<Longrightarrow> snd (plain_copy m a s) = 0" for m a s
  proof (induction s arbitrary: m a)
    case (Cons c cs)
    have "m a \<noteq> None" using Cons.prems [of 0] by simp
    moreover have "(m(a \<mapsto> c)) (Suc a + i) \<noteq> None" if "i < length cs" for i using Cons.prems [of "Suc i"] that by simp
    then have "snd (plain_copy (m(a \<mapsto> c)) (Suc a) cs) = 0" by (rule Cons.IH)
    ultimately show ?case by simp
  qed simp
  show "i < length s \<Longrightarrow> m (a + i) = None \<Longrightarrow> snd (plain_copy m a s) \<noteq> 0" for m a s i
  proof (induction s arbitrary: m a i)
    case (Cons c cs)
    then show ?case by (cases i) auto
  qed simp
qed

subsection \<open>Properties\<close>

text \<open>The successive reads of a process: the results.\<close>

fun lx_reads :: "(umem \<Rightarrow> nat \<Rightarrow> string \<Rightarrow> umem \<times> nat) \<Rightarrow> (nat \<times> nat) list \<Rightarrow> nat \<Rightarrow> umem \<Rightarrow> int list" where
  "lx_reads copy [] offset m = []"
| "lx_reads copy ((a, count) # rs) offset m =
     (let (r, offset, m) = lx_read copy a count offset m in r # lx_reads copy rs offset m)"

lemma lx_reads_eof: "offset \<noteq> 0 \<Longrightarrow> lx_reads copy rs offset m = replicate (length rs) 0"
  by (induction rs arbitrary: m) (auto simp: lx_read_def)

text \<open>
  C36: Reading the device: the first read that asks for at least one byte delivers the start of
  the message, cut to its length, and every read after it meets the end of the file; if a byte of the buffer is not
  mapped the read fails with EFAULT and the offset stays.
\<close>

theorem lx_read_message:
  assumes "user_copy copy" and "0 < count"
  shows "((\<forall>i < min count 19. m (a + i) \<noteq> None) \<longrightarrow>
      (\<exists>m'. lx_read copy a count 0 m = (int (min count 19), min count 19, m')
        \<and> ubytes m' a (min count 19) = map Some (take count lx_data)
        \<and> lx_reads copy ((a, count) # rs) 0 m = int (min count 19) # replicate (length rs) 0))
    \<and> ((\<exists>i < min count 19. m (a + i) = None) \<longrightarrow> (\<exists>m'. lx_read copy a count 0 m = (- EFAULT, 0, m')))"
proof -
  have len: "length lx_data = 19" by (simp add: lx_data_def)
  have "\<exists>m'. lx_read copy a count 0 m = (int (min count 19), min count 19, m')
        \<and> ubytes m' a (min count 19) = map Some (take count lx_data)
        \<and> lx_reads copy ((a, count) # rs) 0 m = int (min count 19) # replicate (length rs) 0"
    if "\<forall>i < min count 19. m (a + i) \<noteq> None"
    using user_copy.read_first [OF assms(1), of count m a] that assms(2) by (auto simp: len lx_reads_eof)
  moreover have "\<exists>m'. lx_read copy a count 0 m = (- EFAULT, 0, m')" if "\<exists>i < min count 19. m (a + i) = None"
    using user_copy.read_fault [OF assms(1)] that by (auto simp: len)
  ultimately show ?thesis by blast
qed

lemma strncmp0_iff:
  "NUL \<notin> set s \<Longrightarrow> (\<And>i. i < length s \<Longrightarrow> m (a + i) \<noteq> None) \<Longrightarrow> strncmp0 m a s = Some (ubytes m a (length s) = map Some s)"
proof (induction m a s rule: strncmp0.induct)
  case (2 m a c cs)
  have "m a \<noteq> None" using 2(3) [of 0] by simp
  moreover have "m (Suc a + i) \<noteq> None" if "i < length cs" for i using 2(3) [of "Suc i"] that by simp
  ultimately show ?case using 2(1,2) by (auto simp: ubytes_Suc)
qed (simp add: ubytes_def)

lemma SECRET_simps: "length SECRET = 4" "NUL \<notin> set SECRET"
  by (simp_all add: SECRET_def)

lemma lx_write_eq:
  assumes "\<And>i. i < 4 \<Longrightarrow> m (a + i) \<noteq> None"
  shows "lx_write a count m =
    Some (if ubytes m a 4 = map Some SECRET then map Explode [0 ..< 15] else [Incorrect], int (min count 4))"
proof -
  have "strncmp0 m a SECRET = Some (ubytes m a 4 = map Some SECRET)"
    using strncmp0_iff [of SECRET m a] assms by (simp add: SECRET_simps)
  then show ?thesis by (simp add: lx_write_def Let_def min_def EXPLODE_LINES_def)
qed

text \<open>
  Writing to the device launches exactly when the four bytes at the buffer are the secret,
  whatever the length given to the write, and reports at most four bytes as taken.
\<close>

theorem lx_write_launches:
  assumes "\<forall>i < 4. m (a + i) \<noteq> None"
  shows "lx_write a count m =
    Some (if ubytes m a 4 = map Some SECRET then map Explode [0 ..< 15] else [Incorrect], int (min count 4))"
  using assms by (intro lx_write_eq) auto

text \<open>
  The client program: if the device can be opened, its write launches and all its bytes are taken.
\<close>

theorem nuke_launches:
  assumes "fd > 0" and "ubytes m a 4 = map Some SECRET"
  shows "nuke_main fd a m = Some (map Explode [0 ..< 15], 4)"
proof -
  have "m (a + i) = Some (SECRET ! i)" if "i < 4" for i
    using arg_cong [OF assms(2), of "\<lambda>xs. xs ! i"] that by (simp add: ubytes_def SECRET_simps)
  then show ?thesis using lx_write_eq [of m a 4] assms by (simp add: nuke_main_def SECRET_simps)
qed

text \<open>
  Unloading the module leaves a device node behind: of the two nodes that loading creates, only the first is destroyed.
\<close>

theorem lx_exit_leaves: "nodes (lx_init major @ lx_exit major) [] = [(major, 1)]"
  by (simp add: lx_init_def lx_exit_def MAX_DEV_def upt_rec)

text \<open>A process with sixteen mapped bytes from 100 on; the message does not fit, a part of it does.\<close>

definition launcher_example_mem :: umem where
  "launcher_example_mem a = (if 100 \<le> a \<and> a < 116 then Some CHR ''x'' else None)"

theorem lx_read_message_witness:
  "(\<exists>m'. ubytes m' 100 4 = map Some ''This'' \<and> lx_reads plain_copy [(100, 4), (104, 8)] 0 launcher_example_mem = [4, 0])
   \<and> (\<exists>m'. lx_read plain_copy 100 19 0 launcher_example_mem = (- 14, 0, m'))"
proof -
  have 1: "\<forall>i < min 4 19. launcher_example_mem (100 + i) \<noteq> None"
    and 2: "\<exists>i < min 19 19. launcher_example_mem (100 + i) = None"
    by (simp add: launcher_example_mem_def, intro exI [of _ 16], simp add: launcher_example_mem_def)
  have t: "take 4 lx_data = ''This''" by (simp add: lx_data_def)
  show ?thesis
    using lx_read_message [OF plain_copy.user_copy_axioms, of 4 launcher_example_mem 100 "[(104, 8)]"] 1
      lx_read_message [OF plain_copy.user_copy_axioms, of 19 launcher_example_mem 100 "[]"] 2
    by (auto simp: t EFAULT_def)
qed

definition nuke_example_mem :: umem where
  "nuke_example_mem a = (if a < 4 then Some (SECRET ! a) else None)"

theorem lx_write_launches_witness: "lx_write 0 1 nuke_example_mem = Some (map Explode [0 ..< 15], 1)"
proof -
  have "\<forall>i < 4. nuke_example_mem (0 + i) \<noteq> None" by (simp add: nuke_example_mem_def)
  moreover have "ubytes nuke_example_mem 0 4 = map Some SECRET" by code_simp
  ultimately show ?thesis using lx_write_launches [of nuke_example_mem 0 1] by simp
qed

theorem nuke_launches_witness: "nuke_main 3 0 nuke_example_mem = Some (map Explode [0 ..< 15], 4)"
  by (rule nuke_launches) (simp, code_simp)

end
