(* ===== verification/Ext2.thy ===== *)
theory Ext2
  imports Prelude
begin

text \<open>
  The on-disk format of \<^verbatim>\<open>persistence/ext2.h\<close>. First the layout of C structures (sizes,
  alignments, offsets of fields, with unions and arrays), on which the structures of the header
  are given field by field; then the operations of the header: the feature sets (on the
  bytes of a super block), mount options, the masking of inode flags, the record length
  of a directory entry, and the block numbers of a block group, on machine words. Constants that come
  from other headers of the kernel are parameters. Shown: the structures have the sizes of the format and no
  padding, fields do not overlap, setting a feature changes nothing but that set, options do
  not disturb each other, flags are masked as promised, the record length is
  the least multiple of 4, and the groups partition the blocks.
\<close>

unbundle bit_operations_syntax

subsection \<open>The layout of C structures\<close>

datatype ctype = Scalar nat | Arr ctype nat | Struct "(string \<times> ctype) list" | Union "(string \<times> ctype) list"

definition align_up :: "nat \<Rightarrow> nat \<Rightarrow> nat" where
  "align_up n a = (n + a - 1) div a * a"

fun alignof :: "ctype \<Rightarrow> nat" and max_align :: "(string \<times> ctype) list \<Rightarrow> nat" where
  "alignof (Scalar n) = n"
| "alignof (Arr t n) = alignof t"
| "alignof (Struct fs) = max_align fs"
| "alignof (Union fs) = max_align fs"
| "max_align [] = 1"
| "max_align ((_, t) # fs) = max (alignof t) (max_align fs)"

fun sizeof :: "ctype \<Rightarrow> nat" and struct_end :: "nat \<Rightarrow> (string \<times> ctype) list \<Rightarrow> nat"
  and max_size :: "(string \<times> ctype) list \<Rightarrow> nat" where
  "sizeof (Scalar n) = n"
| "sizeof (Arr t n) = n * sizeof t"
| "sizeof (Struct fs) = align_up (struct_end 0 fs) (max_align fs)"
| "sizeof (Union fs) = align_up (max_size fs) (max_align fs)"
| "struct_end off [] = off"
| "struct_end off ((_, t) # fs) = struct_end (align_up off (alignof t) + sizeof t) fs"
| "max_size [] = 0"
| "max_size ((_, t) # fs) = max (sizeof t) (max_size fs)"

text \<open>The offset and the type of a field, by its name; then by a path of names.\<close>

fun struct_field :: "nat \<Rightarrow> (string \<times> ctype) list \<Rightarrow> string \<Rightarrow> (nat \<times> ctype) option" where
  "struct_field off [] f = None"
| "struct_field off ((g, t) # fs) f =
     (if f = g then Some (align_up off (alignof t), t) else struct_field (align_up off (alignof t) + sizeof t) fs f)"

fun field_of :: "ctype \<Rightarrow> string \<Rightarrow> (nat \<times> ctype) option" where
  "field_of (Struct fs) f = struct_field 0 fs f"
| "field_of (Union fs) f = map_option (\<lambda>t. (0, t)) (map_of fs f)"
| "field_of _ f = None"

fun offsetof :: "ctype \<Rightarrow> string list \<Rightarrow> nat option" where
  "offsetof t [] = Some 0"
| "offsetof t (f # fs) = Option.bind (field_of t f) (\<lambda>(k, u). map_option ((+) k) (offsetof u fs))"

text \<open>The bytes of a type that carry data.\<close>

fun payload :: "ctype \<Rightarrow> nat" where
  "payload (Scalar n) = n"
| "payload (Arr t n) = n * payload t"
| "payload (Struct fs) = sum_list (map (\<lambda>(_, t). payload t) fs)"
| "payload (Union fs) = foldr max (map (\<lambda>(_, t). payload t) fs) 0"

abbreviation le16 :: ctype where "le16 \<equiv> Scalar 2"
abbreviation le32 :: ctype where "le32 \<equiv> Scalar 4"
abbreviation byte :: ctype where "byte \<equiv> Scalar 1"

subsection \<open>The structures\<close>

definition ext2_group_desc :: ctype where
  "ext2_group_desc = Struct
     [(''bg_block_bitmap'', le32), (''bg_inode_bitmap'', le32), (''bg_inode_table'', le32),
      (''bg_free_blocks_count'', le16), (''bg_free_inodes_count'', le16), (''bg_used_dirs_count'', le16),
      (''bg_pad'', le16), (''bg_reserved'', Arr le32 3)]"

definition EXT2_NDIR_BLOCKS :: nat where "EXT2_NDIR_BLOCKS = 12"
definition EXT2_IND_BLOCK :: nat where "EXT2_IND_BLOCK = EXT2_NDIR_BLOCKS"
definition EXT2_DIND_BLOCK :: nat where "EXT2_DIND_BLOCK = EXT2_IND_BLOCK + 1"
definition EXT2_TIND_BLOCK :: nat where "EXT2_TIND_BLOCK = EXT2_DIND_BLOCK + 1"
definition EXT2_N_BLOCKS :: nat where "EXT2_N_BLOCKS = EXT2_TIND_BLOCK + 1"

definition inode_osd1 :: ctype where
  "inode_osd1 = Union
     [(''linux1'', Struct [(''l_i_reserved1'', le32)]), (''hurd1'', Struct [(''h_i_translator'', le32)]),
      (''masix1'', Struct [(''m_i_reserved1'', le32)])]"

definition inode_osd2 :: ctype where
  "inode_osd2 = Union
     [(''linux2'', Struct [(''l_i_frag'', byte), (''l_i_fsize'', byte), (''i_pad1'', le16), (''l_i_uid_high'', le16),
         (''l_i_gid_high'', le16), (''l_i_reserved2'', le32)]),
      (''hurd2'', Struct [(''h_i_frag'', byte), (''h_i_fsize'', byte), (''h_i_mode_high'', le16), (''h_i_uid_high'', le16),
         (''h_i_gid_high'', le16), (''h_i_author'', le32)]),
      (''masix2'', Struct [(''m_i_frag'', byte), (''m_i_fsize'', byte), (''m_pad1'', le16), (''m_i_reserved2'', Arr le32 2)])]"

definition ext2_inode :: ctype where
  "ext2_inode = Struct
     [(''i_mode'', le16), (''i_uid'', le16), (''i_size'', le32), (''i_atime'', le32), (''i_ctime'', le32),
      (''i_mtime'', le32), (''i_dtime'', le32), (''i_gid'', le16), (''i_links_count'', le16), (''i_blocks'', le32),
      (''i_flags'', le32), (''osd1'', inode_osd1), (''i_block'', Arr le32 EXT2_N_BLOCKS), (''i_generation'', le32),
      (''i_file_acl'', le32), (''i_dir_acl'', le32), (''i_faddr'', le32), (''osd2'', inode_osd2)]"

text \<open>The names that the header gives to fields of an inode.\<close>

fun inode_alias :: "string \<Rightarrow> string list" where
  "inode_alias f =
     (if f = ''i_size_high'' then [''i_dir_acl'']
      else if f = ''i_reserved1'' then [''osd1'', ''linux1'', ''l_i_reserved1'']
      else if f = ''i_frag'' then [''osd2'', ''linux2'', ''l_i_frag'']
      else if f = ''i_fsize'' then [''osd2'', ''linux2'', ''l_i_fsize'']
      else if f = ''i_uid_low'' then [''i_uid'']
      else if f = ''i_gid_low'' then [''i_gid'']
      else if f = ''i_uid_high'' then [''osd2'', ''linux2'', ''l_i_uid_high'']
      else if f = ''i_gid_high'' then [''osd2'', ''linux2'', ''l_i_gid_high'']
      else if f = ''i_reserved2'' then [''osd2'', ''linux2'', ''l_i_reserved2'']
      else [f])"

definition ext2_super_block :: "(string \<times> ctype) list" where
  "ext2_super_block =
     [(''s_inodes_count'', le32), (''s_blocks_count'', le32), (''s_r_blocks_count'', le32), (''s_free_blocks_count'', le32),
      (''s_free_inodes_count'', le32), (''s_first_data_block'', le32), (''s_log_block_size'', le32),
      (''s_log_frag_size'', le32), (''s_blocks_per_group'', le32), (''s_frags_per_group'', le32),
      (''s_inodes_per_group'', le32), (''s_mtime'', le32), (''s_wtime'', le32), (''s_mnt_count'', le16),
      (''s_max_mnt_count'', le16), (''s_magic'', le16), (''s_state'', le16), (''s_errors'', le16),
      (''s_minor_rev_level'', le16), (''s_lastcheck'', le32), (''s_checkinterval'', le32), (''s_creator_os'', le32),
      (''s_rev_level'', le32), (''s_def_resuid'', le16), (''s_def_resgid'', le16),
      (''s_first_ino'', le32), (''s_inode_size'', le16), (''s_block_group_nr'', le16), (''s_feature_compat'', le32),
      (''s_feature_incompat'', le32), (''s_feature_ro_compat'', le32), (''s_uuid'', Arr byte 16),
      (''s_volume_name'', Arr byte 16), (''s_last_mounted'', Arr byte 64), (''s_algorithm_usage_bitmap'', le32),
      (''s_prealloc_blocks'', byte), (''s_prealloc_dir_blocks'', byte), (''s_padding1'', le16),
      (''s_journal_uuid'', Arr byte 16), (''s_journal_inum'', le32), (''s_journal_dev'', le32), (''s_last_orphan'', le32),
      (''s_hash_seed'', Arr le32 4), (''s_def_hash_version'', byte), (''s_reserved_char_pad'', byte),
      (''s_reserved_word_pad'', le16), (''s_default_mount_opts'', le32), (''s_first_meta_bg'', le32),
      (''s_reserved'', Arr le32 190)]"

definition ext2_dir_entry :: ctype where
  "ext2_dir_entry = Struct [(''inode'', le32), (''rec_len'', le16), (''name_len'', le16), (''name'', Arr byte 0)]"

definition ext2_dir_entry_2 :: ctype where
  "ext2_dir_entry_2 = Struct
     [(''inode'', le32), (''rec_len'', le16), (''name_len'', byte), (''file_type'', byte), (''name'', Arr byte 0)]"

definition EXT2_GOOD_OLD_INODE_SIZE :: nat where "EXT2_GOOD_OLD_INODE_SIZE = 128"
definition EXT2_MIN_BLOCK_SIZE :: nat where "EXT2_MIN_BLOCK_SIZE = 1024"
definition EXT2_MAX_BLOCK_SIZE :: nat where "EXT2_MAX_BLOCK_SIZE = 4096"

text \<open>The build-time check of the offsets; its three constants come from another header.\<close>

definition verify_offsets :: "nat \<Rightarrow> nat \<Rightarrow> nat \<Rightarrow> bool" where
  "verify_offsets magic_offset blocks_offset bsize_offset \<longleftrightarrow>
     offsetof (Struct ext2_super_block) [''s_magic''] = Some magic_offset \<and>
     offsetof (Struct ext2_super_block) [''s_blocks_count''] = Some blocks_offset \<and>
     offsetof (Struct ext2_super_block) [''s_log_block_size''] = Some bsize_offset"

text \<open>The bytes of a structure; the machine is little-endian, as the format.\<close>

type_synonym image = "u8 list"

definition rd32 :: "image \<Rightarrow> nat \<Rightarrow> u32" where
  "rd32 img k = ucast (img ! k) OR push_bit 8 (ucast (img ! (k + 1))) OR push_bit 16 (ucast (img ! (k + 2)))
     OR push_bit 24 (ucast (img ! (k + 3)))"

definition wr32 :: "image \<Rightarrow> nat \<Rightarrow> u32 \<Rightarrow> image" where
  "wr32 img k v = img[k := ucast v, k + 1 := ucast (drop_bit 8 v), k + 2 := ucast (drop_bit 16 v), k + 3 := ucast (drop_bit 24 v)]"

definition sb_offset :: "string \<Rightarrow> nat" where
  "sb_offset f = (case struct_field 0 ext2_super_block f of None \<Rightarrow> 0 | Some (k, _) \<Rightarrow> k)"

subsection \<open>Feature sets\<close>

datatype feature_set = Compat | Ro_compat | Incompat

fun feature_field :: "feature_set \<Rightarrow> string" where
  "feature_field Compat = ''s_feature_compat''"
| "feature_field Ro_compat = ''s_feature_ro_compat''"
| "feature_field Incompat = ''s_feature_incompat''"

definition EXT2_HAS_FEATURE :: "feature_set \<Rightarrow> image \<Rightarrow> u32 \<Rightarrow> u32" where
  "EXT2_HAS_FEATURE k sb m = rd32 sb (sb_offset (feature_field k)) AND m"

definition EXT2_SET_FEATURE :: "feature_set \<Rightarrow> image \<Rightarrow> u32 \<Rightarrow> image" where
  "EXT2_SET_FEATURE k sb m =
     (let off = sb_offset (feature_field k) in wr32 sb off (rd32 sb off OR m))"

definition EXT2_CLEAR_FEATURE :: "feature_set \<Rightarrow> image \<Rightarrow> u32 \<Rightarrow> image" where
  "EXT2_CLEAR_FEATURE k sb m =
     (let off = sb_offset (feature_field k) in wr32 sb off (rd32 sb off AND NOT m))"

definition EXT2_FEATURE_COMPAT_SUPP :: u32 where "EXT2_FEATURE_COMPAT_SUPP = 0x0008"
definition EXT2_FEATURE_INCOMPAT_SUPP :: u32 where "EXT2_FEATURE_INCOMPAT_SUPP = 0x0002 OR 0x0010"
definition EXT2_FEATURE_RO_COMPAT_SUPP :: u32 where "EXT2_FEATURE_RO_COMPAT_SUPP = 0x0001 OR 0x0002 OR 0x0004"
definition EXT2_FEATURE_RO_COMPAT_UNSUPPORTED :: u32 where
  "EXT2_FEATURE_RO_COMPAT_UNSUPPORTED = NOT EXT2_FEATURE_RO_COMPAT_SUPP"
definition EXT2_FEATURE_INCOMPAT_UNSUPPORTED :: u32 where
  "EXT2_FEATURE_INCOMPAT_UNSUPPORTED = NOT EXT2_FEATURE_INCOMPAT_SUPP"

subsection \<open>Mount options\<close>

datatype mount_opt = CHECK | OLDALLOC | GRPID | DEBUG | ERRORS_CONT | ERRORS_RO | ERRORS_PANIC | MINIX_DF | NOBH
  | NO_UID32 | XATTR_USER | POSIX_ACL | XIP | USRQUOTA | GRPQUOTA | RESERVATION | DAX

fun EXT2_MOUNT :: "mount_opt \<Rightarrow> u64" where
  "EXT2_MOUNT CHECK = 0x000001"
| "EXT2_MOUNT OLDALLOC = 0x000002"
| "EXT2_MOUNT GRPID = 0x000004"
| "EXT2_MOUNT DEBUG = 0x000008"
| "EXT2_MOUNT ERRORS_CONT = 0x000010"
| "EXT2_MOUNT ERRORS_RO = 0x000020"
| "EXT2_MOUNT ERRORS_PANIC = 0x000040"
| "EXT2_MOUNT MINIX_DF = 0x000080"
| "EXT2_MOUNT NOBH = 0x000100"
| "EXT2_MOUNT NO_UID32 = 0x000200"
| "EXT2_MOUNT XATTR_USER = 0x004000"
| "EXT2_MOUNT POSIX_ACL = 0x008000"
| "EXT2_MOUNT XIP = 0x010000"
| "EXT2_MOUNT USRQUOTA = 0x020000"
| "EXT2_MOUNT GRPQUOTA = 0x040000"
| "EXT2_MOUNT RESERVATION = 0x080000"
| "EXT2_MOUNT DAX = 0x100000"

definition clear_opt :: "u64 \<Rightarrow> mount_opt \<Rightarrow> u64" where "clear_opt w opt = w AND NOT (EXT2_MOUNT opt)"
definition set_opt :: "u64 \<Rightarrow> mount_opt \<Rightarrow> u64" where "set_opt w opt = w OR EXT2_MOUNT opt"

text \<open>The numbers of the in-memory super block, the super block it points to, and the mount options; the
  buffers it points to, its locks and its counters per processor have no part in the operations.\<close>

record ext2_sb_info =
  s_frag_size :: u64
  s_frags_per_block :: u64
  s_inodes_per_block :: u64
  s_frags_per_group :: u64
  s_blocks_per_group :: u64
  s_inodes_per_group :: u64
  s_itb_per_group :: u64
  s_gdb_count :: u64
  s_desc_per_block :: u64
  s_groups_count :: u64
  s_overhead_last :: u64
  s_blocks_last :: u64
  s_es :: image
  s_mount_opt :: u64

definition test_opt :: "ext2_sb_info \<Rightarrow> mount_opt \<Rightarrow> u64" where
  "test_opt sbi opt = s_mount_opt sbi AND EXT2_MOUNT opt"

subsection \<open>Inode flags\<close>

text \<open>The flags come from a common header of the kernel.\<close>

record fs_flags =
  FS_DIRSYNC_FL :: u32
  FS_TOPDIR_FL :: u32
  FS_NODUMP_FL :: u32
  FS_NOATIME_FL :: u32

definition S_ISDIR :: "u16 \<Rightarrow> bool" where "S_ISDIR mode \<longleftrightarrow> mode AND 0xF000 = 0x4000"
definition S_ISREG :: "u16 \<Rightarrow> bool" where "S_ISREG mode \<longleftrightarrow> mode AND 0xF000 = 0x8000"

definition EXT2_REG_FLMASK :: "fs_flags \<Rightarrow> u32" where
  "EXT2_REG_FLMASK fl = NOT (FS_DIRSYNC_FL fl OR FS_TOPDIR_FL fl)"

definition EXT2_OTHER_FLMASK :: "fs_flags \<Rightarrow> u32" where
  "EXT2_OTHER_FLMASK fl = FS_NODUMP_FL fl OR FS_NOATIME_FL fl"

definition ext2_mask_flags :: "fs_flags \<Rightarrow> u16 \<Rightarrow> u32 \<Rightarrow> u32" where
  "ext2_mask_flags fl mode flags =
     (if S_ISDIR mode then flags
      else if S_ISREG mode then flags AND EXT2_REG_FLMASK fl
      else flags AND EXT2_OTHER_FLMASK fl)"

subsection \<open>Directory entries\<close>

definition EXT2_DIR_PAD :: int where "EXT2_DIR_PAD = 4"
definition EXT2_DIR_ROUND :: int where "EXT2_DIR_ROUND = EXT2_DIR_PAD - 1"
definition EXT2_MAX_REC_LEN :: int where "EXT2_MAX_REC_LEN = push_bit 16 1 - 1"

definition EXT2_DIR_REC_LEN :: "int \<Rightarrow> int" where
  "EXT2_DIR_REC_LEN name_len = (name_len + 8 + EXT2_DIR_ROUND) AND NOT EXT2_DIR_ROUND"

subsection \<open>Block groups\<close>

definition ext2_group_first_block_no :: "ext2_sb_info \<Rightarrow> u64 \<Rightarrow> u64" where
  "ext2_group_first_block_no sbi group_no =
     group_no * s_blocks_per_group sbi + ucast (rd32 (s_es sbi) (sb_offset ''s_first_data_block''))"

text \<open>The count of blocks has 32 bits, and 1 is subtracted at that width.\<close>

definition ext2_group_last_block_no :: "ext2_sb_info \<Rightarrow> u64 \<Rightarrow> u64" where
  "ext2_group_last_block_no sbi group_no =
     (if group_no = s_groups_count sbi - 1 then ucast (rd32 (s_es sbi) (sb_offset ''s_blocks_count'') - 1)
      else ext2_group_first_block_no sbi group_no + s_blocks_per_group sbi - 1)"

subsection \<open>Layout\<close>

lemma align_up_ge: "0 < a \<Longrightarrow> n \<le> align_up n a"
proof -
  assume a: "0 < a"
  have "n + a - 1 < ((n + a - 1) div a) * a + a"
    using dividend_less_div_times [OF a, of "n + a - 1"] by (simp add: add.commute)
  then show ?thesis by (simp add: align_up_def)
qed

lemma struct_end_ge: "(\<And>f t. (f, t) \<in> set fs \<Longrightarrow> 0 < alignof t) \<Longrightarrow> k \<le> struct_end k fs"
proof (induction fs arbitrary: k)
  case (Cons ft fs)
  obtain f t where ft: "ft = (f, t)" by (cases ft)
  have "k \<le> align_up k (alignof t)" using Cons.prems [of f t] by (intro align_up_ge) (simp add: ft)
  also have "\<dots> + sizeof t \<le> struct_end (align_up k (alignof t) + sizeof t) fs"
    using Cons.prems by (intro Cons.IH) (meson list.set_intros(2))
  finally show ?case by (simp add: ft)
qed simp

lemma struct_field_within:
  assumes "\<And>f t. (f, t) \<in> set fs \<Longrightarrow> 0 < alignof t"
  shows "struct_field k fs f = Some (a, t) \<Longrightarrow> k \<le> a \<and> a + sizeof t \<le> struct_end k fs"
  using assms
proof (induction fs arbitrary: k)
  case (Cons gu fs)
  obtain g u where gu: "gu = (g, u)" by (cases gu)
  have k: "k \<le> align_up k (alignof u)" using Cons.prems(2) [of g u] by (intro align_up_ge) (simp add: gu)
  have al: "\<And>f t. (f, t) \<in> set fs \<Longrightarrow> 0 < alignof t" using Cons.prems(2) by (meson list.set_intros(2))
  show ?case
  proof (cases "f = g")
    case True
    then show ?thesis using Cons.prems(1) k struct_end_ge [OF al] by (auto simp: gu)
  next
    case False
    then have "align_up k (alignof u) + sizeof u \<le> a \<and> a + sizeof t \<le> struct_end (align_up k (alignof u) + sizeof u) fs"
      using Cons.prems(1) by (intro Cons.IH al) (auto simp: gu)
    then show ?thesis using k by (simp add: gu)
  qed
qed simp

lemma struct_fields_disjoint:
  assumes "\<And>f t. (f, t) \<in> set fs \<Longrightarrow> 0 < alignof t" and "f \<noteq> g"
  shows "struct_field k fs f = Some (a, t) \<Longrightarrow> struct_field k fs g = Some (b, u) \<Longrightarrow> a + sizeof t \<le> b \<or> b + sizeof u \<le> a"
  using assms(1)
proof (induction fs arbitrary: k)
  case (Cons hv fs)
  obtain h v where hv: "hv = (h, v)" by (cases hv)
  let ?k = "align_up k (alignof v) + sizeof v"
  have al: "\<And>f t. (f, t) \<in> set fs \<Longrightarrow> 0 < alignof t" using Cons.prems(3) by (meson list.set_intros(2))
  have w: "struct_field ?k fs f = Some (a, t) \<Longrightarrow> ?k \<le> a \<and> a + sizeof t \<le> struct_end ?k fs" for f a t
    by (rule struct_field_within [OF al])
  consider "f = h" | "g = h" | "f \<noteq> h" "g \<noteq> h" by blast
  then show ?case
  proof cases
    case 1
    then show ?thesis using Cons.prems(1,2) assms(2) w [of g b u] by (auto simp: hv)
  next
    case 2
    then show ?thesis using Cons.prems(1,2) assms(2) w [of f a t] by (auto simp: hv)
  next
    case 3
    then show ?thesis using Cons.prems(1,2) by (intro Cons.IH al) (auto simp: hv)
  qed
qed simp

text \<open>A property of all fields of the super block is checked field by field.\<close>

lemma super_block_align: "(f, t) \<in> set ext2_super_block \<Longrightarrow> 0 < alignof t"
proof -
  have "\<forall>(f, t) \<in> set ext2_super_block. 0 < alignof t" by code_simp
  then show "(f, t) \<in> set ext2_super_block \<Longrightarrow> 0 < alignof t" by blast
qed

lemma super_block_end: "struct_end 0 ext2_super_block = 1024"
  by code_simp

lemma super_block_fields:
  "struct_field 0 ext2_super_block ''s_feature_compat'' = Some (92, le32)"
  "struct_field 0 ext2_super_block ''s_feature_incompat'' = Some (96, le32)"
  "struct_field 0 ext2_super_block ''s_feature_ro_compat'' = Some (100, le32)"
  "struct_field 0 ext2_super_block ''s_first_data_block'' = Some (20, le32)"
  "struct_field 0 ext2_super_block ''s_blocks_count'' = Some (4, le32)"
  by code_simp+

lemma feature_offset:
  "struct_field 0 ext2_super_block (feature_field k) = Some (sb_offset (feature_field k), le32)"
  "sb_offset (feature_field k) + 4 \<le> 1024"
  by (cases k; simp add: sb_offset_def super_block_fields)+

lemma rd_wr32:
  assumes "k + 4 \<le> length img" shows "rd32 (wr32 img k v) k = v"
proof (rule bit_word_eqI)
  fix n assume "n < LENGTH(32)"
  then consider "n < 8" | "8 \<le> n" "n < 16" | "16 \<le> n" "n < 24" | "24 \<le> n" "n < 32" by force
  then show "bit (rd32 (wr32 img k v) k) n = bit v n" using assms
    by cases (auto simp: rd32_def wr32_def bit_simps)
qed

lemma wr32_other: "i < k \<or> k + 4 \<le> i \<Longrightarrow> wr32 img k v ! i = img ! i"
  by (auto simp: wr32_def)

lemma length_wr32 [simp]: "length (wr32 img k v) = length img"
  by (simp add: wr32_def)

lemma rd_wr32_other: "k + 4 \<le> j \<or> j + 4 \<le> k \<Longrightarrow> rd32 (wr32 img k v) j = rd32 img j"
  by (auto simp: rd32_def wr32_other)

text \<open>A store to one field of the super block leaves the bytes of every other field.\<close>

lemma wr32_field:
  assumes "struct_field 0 ext2_super_block f = Some (a, le32)" and "struct_field 0 ext2_super_block g = Some (b, t)" and "f \<noteq> g"
  shows "\<forall>i < sizeof t. wr32 img a v ! (b + i) = img ! (b + i)"
proof -
  have "a + sizeof le32 \<le> b \<or> b + sizeof t \<le> a"
    by (rule struct_fields_disjoint [OF _ assms(3) assms(1,2)]) (rule super_block_align)
  then show ?thesis by (auto intro!: wr32_other)
qed

text \<open>
  The structures of ext2.h have exactly the sizes of the format, with no padding between or after
  their fields: 32 bytes for a group descriptor, 128 for an inode, 1024 for the super block, 8 for the head of a directory entry in both versions;
  the build-time check of the offsets passes with the documented values 0x38, 4 and 0x18.
\<close>

lemma ext2_layout:
  "sizeof ext2_group_desc = 32 \<and> payload ext2_group_desc = 32 \<and>
   sizeof ext2_inode = EXT2_GOOD_OLD_INODE_SIZE \<and> payload ext2_inode = EXT2_GOOD_OLD_INODE_SIZE \<and>
   sizeof (Struct ext2_super_block) = EXT2_MIN_BLOCK_SIZE \<and> payload (Struct ext2_super_block) = EXT2_MIN_BLOCK_SIZE \<and>
   sizeof ext2_dir_entry = 8 \<and> sizeof ext2_dir_entry_2 = 8 \<and>
   offsetof ext2_dir_entry_2 [''name''] = offsetof ext2_dir_entry [''name''] \<and>
   offsetof ext2_inode (inode_alias ''i_uid_high'') = Some 120 \<and> offsetof ext2_inode [''i_block''] = Some 40 \<and>
   verify_offsets 0x38 4 0x18"
  by (intro conjI; code_simp)

text \<open>
  The feature sets in the bytes of a super block: setting features adds exactly them, clearing
  removes exactly them, and neither touches the bytes of any other field.
\<close>

theorem ext2_features:
  assumes "length sb = 1024"
  shows "EXT2_HAS_FEATURE k (EXT2_SET_FEATURE k sb m) n = EXT2_HAS_FEATURE k sb n OR (m AND n) \<and>
    EXT2_HAS_FEATURE k (EXT2_CLEAR_FEATURE k sb m) n = EXT2_HAS_FEATURE k sb n AND NOT m \<and>
    (\<forall>f b t. f \<noteq> feature_field k \<and> struct_field 0 ext2_super_block f = Some (b, t) \<longrightarrow>
      (\<forall>i < sizeof t. EXT2_SET_FEATURE k sb m ! (b + i) = sb ! (b + i) \<and> EXT2_CLEAR_FEATURE k sb m ! (b + i) = sb ! (b + i)))"
proof (intro conjI allI impI)
  have off: "sb_offset (feature_field k) + 4 \<le> length sb" using feature_offset(2) assms by simp
  show "EXT2_HAS_FEATURE k (EXT2_SET_FEATURE k sb m) n = EXT2_HAS_FEATURE k sb n OR (m AND n)"
    by (simp add: EXT2_HAS_FEATURE_def EXT2_SET_FEATURE_def rd_wr32 off Let_def bit.conj_disj_distrib2)
  show "EXT2_HAS_FEATURE k (EXT2_CLEAR_FEATURE k sb m) n = EXT2_HAS_FEATURE k sb n AND NOT m"
    by (simp add: EXT2_HAS_FEATURE_def EXT2_CLEAR_FEATURE_def rd_wr32 off Let_def ac_simps)
  fix f b t i
  assume f: "f \<noteq> feature_field k \<and> struct_field 0 ext2_super_block f = Some (b, t)" and i: "i < sizeof t"
  have "wr32 sb (sb_offset (feature_field k)) v ! (b + i) = sb ! (b + i)" for v
    using wr32_field [OF feature_offset(1) [of k], of f b t sb v] f i by auto
  then show "EXT2_SET_FEATURE k sb m ! (b + i) = sb ! (b + i)" "EXT2_CLEAR_FEATURE k sb m ! (b + i) = sb ! (b + i)"
    by (simp_all add: EXT2_SET_FEATURE_def EXT2_CLEAR_FEATURE_def Let_def)
qed

definition mount_index :: "mount_opt \<Rightarrow> nat" where
  "mount_index p = (case p of CHECK \<Rightarrow> 0 | OLDALLOC \<Rightarrow> 1 | GRPID \<Rightarrow> 2 | DEBUG \<Rightarrow> 3 | ERRORS_CONT \<Rightarrow> 4 | ERRORS_RO \<Rightarrow> 5
     | ERRORS_PANIC \<Rightarrow> 6 | MINIX_DF \<Rightarrow> 7 | NOBH \<Rightarrow> 8 | NO_UID32 \<Rightarrow> 9 | XATTR_USER \<Rightarrow> 14 | POSIX_ACL \<Rightarrow> 15 | XIP \<Rightarrow> 16
     | USRQUOTA \<Rightarrow> 17 | GRPQUOTA \<Rightarrow> 18 | RESERVATION \<Rightarrow> 19 | DAX \<Rightarrow> 20)"

lemma EXT2_MOUNT_exp: "EXT2_MOUNT p = 2 ^ mount_index p" "mount_index p < 64"
  by (cases p; simp add: mount_index_def)+

lemma mount_index_inj: "mount_index p = mount_index q \<longleftrightarrow> p = q"
  by (cases p; cases q; simp add: mount_index_def)

lemma test_opt_bit: "test_opt sbi p \<noteq> 0 \<longleftrightarrow> bit (s_mount_opt sbi) (mount_index p)"
  by (simp add: test_opt_def EXT2_MOUNT_exp and_exp_eq_0_iff_not_bit)

text \<open>
  Mount options are independent: an option tests true after it has been set and false after it has been cleared, and
  no other option changes.
\<close>

theorem mount_options:
  "(test_opt (sbi\<lparr>s_mount_opt := set_opt (s_mount_opt sbi) p\<rparr>) q \<noteq> 0) = (q = p \<or> test_opt sbi q \<noteq> 0) \<and>
   (test_opt (sbi\<lparr>s_mount_opt := clear_opt (s_mount_opt sbi) p\<rparr>) q \<noteq> 0) = (q \<noteq> p \<and> test_opt sbi q \<noteq> 0)"
  unfolding test_opt_bit
  by (auto simp: set_opt_def clear_opt_def EXT2_MOUNT_exp bit_simps mount_index_inj)

lemma ext2_mask_flags_bit:
  "bit (ext2_mask_flags fl mode flags) n \<longleftrightarrow> bit flags n \<and>
     (S_ISDIR mode \<or> (if S_ISREG mode then \<not> bit (FS_DIRSYNC_FL fl) n \<and> \<not> bit (FS_TOPDIR_FL fl) n
       else bit (FS_NODUMP_FL fl) n \<or> bit (FS_NOATIME_FL fl) n))"
  by (auto simp: ext2_mask_flags_def EXT2_REG_FLMASK_def EXT2_OTHER_FLMASK_def bit_simps dest: bit_imp_le_length)

text \<open>
  The mask of inode flags never adds a flag, is a fixed point after one application, leaves
  a directory all of its flags, keeps the flags of directories from regular files, and leaves to other
  files no flag but the two that are appropriate for them.
\<close>

theorem ext2_mask_flags_ok:
  "ext2_mask_flags fl mode flags AND NOT flags = 0 \<and>
   ext2_mask_flags fl mode (ext2_mask_flags fl mode flags) = ext2_mask_flags fl mode flags \<and>
   (S_ISDIR mode \<longrightarrow> ext2_mask_flags fl mode flags = flags) \<and>
   (S_ISREG mode \<longrightarrow> ext2_mask_flags fl mode flags AND (FS_DIRSYNC_FL fl OR FS_TOPDIR_FL fl) = 0) \<and>
   (\<not> S_ISREG mode \<and> \<not> S_ISDIR mode \<longrightarrow> ext2_mask_flags fl mode flags AND NOT (FS_NODUMP_FL fl OR FS_NOATIME_FL fl) = 0)"
proof -
  have "\<not> (S_ISDIR mode \<and> S_ISREG mode)" by (auto simp: S_ISDIR_def S_ISREG_def)
  then show ?thesis by (auto simp: bit_eq_iff bit_simps ext2_mask_flags_bit)
qed

text \<open>
  The record length of a directory entry is the least multiple of 4 that holds the head and the
  name, and for names of up to 255 bytes it is below the largest record length.
\<close>

theorem dir_rec_len_least:
  "EXT2_DIR_PAD dvd EXT2_DIR_REC_LEN n \<and> n + 8 \<le> EXT2_DIR_REC_LEN n \<and>
   (\<forall>k. EXT2_DIR_PAD dvd k \<and> n + 8 \<le> k \<longrightarrow> EXT2_DIR_REC_LEN n \<le> k) \<and> (n \<le> 255 \<longrightarrow> EXT2_DIR_REC_LEN n \<le> EXT2_MAX_REC_LEN)"
proof -
  have "x AND NOT 3 = x div 4 * 4" for x :: int
  proof -
    have "x AND NOT 3 = push_bit 2 (drop_bit 2 x)"
    proof (rule bit_eqI)
      fix i
      have "(3 :: int) = mask 2" by (simp add: mask_eq_exp_minus_1)
      moreover have "bit (mask 2 :: int) i \<longleftrightarrow> i < 2" by (rule trans [OF bit_mask_iff]) simp
      ultimately have "bit (3 :: int) i \<longleftrightarrow> i < 2" by simp
      moreover have "2 \<le> i \<Longrightarrow> Suc (Suc (i - 2)) = i" by simp
      ultimately show "bit (x AND NOT 3) i \<longleftrightarrow> bit (push_bit 2 (drop_bit 2 x)) i" by (auto simp: bit_simps)
    qed
    then show ?thesis by (simp add: push_bit_eq_mult drop_bit_eq_div)
  qed
  then have r: "EXT2_DIR_REC_LEN n = (n + 11) div 4 * 4" by (simp add: EXT2_DIR_REC_LEN_def EXT2_DIR_ROUND_def EXT2_DIR_PAD_def)
  have "(n + 11) div 4 * 4 \<le> k" if d: "4 dvd k" and l: "n + 8 \<le> k" for k
  proof -
    obtain j where "k = 4 * j" using d by (rule dvdE)
    then show ?thesis using l by simp
  qed
  moreover have "n + 8 \<le> (n + 11) div 4 * 4" "n \<le> 255 \<Longrightarrow> (n + 11) div 4 * 4 \<le> 65535" by linarith+
  ultimately show ?thesis unfolding r EXT2_DIR_PAD_def EXT2_MAX_REC_LEN_def by simp
qed

subsection \<open>The groups partition the blocks\<close>

text \<open>The numbers of a file system: its first block, its count of blocks, the blocks per group; the count
  of groups is the number of groups that these need.\<close>

definition first_block :: "ext2_sb_info \<Rightarrow> nat" where
  "first_block sbi = unat (rd32 (s_es sbi) (sb_offset ''s_first_data_block''))"

definition block_count :: "ext2_sb_info \<Rightarrow> nat" where
  "block_count sbi = unat (rd32 (s_es sbi) (sb_offset ''s_blocks_count''))"

definition groups_ok :: "ext2_sb_info \<Rightarrow> bool" where
  "groups_ok sbi \<longleftrightarrow> first_block sbi < block_count sbi \<and> 0 < unat (s_blocks_per_group sbi) \<and>
     unat (s_groups_count sbi) = (block_count sbi - first_block sbi - 1) div unat (s_blocks_per_group sbi) + 1"

lemma count_less: "block_count sbi < 2 ^ 32" "first_block sbi < 2 ^ 32"
  using unsigned_less [of "rd32 (s_es sbi) (sb_offset ''s_blocks_count'')"]
    unsigned_less [of "rd32 (s_es sbi) (sb_offset ''s_first_data_block'')"]
  by (simp_all add: block_count_def first_block_def)

lemma group_start_below:
  assumes "groups_ok sbi" and "g < unat (s_groups_count sbi)"
  shows "g * unat (s_blocks_per_group sbi) + first_block sbi < block_count sbi"
proof -
  let ?P = "unat (s_blocks_per_group sbi)"
  have "g \<le> (block_count sbi - first_block sbi - 1) div ?P" using assms by (simp add: groups_ok_def)
  then have "g * ?P \<le> block_count sbi - first_block sbi - 1"
    by (meson div_times_less_eq_dividend le_trans mult_le_mono1)
  then show ?thesis using assms(1) unfolding groups_ok_def by linarith
qed

lemma unat_bounds: "unat (w :: u32) < 2 ^ 32" "unat (v :: u64) < 2 ^ 64"
  using unsigned_less [of w] unsigned_less [of v] by simp_all

lemma unat_ucast64: "unat (ucast (w :: u32) :: u64) = unat w"
proof -
  have "unat w < 2 ^ 64" using unat_bounds(1) [of w] by simp
  then show ?thesis by (simp add: unsigned_ucast_eq take_bit_nat_eq_self)
qed

lemma unat_first_block_no:
  assumes "groups_ok sbi" and "g < unat (s_groups_count sbi)"
  shows "unat (ext2_group_first_block_no sbi (of_nat g)) = g * unat (s_blocks_per_group sbi) + first_block sbi"
proof -
  let ?P = "unat (s_blocks_per_group sbi)"
  have b: "g * ?P + first_block sbi < 2 ^ 64" using group_start_below [OF assms] count_less(1) [of sbi] by simp
  have "g < 2 ^ 64" using assms(2) unat_bounds(2) [of "s_groups_count sbi"] by simp
  then have "unat (of_nat g :: u64) = g" by (simp add: unsigned_of_nat take_bit_nat_eq_self)
  then show ?thesis using b
    by (simp add: ext2_group_first_block_no_def unat_word_ariths first_block_def unat_ucast64)
qed

lemma unat_add_minus_one:
  fixes x y :: u64
  assumes "unat x + unat y < 2 ^ 64" and "0 < unat y"
  shows "unat (x + y - 1) = unat x + unat y - 1"
proof -
  have u: "unat (x + y) = unat x + unat y" using assms(1) by (simp add: unat_word_ariths)
  then have "x + y \<noteq> 0" using assms(2) by (metis add_gr_0 less_numeral_extra(3) unat_0)
  then show ?thesis by (simp add: unat_minus_one u)
qed

lemma unat_last_block_no:
  assumes "groups_ok sbi" and "g < unat (s_groups_count sbi)"
  shows "unat (ext2_group_last_block_no sbi (of_nat g)) =
    (if Suc g = unat (s_groups_count sbi) then block_count sbi - 1 else Suc g * unat (s_blocks_per_group sbi) + first_block sbi - 1)"
proof (cases "Suc g = unat (s_groups_count sbi)")
  case True
  then have "of_nat (Suc g) = s_groups_count sbi" by simp
  then have "of_nat g = s_groups_count sbi - 1" by (auto simp: algebra_simps)
  moreover have "unat (rd32 (s_es sbi) (sb_offset ''s_blocks_count'') - 1) = block_count sbi - 1"
    using assms(1) unat_minus_one [of "rd32 (s_es sbi) (sb_offset ''s_blocks_count'')"]
    by (cases "rd32 (s_es sbi) (sb_offset ''s_blocks_count'') = 0") (auto simp: groups_ok_def block_count_def)
  ultimately show ?thesis using True by (simp add: ext2_group_last_block_no_def unat_ucast64)
next
  case False
  let ?P = "unat (s_blocks_per_group sbi)"
  have g: "Suc g < unat (s_groups_count sbi)" using False assms(2) by simp
  have "g < 2 ^ 64" using assms(2) unat_bounds(2) [of "s_groups_count sbi"] by simp
  then have "unat (of_nat g :: u64) = g" by (simp add: unsigned_of_nat take_bit_nat_eq_self)
  moreover have "unat (s_groups_count sbi - 1) = unat (s_groups_count sbi) - 1" using g by (intro unat_minus_one) auto
  ultimately have "of_nat g \<noteq> s_groups_count sbi - 1" using g by auto
  moreover have "unat (ext2_group_first_block_no sbi (of_nat g)) + ?P < 2 ^ 64" "0 < ?P"
    using group_start_below [OF assms(1) g] unat_first_block_no [OF assms] count_less(1) [of sbi] assms(1) by (simp_all add: groups_ok_def)
  note unat_add_minus_one [OF this]
  ultimately show ?thesis using False unat_first_block_no [OF assms] by (simp add: ext2_group_last_block_no_def)
qed

lemma below_iff: "0 < q \<Longrightarrow> (f :: nat) \<le> b \<Longrightarrow> b \<le> q + f - Suc 0 \<longleftrightarrow> b - f < q"
  by arith

lemma above_iff: "(f :: nat) \<le> b \<Longrightarrow> q + f \<le> b \<longleftrightarrow> q \<le> b - f"
  by arith

lemma group_of_block:
  assumes "groups_ok sbi" and "g < unat (s_groups_count sbi)" and "first_block sbi \<le> b" and "b < block_count sbi"
  shows "unat (ext2_group_first_block_no sbi (of_nat g)) \<le> b \<and> b \<le> unat (ext2_group_last_block_no sbi (of_nat g))
    \<longleftrightarrow> g = (b - first_block sbi) div unat (s_blocks_per_group sbi)"
proof -
  let ?P = "unat (s_blocks_per_group sbi)" and ?d = "b - first_block sbi"
  have P: "0 < ?P" using assms(1) by (simp add: groups_ok_def)
  have bd: "?d \<le> block_count sbi - first_block sbi - 1" using assms(3,4) by simp
  have last: "?d < Suc g * ?P" if "Suc g = unat (s_groups_count sbi)"
  proof -
    have "g = (block_count sbi - first_block sbi - 1) div ?P" using that assms(1) by (simp add: groups_ok_def)
    then have "block_count sbi - first_block sbi - 1 < Suc g * ?P"
      using dividend_less_div_times [OF P, of "block_count sbi - first_block sbi - 1"] by simp
    then show ?thesis using bd by linarith
  qed
  have "g = ?d div ?P \<longleftrightarrow> g * ?P \<le> ?d \<and> ?d < Suc g * ?P"
  proof
    assume "g = ?d div ?P"
    then show "g * ?P \<le> ?d \<and> ?d < Suc g * ?P" using dividend_less_div_times [OF P, of ?d] by simp
  next
    assume "g * ?P \<le> ?d \<and> ?d < Suc g * ?P"
    then show "g = ?d div ?P" by (metis P div_nat_eqI mult.commute)
  qed
  moreover have "b \<le> block_count sbi - Suc 0" using assms(4) by simp
  ultimately show ?thesis using last assms(3,4) unfolding unat_first_block_no [OF assms(1,2)] unat_last_block_no [OF assms(1,2)]
    using P by (cases "Suc g = unat (s_groups_count sbi)") (simp_all add: above_iff below_iff del: mult_Suc)
qed

text \<open>
  C39: when the count of groups is the number of groups that the blocks need, every
  block of the file system lies between the first and the last block of exactly one group, in spite of the 64-bit
  products and the 32-bit subtraction.
\<close>

theorem groups_partition:
  assumes "groups_ok sbi" and "first_block sbi \<le> b" and "b < block_count sbi"
  shows "\<exists>!g. g < unat (s_groups_count sbi) \<and> unat (ext2_group_first_block_no sbi (of_nat g)) \<le> b
    \<and> b \<le> unat (ext2_group_last_block_no sbi (of_nat g))"
proof -
  let ?g = "(b - first_block sbi) div unat (s_blocks_per_group sbi)"
  have "b - first_block sbi \<le> block_count sbi - first_block sbi - 1" using assms(2,3) by simp
  then have "?g < unat (s_groups_count sbi)"
    using assms(1) div_le_mono [of "b - first_block sbi" "block_count sbi - first_block sbi - 1" "unat (s_blocks_per_group sbi)"]
    by (simp add: groups_ok_def)
  then show ?thesis using group_of_block [OF assms(1) _ assms(2,3)] by (intro ex1I [of _ ?g]) auto
qed

text \<open>A file system of 20000 blocks from block 1 on, in groups of 8192.\<close>

definition ext2_example_image :: image where
  "ext2_example_image = wr32 (wr32 (replicate 1024 0) 4 20000) 20 1"

definition ext2_example :: ext2_sb_info where
  "ext2_example =
     \<lparr>s_frag_size = 1024, s_frags_per_block = 1, s_inodes_per_block = 8, s_frags_per_group = 8192, s_blocks_per_group = 8192,
      s_inodes_per_group = 2048, s_itb_per_group = 256, s_gdb_count = 1, s_desc_per_block = 32, s_groups_count = 3,
      s_overhead_last = 0, s_blocks_last = 0, s_es = ext2_example_image, s_mount_opt = 0\<rparr>"

lemma ext2_example_blocks: "first_block ext2_example = 1" "block_count ext2_example = 20000" "groups_ok ext2_example"
proof -
  have "rd32 ext2_example_image 4 = 20000" "rd32 ext2_example_image 20 = 1"
    by (simp_all add: ext2_example_image_def rd_wr32 rd_wr32_other)
  then show b: "first_block ext2_example = 1" "block_count ext2_example = 20000"
    by (simp_all add: first_block_def block_count_def ext2_example_def sb_offset_def super_block_fields)
  show "groups_ok ext2_example" by (simp add: groups_ok_def b) (simp add: ext2_example_def)
qed

theorem groups_partition_witness:
  "\<exists>!g. g < unat (s_groups_count ext2_example) \<and> unat (ext2_group_first_block_no ext2_example (of_nat g)) \<le> 19999
    \<and> 19999 \<le> unat (ext2_group_last_block_no ext2_example (of_nat g))"
  by (rule groups_partition) (simp_all add: ext2_example_blocks)

theorem ext2_features_witness:
  "EXT2_HAS_FEATURE Incompat (EXT2_SET_FEATURE Incompat ext2_example_image 0x0002) 0x0002 \<noteq> 0
   \<and> EXT2_SET_FEATURE Incompat ext2_example_image 0x0002 ! (20 + 0) = ext2_example_image ! (20 + 0)"
proof -
  have len: "length ext2_example_image = 1024" by (simp add: ext2_example_image_def)
  have "EXT2_HAS_FEATURE Incompat (EXT2_SET_FEATURE Incompat ext2_example_image 2) 2 = EXT2_HAS_FEATURE Incompat ext2_example_image 2 OR (2 AND 2)"
    using ext2_features [OF len] by blast
  moreover have "x OR 2 \<noteq> 0" for x :: u32 
  proof -
    have "bit (x OR 2) 1" by (simp add: bit_simps)
    then show ?thesis by auto
  qed
  moreover have "EXT2_SET_FEATURE Incompat ext2_example_image 2 ! (20 + 0) = ext2_example_image ! (20 + 0)"
    using ext2_features [OF len, of Incompat 2 0, THEN conjunct2, THEN conjunct2, rule_format,
        of "''s_first_data_block''" 20 le32 0] by (simp add: super_block_fields)
  ultimately show ?thesis by auto
qed

theorem dir_rec_len_least_witness: "EXT2_DIR_REC_LEN 255 \<le> EXT2_MAX_REC_LEN \<and> EXT2_DIR_REC_LEN 5 \<le> 16"
  using dir_rec_len_least [of 255] dir_rec_len_least [of 5] by (auto simp: EXT2_DIR_PAD_def)

theorem ext2_mask_flags_ok_witness:
  "ext2_mask_flags \<lparr>FS_DIRSYNC_FL = 0x10000, FS_TOPDIR_FL = 0x20000, FS_NODUMP_FL = 0x40, FS_NOATIME_FL = 0x80\<rparr> 0x81A4 0x10040 AND 0x30000 = 0"
  using ext2_mask_flags_ok [of "\<lparr>FS_DIRSYNC_FL = 0x10000, FS_TOPDIR_FL = 0x20000, FS_NODUMP_FL = 0x40, FS_NOATIME_FL = 0x80\<rparr>" "0x81A4" "0x10040"]
  by (simp add: S_ISREG_def)

end
