(* ===== verification/Ext2_Dir.thy ===== *)
theory Ext2_Dir
  imports Ext2
begin

text \<open>
  More of \<^verbatim>\<open>persistence/ext2.h\<close>: the two versions of a directory entry, read from the bytes of
  a block at the offsets of their structures, the named features behind the supported sets, and
  the flags a new inode inherits. Shown: how the two versions read the same bytes, which is
  what the comment on the reclaimed byte promises; which super blocks have no unsupported
  feature; and what becomes of inherited flags after the mask for the type of the inode.
\<close>

unbundle bit_operations_syntax

subsection \<open>Directory entries\<close>

definition rd16 :: "image \<Rightarrow> nat \<Rightarrow> u16" where
  "rd16 img k = ucast (img ! k) OR push_bit 8 (ucast (img ! (k + 1)))"

definition field_at :: "ctype \<Rightarrow> string \<Rightarrow> nat" where
  "field_at t f = (case offsetof t [f] of Some k \<Rightarrow> k | None \<Rightarrow> 0)"

record dirent =
  inode :: u32
  rec_len :: u16
  name_len :: nat
  name :: image

text \<open>The header declares the two structures; reading an entry at byte \<open>k\<close> of a block is the access to
  their fields at the offsets of the declaration, the name being as long as \<open>name_len\<close> says. First
  the older version.\<close>

definition read_dir_entry :: "image \<Rightarrow> nat \<Rightarrow> dirent" where
  "read_dir_entry img k =
     (let n = unat (rd16 img (k + field_at ext2_dir_entry ''name_len''))
      in \<lparr>inode = rd32 img (k + field_at ext2_dir_entry ''inode''), rec_len = rd16 img (k + field_at ext2_dir_entry ''rec_len''),
          name_len = n, name = take n (drop (k + field_at ext2_dir_entry ''name'') img)\<rparr>)"

text \<open>In the second version, with the type of the file.\<close>

definition read_dir_entry_2 :: "image \<Rightarrow> nat \<Rightarrow> dirent \<times> u8" where
  "read_dir_entry_2 img k =
     (let n = unat (img ! (k + field_at ext2_dir_entry_2 ''name_len''))
      in (\<lparr>inode = rd32 img (k + field_at ext2_dir_entry_2 ''inode''), rec_len = rd16 img (k + field_at ext2_dir_entry_2 ''rec_len''),
           name_len = n, name = take n (drop (k + field_at ext2_dir_entry_2 ''name'') img)\<rparr>,
          img ! (k + field_at ext2_dir_entry_2 ''file_type'')))"

lemma dir_offsets:
  "field_at ext2_dir_entry ''inode'' = 0" "field_at ext2_dir_entry ''rec_len'' = 4" "field_at ext2_dir_entry ''name_len'' = 6"
  "field_at ext2_dir_entry ''name'' = 8"
  "field_at ext2_dir_entry_2 ''inode'' = 0" "field_at ext2_dir_entry_2 ''rec_len'' = 4" "field_at ext2_dir_entry_2 ''name_len'' = 6"
  "field_at ext2_dir_entry_2 ''file_type'' = 7" "field_at ext2_dir_entry_2 ''name'' = 8"
  by (simp_all add: field_at_def ext2_dir_entry_def ext2_dir_entry_2_def align_up_def)

lemma unat_bytes: "unat (ucast (a :: u8) OR push_bit 8 (ucast (b :: u8)) :: u16) = unat a + 256 * unat b"
proof -
  have "(ucast a :: u16) AND push_bit 8 (ucast b) = 0"
    by (auto simp: bit_eq_iff bit_simps dest: bit_imp_le_length)
  then have s: "(ucast a OR push_bit 8 (ucast b) :: u16) = ucast a + push_bit 8 (ucast b)"
    by (simp add: disjunctive_add_eq_or)
  have "unat a < 256" "unat b < 256" using unsigned_less [of a, where ?'a = nat] unsigned_less [of b, where ?'a = nat] by simp_all
  then show ?thesis unfolding s
    by (simp add: unat_word_ariths push_bit_eq_mult unsigned_ucast_eq take_bit_eq_mod)
qed

text \<open>
  C38: the two versions of a directory entry. On the same bytes both versions read the same
  inode number and record length, and the length of the name that the old one reads is that of
  the new one plus 256 times the type byte. So they agree on the whole entry exactly when
  the type byte is 0, which is the case when the old length is at most 255, as the comment on
  the reclaimed byte has it; an entry with a type is misread by the old version.
\<close>

theorem dir_entry_versions:
  assumes "k + 8 \<le> length img" "read_dir_entry_2 img k = (e, file_type)"
  shows "inode (read_dir_entry img k) = inode e \<and> rec_len (read_dir_entry img k) = rec_len e \<and>
    name_len (read_dir_entry img k) = name_len e + 256 * unat file_type \<and>
    (read_dir_entry img k = e \<longleftrightarrow> file_type = 0) \<and> (name_len (read_dir_entry img k) \<le> 255 \<longleftrightarrow> file_type = 0)"
proof -
  have e: "e = \<lparr>inode = rd32 img k, rec_len = rd16 img (k + 4), name_len = unat (img ! (k + 6)),
      name = take (unat (img ! (k + 6))) (drop (k + 8) img)\<rparr>" "file_type = img ! (k + 7)"
    using assms(2) by (auto simp: read_dir_entry_2_def dir_offsets Let_def)
  have n: "name_len (read_dir_entry img k) = name_len e + 256 * unat file_type"
    by (simp add: read_dir_entry_def dir_offsets Let_def rd16_def unat_bytes e ac_simps)
  have "unat (img ! (k + 6)) < 256" using unsigned_less [of "img ! (k + 6)", where ?'a = nat] by simp
  then have z: "name_len (read_dir_entry img k) \<le> 255 \<longleftrightarrow> file_type = 0"
  proof (cases "unat file_type")
    case (Suc j)
    then show ?thesis using n by auto
  qed (use n e(1) in \<open>simp add: unat_eq_zero\<close>)
  have "read_dir_entry img k = e" if "file_type = 0"
    using n that by (simp add: read_dir_entry_def dir_offsets Let_def e(1))
  then show ?thesis using n z by (auto simp: read_dir_entry_def dir_offsets Let_def e(1) unat_eq_zero)
qed

definition ex_block :: image where
  "ex_block = [11, 0, 0, 0, 16, 0, 5, 1, 104, 101, 108, 108, 111, 0, 0, 0]"

theorem dir_entry_versions_witness:
  "0 + 8 \<le> length ex_block \<and> name_len (fst (read_dir_entry_2 ex_block 0)) = 5 \<and> name_len (read_dir_entry ex_block 0) = 261"
proof -
  have l: "0 + 8 \<le> length ex_block" by (simp add: ex_block_def)
  have r: "read_dir_entry_2 ex_block 0 = (fst (read_dir_entry_2 ex_block 0), 1)" "name_len (fst (read_dir_entry_2 ex_block 0)) = 5"
    by (simp_all add: read_dir_entry_2_def dir_offsets Let_def ex_block_def)
  then show ?thesis using dir_entry_versions [OF l r(1)] l by simp
qed

subsection \<open>Features by name\<close>

datatype compat_feature = DIR_PREALLOC | IMAGIC_INODES | HAS_JOURNAL | EXT_ATTR | RESIZE_INO | DIR_INDEX
datatype ro_compat_feature = SPARSE_SUPER | LARGE_FILE | BTREE_DIR
datatype incompat_feature = COMPRESSION | FILETYPE | RECOVER | JOURNAL_DEV | META_BG

fun EXT2_FEATURE_COMPAT :: "compat_feature \<Rightarrow> u32" where
  "EXT2_FEATURE_COMPAT DIR_PREALLOC = 0x0001"
| "EXT2_FEATURE_COMPAT IMAGIC_INODES = 0x0002"
| "EXT2_FEATURE_COMPAT HAS_JOURNAL = 0x0004"
| "EXT2_FEATURE_COMPAT EXT_ATTR = 0x0008"
| "EXT2_FEATURE_COMPAT RESIZE_INO = 0x0010"
| "EXT2_FEATURE_COMPAT DIR_INDEX = 0x0020"

fun EXT2_FEATURE_RO_COMPAT :: "ro_compat_feature \<Rightarrow> u32" where
  "EXT2_FEATURE_RO_COMPAT SPARSE_SUPER = 0x0001"
| "EXT2_FEATURE_RO_COMPAT LARGE_FILE = 0x0002"
| "EXT2_FEATURE_RO_COMPAT BTREE_DIR = 0x0004"

fun EXT2_FEATURE_INCOMPAT :: "incompat_feature \<Rightarrow> u32" where
  "EXT2_FEATURE_INCOMPAT COMPRESSION = 0x0001"
| "EXT2_FEATURE_INCOMPAT FILETYPE = 0x0002"
| "EXT2_FEATURE_INCOMPAT RECOVER = 0x0004"
| "EXT2_FEATURE_INCOMPAT JOURNAL_DEV = 0x0008"
| "EXT2_FEATURE_INCOMPAT META_BG = 0x0010"

text \<open>The supported sets are those of the named features.\<close>

lemma feature_sets:
  "EXT2_FEATURE_COMPAT_SUPP = EXT2_FEATURE_COMPAT EXT_ATTR"
  "EXT2_FEATURE_INCOMPAT_SUPP = EXT2_FEATURE_INCOMPAT FILETYPE OR EXT2_FEATURE_INCOMPAT META_BG"
  "EXT2_FEATURE_RO_COMPAT_SUPP = EXT2_FEATURE_RO_COMPAT SPARSE_SUPER OR EXT2_FEATURE_RO_COMPAT LARGE_FILE OR EXT2_FEATURE_RO_COMPAT BTREE_DIR"
  by (simp_all add: EXT2_FEATURE_COMPAT_SUPP_def EXT2_FEATURE_INCOMPAT_SUPP_def EXT2_FEATURE_RO_COMPAT_SUPP_def)

lemma small_bits:
  "bit (2 :: u32) n \<longleftrightarrow> n = 1" "bit (16 :: u32) n \<longleftrightarrow> n = 4" "bit (2 OR 16 :: u32) n \<longleftrightarrow> n = 1 \<or> n = 4"
proof -
  have e: "bit (2 ^ k :: u32) n \<longleftrightarrow> n < 32 \<and> n = k" for k by (auto simp: bit_exp_iff)
  show 2: "bit (2 :: u32) n \<longleftrightarrow> n = 1" using e [of 1] by auto
  show 16: "bit (16 :: u32) n \<longleftrightarrow> n = 4" using e [of 4] by auto
  show "bit (2 OR 16 :: u32) n \<longleftrightarrow> n = 1 \<or> n = 4" by (simp only: bit_or_iff 2 16)
qed

lemma unsupported_bit: "bit EXT2_FEATURE_INCOMPAT_UNSUPPORTED n \<longleftrightarrow> n < 32 \<and> n \<noteq> 1 \<and> n \<noteq> 4"
  unfolding EXT2_FEATURE_INCOMPAT_UNSUPPORTED_def EXT2_FEATURE_INCOMPAT_SUPP_def
  by (simp only: bit_not_iff small_bits possible_bit_word) auto

text \<open>
  A super block has no unsupported incompatible feature exactly when its word is made up of the
  two supported ones, whatever the other feature words hold; in particular directory entries with a type
  are accepted, a journal that needs recovery and compression are not.
\<close>

theorem incompat_unsupported:
  "EXT2_HAS_FEATURE Incompat sb EXT2_FEATURE_INCOMPAT_UNSUPPORTED = 0 \<longleftrightarrow>
   rd32 sb (sb_offset ''s_feature_incompat'') \<in>
     {0, EXT2_FEATURE_INCOMPAT FILETYPE, EXT2_FEATURE_INCOMPAT META_BG, EXT2_FEATURE_INCOMPAT FILETYPE OR EXT2_FEATURE_INCOMPAT META_BG}"
proof -
  define w where "w = rd32 sb (sb_offset ''s_feature_incompat'')"
  have "w AND EXT2_FEATURE_INCOMPAT_UNSUPPORTED = 0 \<longleftrightarrow> (\<forall>n. bit w n \<longrightarrow> n = 1 \<or> n = 4)"
  proof (intro iffI allI impI)
    fix n assume z: "w AND EXT2_FEATURE_INCOMPAT_UNSUPPORTED = 0" and n: "bit w n"
    have "n < 32" using bit_imp_le_length [OF n] by simp
    then have "bit (w AND EXT2_FEATURE_INCOMPAT_UNSUPPORTED) n" if "\<not> (n = 1 \<or> n = 4)" using that n by (simp add: bit_and_iff unsupported_bit)
    with z show "n = 1 \<or> n = 4" by auto
  next
    assume "\<forall>n. bit w n \<longrightarrow> n = 1 \<or> n = 4"
    then show "w AND EXT2_FEATURE_INCOMPAT_UNSUPPORTED = 0"
      by (intro bit_word_eqI) (auto simp: bit_and_iff unsupported_bit)
  qed
  also have "\<dots> \<longleftrightarrow> w \<in> {0, 2, 16, 18}"
  proof
    assume *: "\<forall>n. bit w n \<longrightarrow> n = 1 \<or> n = 4"
    have "w = (if bit w 1 then 2 else 0) OR (if bit w 4 then 16 else 0)"
    proof (rule bit_word_eqI)
      fix n
      have "bit (if bit w 1 then 2 else 0 :: u32) n \<longleftrightarrow> bit w 1 \<and> n = 1" using small_bits(1) by (cases "bit w 1") auto
      moreover have "bit (if bit w 4 then 16 else 0 :: u32) n \<longleftrightarrow> bit w 4 \<and> n = 4" using small_bits(2) by (cases "bit w 4") auto
      ultimately show "bit w n \<longleftrightarrow> bit ((if bit w 1 then 2 else 0) OR (if bit w 4 then 16 else 0) :: u32) n"
        using * unfolding bit_or_iff by blast
    qed
    then show "w \<in> {0, 2, 16, 18}" by (auto split: if_splits)
  next
    assume "w \<in> {0, 2, 16, 18}"
    then have "w = 0 \<or> w = 2 \<or> w = 16 \<or> w = 2 OR 16" by simp
    then show "\<forall>n. bit w n \<longrightarrow> n = 1 \<or> n = 4" by (elim disjE) (simp_all only: small_bits, simp_all)
  qed
  finally show ?thesis by (simp add: EXT2_HAS_FEATURE_def w_def)
qed

subsection \<open>Inherited flags\<close>

text \<open>The flags of the kernel's header that the inherited set is made of.\<close>

record fs_flags_inh = fs_flags +
  FS_SECRM_FL :: u32
  FS_UNRM_FL :: u32
  FS_COMPR_FL :: u32
  FS_SYNC_FL :: u32
  FS_COMPRBLK_FL :: u32
  FS_NOCOMP_FL :: u32
  FS_JOURNAL_DATA_FL :: u32
  FS_NOTAIL_FL :: u32

definition EXT2_FL_INHERITED :: "fs_flags_inh \<Rightarrow> u32" where
  "EXT2_FL_INHERITED fl = FS_SECRM_FL fl OR FS_UNRM_FL fl OR FS_COMPR_FL fl OR FS_SYNC_FL fl OR FS_NODUMP_FL fl OR
     FS_NOATIME_FL fl OR FS_COMPRBLK_FL fl OR FS_NOCOMP_FL fl OR FS_JOURNAL_DATA_FL fl OR FS_NOTAIL_FL fl OR FS_DIRSYNC_FL fl"

text \<open>The flags of a new inode: the inherited ones of its parent directory, masked for its type.\<close>

definition new_flags :: "fs_flags_inh \<Rightarrow> u16 \<Rightarrow> u32 \<Rightarrow> u32" where
  "new_flags fl mode parent = ext2_mask_flags (fs_flags.truncate fl) mode (parent AND EXT2_FL_INHERITED fl)"

text \<open>
  A new inode has no flag that its parent has not. A regular file never gets the synchronous updates
  of directories, although they are in the inherited set; and a file of another type, such
  as a device, gets exactly those of the flags \<open>nodump\<close> and \<open>noatime\<close> that its parent has.
\<close>

theorem inherited_flags:
  "new_flags fl mode parent AND NOT parent = 0 \<and>
   (S_ISREG mode \<and> \<not> S_ISDIR mode \<longrightarrow> new_flags fl mode parent AND FS_DIRSYNC_FL fl = 0) \<and>
   (\<not> S_ISREG mode \<and> \<not> S_ISDIR mode \<longrightarrow> new_flags fl mode parent = parent AND (FS_NODUMP_FL fl OR FS_NOATIME_FL fl))"
proof (intro conjI impI)
  show "new_flags fl mode parent AND NOT parent = 0"
    by (intro bit_word_eqI) (auto simp: new_flags_def ext2_mask_flags_bit bit_simps)
  show "new_flags fl mode parent AND FS_DIRSYNC_FL fl = 0" if "S_ISREG mode \<and> \<not> S_ISDIR mode"
    using that by (intro bit_word_eqI) (auto simp: new_flags_def ext2_mask_flags_bit bit_simps fs_flags.truncate_def)
  show "new_flags fl mode parent = parent AND (FS_NODUMP_FL fl OR FS_NOATIME_FL fl)" if "\<not> S_ISREG mode \<and> \<not> S_ISDIR mode"
    using that by (intro bit_word_eqI)
      (auto simp: new_flags_def ext2_mask_flags_bit bit_simps fs_flags.truncate_def EXT2_FL_INHERITED_def)
qed

end
