(* ===== verification/Dsu.thy ===== *)
theory Dsu
  imports Aligned_Words
begin

text \<open>
  Dynamic software update, \<^verbatim>\<open>virtualization/dsu.c\<close>: the first bytes of a function are
  overwritten by a jump to its new version. The memory is a function from addresses to bytes; whether
  \<^verbatim>\<open>mprotect\<close> grants the pages is a parameter, its calls are recorded. Shown: the machine that executes the
  patched bytes goes to the new function when it is within reach of a 32-bit displacement, no
  byte but the five of the jump changes, and the pages asked for cover the jump exactly.
\<close>

unbundle bit_operations_syntax

type_synonym code_mem = "u64 \<Rightarrow> u8"

record jmp =
  opcode :: u8
  offset :: u32

definition sizeof_jmp :: nat where "sizeof_jmp = 5"

definition JMP :: "u64 \<Rightarrow> jmp" where
  "JMP off = \<lparr>opcode = 0xe9, offset = ucast (off - of_nat sizeof_jmp)\<rparr>"

text \<open>The packed structure in memory.\<close>

definition store_jmp :: "u64 \<Rightarrow> jmp \<Rightarrow> code_mem \<Rightarrow> code_mem" where
  "store_jmp a j m = m(a := opcode j, a + 1 := ucast (offset j), a + 2 := ucast (drop_bit 8 (offset j)),
     a + 3 := ucast (drop_bit 16 (offset j)), a + 4 := ucast (drop_bit 24 (offset j)))"

text \<open>\<open>pg\<close> is the page size.\<close>

definition within_page :: "nat \<Rightarrow> u64 \<Rightarrow> bool" where
  "within_page pg addr \<longleftrightarrow> unat addr mod pg + sizeof_jmp \<le> pg"

datatype prot = RWX | RX

text \<open>The memory afterwards and the calls of \<^verbatim>\<open>mprotect\<close>; \<open>granted base len\<close> says that the first one succeeds.\<close>

definition DSU :: "(u64 \<Rightarrow> u64 \<Rightarrow> bool) \<Rightarrow> nat \<Rightarrow> u64 \<Rightarrow> u64 \<Rightarrow> code_mem \<Rightarrow> code_mem \<times> (u64 \<times> u64 \<times> prot) list" where
  "DSU granted pg old new m =
     (let base = old AND NOT (of_nat pg - 1);
          len = of_nat pg * (if within_page pg old then 1 else 2)
      in if granted base len
         then (store_jmp old (JMP (new - old)) m, [(base, len, RWX), (base, len, RX)])
         else (m, [(base, len, RWX)]))"

subsection \<open>What the machine does at the patched address\<close>

definition rel32 :: "code_mem \<Rightarrow> u64 \<Rightarrow> u32" where
  "rel32 m a = ucast (m a) OR push_bit 8 (ucast (m (a + 1))) OR push_bit 16 (ucast (m (a + 2))) OR push_bit 24 (ucast (m (a + 3)))"

definition jmp_target :: "code_mem \<Rightarrow> u64 \<Rightarrow> u64 option" where
  "jmp_target m a = (if m a = 0xe9 then Some (a + 5 + scast (rel32 m (a + 1))) else None)"

lemma rel32_store: "rel32 (store_jmp a j m) (a + 1) = offset j"
proof (rule bit_word_eqI)
  fix n assume "n < LENGTH(32)"
  then consider "n < 8" | "8 \<le> n" "n < 16" | "16 \<le> n" "n < 24" | "24 \<le> n" "n < 32" by force
  then show "bit (rel32 (store_jmp a j m) (a + 1)) n = bit (offset j) n"
    by cases (auto simp: rel32_def store_jmp_def bit_simps)
qed

lemma opcode_store: "store_jmp a j m a = opcode j"
  by (simp add: store_jmp_def)

lemma scast_ucast_small:
  fixes d :: u64
  assumes "- (2 ^ 31) \<le> sint d" and "sint d < 2 ^ 31"
  shows "scast (ucast d :: u32) = d"
proof -
  have "sint (ucast d :: u32) = signed_take_bit 31 (uint d)" by (simp add: signed_ucast_eq)
  also have "\<dots> = signed_take_bit 31 (sint d)" by (simp add: sint_uint)
  also have "\<dots> = sint d" using assms by (intro signed_take_bit_int_eq_self) simp_all
  finally have "word_of_int (sint (ucast d :: u32)) = (word_of_int (sint d) :: u64)" by simp
  then show ?thesis by simp
qed

lemma store_jmp_other:
  assumes "\<And>i. i < sizeof_jmp \<Longrightarrow> x \<noteq> a + of_nat i"
  shows "store_jmp a j m x = m x"
  using assms [of 0] assms [of 1] assms [of 2] assms [of 3] assms [of 4] by (simp add: store_jmp_def sizeof_jmp_def)

text \<open>
  Dsu.c redirects the old function: when the pages are granted and the distance fits into 32 bits, the machine that executes the
  first instruction of the old function jumps to the new one, and only the five bytes of
  that instruction have changed; when the pages are refused, nothing has changed.
\<close>

theorem dsu_redirects:
  assumes "- (2 ^ 31) \<le> sint (new - old - 5)" and "sint (new - old - 5) < 2 ^ 31"
  shows "(\<forall>m' calls. DSU (\<lambda>_ _. True) pg old new m = (m', calls) \<longrightarrow>
      jmp_target m' old = Some new \<and> (\<forall>x. (\<forall>i < 5. x \<noteq> old + of_nat i) \<longrightarrow> m' x = m x))
    \<and> fst (DSU (\<lambda>_ _. False) pg old new m) = m"
proof -
  let ?m = "store_jmp old (JMP (new - old)) m"
  have "rel32 ?m (old + 1) = ucast (new - old - 5)" by (simp add: rel32_store JMP_def sizeof_jmp_def)
  then have "scast (rel32 ?m (old + 1)) = new - old - 5" using scast_ucast_small [OF assms] by simp
  then have "jmp_target ?m old = Some new" by (simp add: jmp_target_def opcode_store JMP_def)
  moreover have "\<forall>x. (\<forall>i < 5. x \<noteq> old + of_nat i) \<longrightarrow> ?m x = m x"
    by (auto intro!: store_jmp_other simp: sizeof_jmp_def)
  ultimately show ?thesis by (simp add: DSU_def Let_def)
qed

text \<open>
  The pages that dsu.c asks for: they start at a page boundary, contain every byte of the
  jump, and the second page is asked for only if the jump reaches into it; after the patch they
  are write-protected again.
\<close>

theorem dsu_pages:
  assumes "pg = 2 ^ k" and "k < 63" and "5 \<le> pg" and "unat old + 2 * pg \<le> 2 ^ 64"
    and "DSU granted pg old new m = (m', (base, len, p) # calls)"
  shows "pg dvd unat base \<and> unat base \<le> unat old \<and> unat old + 5 \<le> unat base + unat len \<and>
    (unat len = pg \<or> unat len = 2 * pg \<and> unat base + pg < unat old + 5) \<and>
    p = RWX \<and> calls = (if granted base len then [(base, len, RX)] else [])"
proof -
  define R where "R = unat old mod pg"
  have b: "base = old AND NOT (2 ^ k - 1)" and l: "len = of_nat pg * (if within_page pg old then 1 else 2)"
    and c: "p = RWX" "calls = (if granted base len then [(base, len, RX)] else [])"
    using assms(5) by (auto simp: DSU_def Let_def assms(1) split: if_splits)
  have ub: "unat base = unat old - R" using assms(1,2) by (simp add: b unat_align_down R_def)
  have "(2 :: nat) ^ Suc k < 2 ^ 64" using assms(2) by (intro power_strict_increasing) simp_all
  then have "2 * pg < 2 ^ 64" using assms(1) by simp
  then have ul: "unat len = pg * (if within_page pg old then 1 else 2)"
    by (simp add: l unat_word_ariths unsigned_of_nat take_bit_nat_eq_self)
  have r: "R < pg" "R \<le> unat old" "within_page pg old \<longleftrightarrow> R + 5 \<le> pg"
    using assms(3) by (simp_all add: mod_less_eq_dividend within_page_def sizeof_jmp_def R_def)
  have "pg dvd unat base" unfolding ub R_def by (rule dvd_minus_mod)
  moreover have "unat base \<le> unat old" "unat old + 5 \<le> unat base + unat len"
      "unat len = pg \<or> unat len = 2 * pg \<and> unat base + pg < unat old + 5"
    using r ub ul assms(3) by (cases "within_page pg old"; simp)+
  ultimately show ?thesis using c by blast
qed

theorem dsu_redirects_witness:
  "\<exists>m' calls. DSU (\<lambda>_ _. True) 4096 0x401000 0x401100 (\<lambda>_. 0) = (m', calls) \<and> jmp_target m' 0x401000 = Some 0x401100"
proof -
  obtain m' calls where d: "DSU (\<lambda>_ _. True) 4096 0x401000 0x401100 (\<lambda>_. 0) = (m', calls)" by fastforce
  moreover have "jmp_target m' 0x401000 = Some 0x401100"
    using dsu_redirects [of "0x401100" "0x401000" 4096 "\<lambda>_. 0"] d by simp
  ultimately show ?thesis by blast
qed

theorem dsu_pages_witness:
  "\<exists>m' base len p calls. DSU (\<lambda>_ _. True) 4096 0x401ffd 0x401100 (\<lambda>_. 0) = (m', (base, len, p) # calls) \<and>
     unat base \<le> 0x401ffd \<and> 0x401ffd + 5 \<le> unat base + unat len"
proof -
  obtain m' base len p calls where d: "DSU (\<lambda>_ _. True) 4096 0x401ffd 0x401100 (\<lambda>_. 0) = (m', (base, len, p) # calls)"
    by (auto simp: DSU_def Let_def)
  moreover have "unat base \<le> 0x401ffd \<and> 0x401ffd + 5 \<le> unat base + unat len"
    using dsu_pages [OF _ _ _ _ d, of 12] by simp
  ultimately show ?thesis by blast
qed

end
