(* ===== verification/Bit_Programs.thy ===== *)
theory Bit_Programs
  imports Prelude
begin

text \<open>
  Programs that work on the bits of machine words: the bit count of
  \<^verbatim>\<open>virtualization/popcount.c\<close>, the circuit of \<^verbatim>\<open>logisim/logisim.c\<close>, and the bus scan
  of \<^verbatim>\<open>persistence/pci-probe/pci-probe.c\<close>. Shown: the count is that of the low four bits; the
  circuit is a counter from 0 to 2 on a seven-segment display; the scan reports exactly the devices that are present, each once and in
  order.
\<close>

unbundle bit_operations_syntax

subsection \<open>popcount.c\<close>

definition popcount :: "u32 \<Rightarrow> u32" where
  "popcount x =
     (let s = 0;
          b0 = drop_bit 0 x AND 1; s = s + b0;
          b1 = drop_bit 1 x AND 1; s = s + b1;
          b2 = drop_bit 2 x AND 1; s = s + b2;
          b3 = drop_bit 3 x AND 1; s = s + b3
      in s)"

lemma shifted_and_1: "drop_bit k x AND 1 = (of_bool (bit x k) :: u32)"
  by (rule bit_word_eqI) (auto simp: bit_simps)

text \<open>
  popcount.c counts the bits among the low four of its argument, and so all the bits of an argument below 16.
\<close>

theorem popcount_counts:
  "popcount x = of_nat (card {k. k < 4 \<and> bit x k}) \<and> (x < 16 \<longrightarrow> popcount x = of_nat (card {k. bit x k}))"
proof -
  have "{k. k < 4 \<and> bit x k} = set (filter (bit x) [0 ..< 4])" by auto
  then have "card {k. k < 4 \<and> bit x k} = length (filter (bit x) [0 ..< 4])" by (simp only: distinct_card distinct_filter distinct_upt)
  moreover have "[0 ..< 4] = [0, 1, 2, 3 :: nat]" by code_simp
  moreover have "popcount x = of_bool (bit x 0) + of_bool (bit x 1) + of_bool (bit x 2) + of_bool (bit x 3)"
    unfolding popcount_def Let_def shifted_and_1 by simp
  ultimately have c: "popcount x = of_nat (card {k. k < 4 \<and> bit x k})" by simp
  have "{k. bit x k} = {k. k < 4 \<and> bit x k}" if "x < 16"
  proof -
    have "take_bit 4 x = x" using that
      by (simp add: word_eq_iff_unsigned [where 'a = nat] unsigned_take_bit_eq take_bit_nat_eq_self word_less_nat_alt)
    then show ?thesis by (metis (mono_tags, lifting) bit_take_bit_iff)
  qed
  with c show ?thesis by simp
qed

subsection \<open>logisim.c\<close>

record circuit =
  reg_X :: bool
  reg_Y :: bool

record segments =
  seg_A :: bool
  seg_B :: bool
  seg_C :: bool
  seg_D :: bool
  seg_E :: bool
  seg_F :: bool
  seg_G :: bool

definition logic_regs :: "circuit \<Rightarrow> circuit" where
  "logic_regs c = \<lparr>reg_X = \<not> reg_X c \<and> reg_Y c, reg_Y = \<not> reg_X c \<and> \<not> reg_Y c\<rparr>"

definition logic_outputs :: "circuit \<Rightarrow> segments" where
  "logic_outputs c =
     (let X = reg_X c; Y = reg_Y c
      in \<lparr>seg_A = (\<not> X \<and> \<not> Y) \<or> (X \<and> \<not> Y),
          seg_B = True,
          seg_C = (\<not> X \<and> \<not> Y) \<or> (\<not> X \<and> Y),
          seg_D = (\<not> X \<and> \<not> Y) \<or> (X \<and> \<not> Y),
          seg_E = (\<not> X \<and> \<not> Y) \<or> (X \<and> \<not> Y),
          seg_F = \<not> X \<and> \<not> Y,
          seg_G = X \<and> \<not> Y\<rparr>)"

text \<open>The clock loop: the lines printed in the first \<open>n\<close> rounds.\<close>

fun logisim :: "nat \<Rightarrow> circuit \<Rightarrow> segments list" where
  "logisim 0 c = []"
| "logisim (Suc n) c = logic_outputs c # logisim n (logic_regs c)"

definition circuit0 :: circuit where "circuit0 = \<lparr>reg_X = False, reg_Y = False\<rparr>"

text \<open>The digits of a seven-segment display.\<close>

definition digit :: "nat \<Rightarrow> segments" where
  "digit d =
     (if d = 0 then \<lparr>seg_A = True, seg_B = True, seg_C = True, seg_D = True, seg_E = True, seg_F = True, seg_G = False\<rparr>
      else if d = 1 then \<lparr>seg_A = False, seg_B = True, seg_C = True, seg_D = False, seg_E = False, seg_F = False, seg_G = False\<rparr>
      else \<lparr>seg_A = True, seg_B = True, seg_C = False, seg_D = True, seg_E = True, seg_F = False, seg_G = True\<rparr>)"

definition circuit_at :: "nat \<Rightarrow> circuit" where
  "circuit_at k = \<lparr>reg_X = (k mod 3 = 2), reg_Y = (k mod 3 = 1)\<rparr>"

lemma circuit_at_step: "logic_regs (circuit_at k) = circuit_at (Suc k)"
  by (auto simp: logic_regs_def circuit_at_def mod_Suc)

lemma circuit_at_outputs: "logic_outputs (circuit_at k) = digit (k mod 3)"
proof -
  have "k mod 3 < 3" by simp
  then consider "k mod 3 = 0" | "k mod 3 = 1" | "k mod 3 = 2" by linarith
  then show ?thesis by cases (simp_all add: logic_outputs_def circuit_at_def digit_def)
qed

lemma logisim_from: "logisim n (circuit_at k) = map (\<lambda>i. digit (i mod 3)) [k ..< k + n]"
  by (induction n arbitrary: k) (simp_all add: circuit_at_step circuit_at_outputs upt_conv_Cons del: upt_Suc)

text \<open>
  logisim.c shows the digits 0, 1, 2, 0, 1, 2, and so on, one per clock cycle, for ever.
\<close>

theorem logisim_counts: "logisim n circuit0 = map (\<lambda>i. digit (i mod 3)) [0 ..< n]"
  using logisim_from [of n 0] by (simp add: circuit0_def circuit_at_def)

subsection \<open>pci-probe.c\<close>

definition pci_reg :: "u32 \<Rightarrow> u32 \<Rightarrow> u32 \<Rightarrow> u32 \<Rightarrow> u32" where
  "pci_reg bus slot func offset = push_bit 16 bus OR push_bit 11 slot OR push_bit 8 func OR offset OR 0x80000000"

text \<open>The pair of ports answers to the register selected; what the hardware answers is \<open>inl\<close>.\<close>

definition pciconf_read :: "(u32 \<Rightarrow> u32) \<Rightarrow> u32 \<Rightarrow> u32 \<Rightarrow> u32 \<Rightarrow> u32 \<Rightarrow> u32" where
  "pciconf_read inl bus slot func offset = inl (pci_reg bus slot func offset)"

text \<open>A line of the report: bus, slot, device, vendor, and whether it is the Intel card.\<close>

type_synonym pci_line = "nat \<times> nat \<times> u16 \<times> u16 \<times> bool"

definition pci_slot :: "(u32 \<Rightarrow> u32) \<Rightarrow> nat \<Rightarrow> nat \<Rightarrow> pci_line list" where
  "pci_slot inl bus slot =
     (let info = pciconf_read inl (of_nat bus) (of_nat slot) 0 0;
          dev = ucast (drop_bit 16 info); vendor = ucast (info AND 0xffff)
      in if vendor \<noteq> 0xffff then [(bus, slot, dev, vendor, dev = 0x100e \<and> vendor = 0x8086)] else [])"

definition pci_main :: "(u32 \<Rightarrow> u32) \<Rightarrow> pci_line list" where
  "pci_main inl = concat (map (\<lambda>bus. concat (map (pci_slot inl bus) [0 ..< 32])) [0 ..< 256])"

text \<open>What the bus controller makes of the selected register: the enable bit and the four fields.\<close>

definition pci_decode :: "u32 \<Rightarrow> bool \<times> nat \<times> nat \<times> nat \<times> nat" where
  "pci_decode r = (bit r 31, unat (take_bit 8 (drop_bit 16 r)), unat (take_bit 5 (drop_bit 11 r)),
     unat (take_bit 3 (drop_bit 8 r)), unat (take_bit 8 r))"

lemma unat_field: "n < 2 ^ w \<Longrightarrow> w \<le> 32 \<Longrightarrow> take_bit w (of_nat n :: u32) = of_nat n"
  by (simp add: take_bit_of_nat take_bit_nat_eq_self)

lemma unat_small: "n < 2 ^ 8 \<Longrightarrow> unat (of_nat n :: u32) = n"
  by (simp add: unsigned_of_nat take_bit_nat_eq_self)

lemma pci_fields:
  assumes "take_bit 8 b = b" "take_bit 5 s = s" "take_bit 3 f = f" "take_bit 8 r = r"
  shows "take_bit 8 (drop_bit 16 (pci_reg b s f r)) = b" "take_bit 5 (drop_bit 11 (pci_reg b s f r)) = s"
    "take_bit 3 (drop_bit 8 (pci_reg b s f r)) = f" "take_bit 8 (pci_reg b s f r) = r"
proof -
  have lt: "bit b k \<Longrightarrow> k < 8" "bit s k \<Longrightarrow> k < 5" "bit f k \<Longrightarrow> k < 3" "bit r k \<Longrightarrow> k < 8" for k
    using assms by (metis bit_take_bit_iff)+
  have top: "bit (0x80000000 :: u32) k \<longleftrightarrow> k = 31" for k
  proof -
    have "(0x80000000 :: u32) = 2 ^ 31" by simp
    then show ?thesis by (simp only: bit_exp_iff) auto
  qed
  show "take_bit 8 (drop_bit 16 (pci_reg b s f r)) = b"
    by (rule bit_word_eqI) (auto simp: pci_reg_def bit_simps top dest: lt)
  show "take_bit 5 (drop_bit 11 (pci_reg b s f r)) = s"
    by (rule bit_word_eqI) (auto simp: pci_reg_def bit_simps top dest: lt)
  show "take_bit 3 (drop_bit 8 (pci_reg b s f r)) = f"
    by (rule bit_word_eqI) (auto simp: pci_reg_def bit_simps top dest: lt)
  show "take_bit 8 (pci_reg b s f r) = r"
    by (rule bit_word_eqI) (auto simp: pci_reg_def bit_simps top dest: lt)
qed

lemma pci_decode_reg:
  assumes "bus < 256" and "slot < 32" and "func < 8" and "offset < 256"
  shows "pci_decode (pci_reg (of_nat bus) (of_nat slot) (of_nat func) (of_nat offset)) = (True, bus, slot, func, offset)"
proof -
  have "bit (pci_reg b s f r) 31" for b s f r
  proof -
    have "(0x80000000 :: u32) = 2 ^ 31" by simp
    then show ?thesis unfolding pci_reg_def by (simp only: bit_or_iff bit_exp_iff) simp
  qed
  moreover note pci_fields [of "of_nat bus" "of_nat slot" "of_nat func" "of_nat offset"]
  ultimately show ?thesis using assms by (simp add: pci_decode_def unat_field unat_small)
qed

text \<open>The hardware: a configuration space behind the two ports; nothing answers with all ones.\<close>

definition pci_ports :: "(nat \<Rightarrow> nat \<Rightarrow> nat \<Rightarrow> nat \<Rightarrow> u32) \<Rightarrow> u32 \<Rightarrow> u32" where
  "pci_ports conf r = (case pci_decode r of (en, bus, slot, func, offset) \<Rightarrow> if en then conf bus slot func offset else 0xffffffff)"

definition pci_present :: "(nat \<Rightarrow> nat \<Rightarrow> nat \<Rightarrow> nat \<Rightarrow> u32) \<Rightarrow> nat \<times> nat \<Rightarrow> bool" where
  "pci_present conf = (\<lambda>(bus, slot). ucast (conf bus slot 0 0 AND 0xffff) \<noteq> (0xffff :: u16))"

definition pci_report :: "(nat \<Rightarrow> nat \<Rightarrow> nat \<Rightarrow> nat \<Rightarrow> u32) \<Rightarrow> nat \<times> nat \<Rightarrow> pci_line" where
  "pci_report conf = (\<lambda>(bus, slot). let info = conf bus slot 0 0
     in (bus, slot, ucast (drop_bit 16 info), ucast (info AND 0xffff), info = 0x100e8086))"

lemma pci_card: "ucast (drop_bit 16 w) = (0x100e :: u16) \<and> ucast (w AND 0xffff) = (0x8086 :: u16) \<longleftrightarrow> w = (0x100e8086 :: u32)"
proof
  assume h: "ucast (drop_bit 16 w) = (0x100e :: u16) \<and> ucast (w AND 0xffff) = (0x8086 :: u16)"
  have lo: "take_bit 16 w = 0x8086"
  proof -
    have "w AND 0xffff = take_bit 16 w" by (simp add: take_bit_eq_mask mask_eq_exp_minus_1)
    then have "ucast (ucast (take_bit 16 w) :: u16) = (ucast (0x8086 :: u16) :: u32)" using h by simp
    then show ?thesis by (simp add: unsigned_ucast_eq)
  qed
  have hi: "drop_bit 16 w = 0x100e"
  proof -
    have "take_bit 16 (drop_bit 16 w) = drop_bit 16 w"
      by (rule bit_word_eqI) (auto simp: bit_simps dest: bit_imp_le_length)
    moreover have "ucast (ucast (drop_bit 16 w) :: u16) = (ucast (0x100e :: u16) :: u32)" using h by simp
    ultimately show ?thesis by (simp add: unsigned_ucast_eq)
  qed
  have "w = push_bit 16 (drop_bit 16 w) OR take_bit 16 w" 
    by (rule bit_word_eqI) (auto simp: bit_simps)
  then show "w = 0x100e8086" by (simp add: lo hi)
qed simp

lemma pci_slot_eq:
  assumes "bus < 256" and "slot < 32"
  shows "pci_slot (pci_ports conf) bus slot = (if pci_present conf (bus, slot) then [pci_report conf (bus, slot)] else [])"
proof -
  have "pci_ports conf (pci_reg (of_nat bus) (of_nat slot) 0 0) = conf bus slot 0 0"
    using pci_decode_reg [OF assms, of 0 0] by (simp add: pci_ports_def)
  then show ?thesis by (simp add: pci_slot_def pciconf_read_def pci_present_def pci_report_def Let_def pci_card)
qed

text \<open>
  The program pci-probe.c on hardware that decodes the selected register: the report has one line for
  every bus and slot at which a device answers, in order, with its device and vendor numbers, and
  marks exactly the Intel card.
\<close>

theorem pci_probe_reports:
  "pci_main (pci_ports conf) =
    map (pci_report conf) (filter (pci_present conf) (List.product [0 ..< 256] [0 ..< 32]))"
proof -
  have slots: "concat (map (pci_slot (pci_ports conf) bus) ss) = map (pci_report conf) (filter (pci_present conf) (map (Pair bus) ss))"
    if "bus < 256" "set ss \<subseteq> {..< 32}" for bus ss
    using that by (induction ss) (auto simp: pci_slot_eq)
  have "concat (map (\<lambda>bus. concat (map (pci_slot (pci_ports conf) bus) [0 ..< 32])) bs)
      = map (pci_report conf) (filter (pci_present conf) (List.product bs [0 ..< 32]))" if "set bs \<subseteq> {..< 256}" for bs
    using that
  proof (induction bs)
    case (Cons b bs)
    have "concat (map (pci_slot (pci_ports conf) b) [0 ..< 32]) = map (pci_report conf) (filter (pci_present conf) (map (Pair b) [0 ..< 32]))"
      using Cons.prems by (intro slots) auto
    then show ?case using Cons by simp
  qed simp
  then show ?thesis unfolding pci_main_def by (metis atLeast_upt order_refl)
qed

theorem popcount_counts_witness: "(13 :: u32) < 16 \<and> popcount 13 = of_nat (card {k. bit (13 :: u32) k})"
proof -
  have "(13 :: u32) < 16" by simp
  then show ?thesis using popcount_counts [of 13] by blast
qed

end
