(* ===== verification/Mandelbrot.thy ===== *)
theory Mandelbrot
  imports Prelude "HOL-Library.Multiset"
begin

text \<open>
  The parallel renderer \<^verbatim>\<open>concurrency/mandelbrot.c\<close>. The arithmetic on \<^verbatim>\<open>double\<close> is a parameter
  (a record of operations and of the rounded literals), so that the results hold for any rounding. A worker
  does the pixels of its columns one by one; a run of all workers does their pixels in any
  interleaving. Shown: the number computed for a pixel is the number of steps after which its orbit leaves
  the circle, at most 881; a run computes each column below \<open>NT * (W div NT)\<close> exactly once, so
  that the picture is complete and independent of the interleaving when \<open>NT\<close> divides the width.
\<close>

definition W :: nat where "W = 12800"
definition H :: nat where "H = 12800"

record 'f double_ops =
  mul :: "'f \<Rightarrow> 'f \<Rightarrow> 'f"
  dvide :: "'f \<Rightarrow> 'f \<Rightarrow> 'f"
  add :: "'f \<Rightarrow> 'f \<Rightarrow> 'f"
  sub :: "'f \<Rightarrow> 'f \<Rightarrow> 'f"
  less :: "'f \<Rightarrow> 'f \<Rightarrow> bool"
  of_int_d :: "int \<Rightarrow> 'f"
  lit_1024 :: 'f
  lit_8e_9 :: 'f
  lit_0_645411 :: 'f
  lit_0_356888 :: 'f

definition belongs :: "nat \<Rightarrow> nat \<Rightarrow> nat \<Rightarrow> nat \<Rightarrow> bool" where
  "belongs NT x y t \<longleftrightarrow> x div (W div NT) = t"

text \<open>The condition of the loop on the point, and the step of the point.\<close>

definition inside :: "'f double_ops \<Rightarrow> 'f \<times> 'f \<Rightarrow> bool" where
  "inside F = (\<lambda>(a, b). less F (add F (mul F a a) (mul F b b)) (of_int_d F 4))"

definition orbit_step :: "'f double_ops \<Rightarrow> nat \<Rightarrow> nat \<Rightarrow> 'f \<times> 'f \<Rightarrow> 'f \<times> 'f" where
  "orbit_step F i j = (\<lambda>(a, b).
     let c = mul F a a; d = mul F b b;
         b' = sub F (add F (mul F (mul F (of_int_d F 2) a) b)
                (mul F (dvide F (mul F (of_int_d F (int j)) (lit_1024 F)) (of_int_d F (int H))) (lit_8e_9 F))) (lit_0_645411 F);
         a' = add F (add F (sub F c d)
                (mul F (dvide F (mul F (of_int_d F (int i)) (lit_1024 F)) (of_int_d F (int W))) (lit_8e_9 F))) (lit_0_356888 F)
     in (a', b'))"

text \<open>The loop for one pixel; \<open>n\<close> is its cell, which the test increments in any case.\<close>

function pixel_loop :: "'f double_ops \<Rightarrow> nat \<Rightarrow> nat \<Rightarrow> 'f \<times> 'f \<Rightarrow> nat \<Rightarrow> nat" where
  "pixel_loop F i j p n =
     (if inside F p then if n < 880 then pixel_loop F i j (orbit_step F i j p) (Suc n) else Suc n else n)"
  by auto
termination by (relation "measure (\<lambda>(_, _, _, _, n). 881 - n)") auto

declare pixel_loop.simps [simp del]

type_synonym picture = "nat \<times> nat \<Rightarrow> nat"

definition do_pixel :: "'f double_ops \<Rightarrow> nat \<times> nat \<Rightarrow> picture \<Rightarrow> picture" where
  "do_pixel F ij x = x(ij := pixel_loop F (fst ij) (snd ij) (of_int_d F 0, of_int_d F 0) (x ij))"

text \<open>The pixels of a worker in its order, and the worker: the picture and the count of the workers
  that are done.\<close>

definition jobs :: "nat \<Rightarrow> nat \<Rightarrow> (nat \<times> nat) list" where
  "jobs NT tid = filter (\<lambda>(i, j). belongs NT i j (tid - 1)) (List.product [0 ..< W] [0 ..< H])"

definition Tworker :: "'f double_ops \<Rightarrow> nat \<Rightarrow> nat \<Rightarrow> picture \<times> nat \<Rightarrow> picture \<times> nat" where
  "Tworker F NT tid = (\<lambda>(x, dn). (fold (do_pixel F) (jobs NT tid) x, Suc dn))"

text \<open>The workers one after the other.\<close>

definition render :: "'f double_ops \<Rightarrow> nat \<Rightarrow> picture \<times> nat" where
  "render F NT = fold (Tworker F NT) [1 ..< NT + 1] ((\<lambda>_. 0), 0)"

text \<open>The image file: its header and its pixels, every \<open>step\<close>-th row and column; the colour of a number
  is a parameter (the code uses \<^verbatim>\<open>pow\<close>). A \<open>for\<close> loop with a step of 0 does not end.\<close>

function count_by :: "nat \<Rightarrow> nat \<Rightarrow> nat \<Rightarrow> nat list" where
  "count_by i n step = (if i < n \<and> 0 < step then i # count_by (i + step) n step else [])"
  by auto
termination by (relation "measure (\<lambda>(i, n, step). n - i)") auto

declare count_by.simps [simp del]

definition display :: "(nat \<Rightarrow> u8 \<times> u8 \<times> u8) \<Rightarrow> nat \<Rightarrow> picture \<Rightarrow> (nat \<times> nat) \<times> (u8 \<times> u8 \<times> u8) list" where
  "display colour step x =
     (let w = W div step; h = H div step
      in ((w, h), concat (map (\<lambda>j. map (\<lambda>i. colour (x (i, j))) (count_by 0 W step)) (count_by 0 H step))))"

subsection \<open>One pixel\<close>

definition orbit :: "'f double_ops \<Rightarrow> nat \<Rightarrow> nat \<Rightarrow> nat \<Rightarrow> 'f \<times> 'f" where
  "orbit F i j k = (orbit_step F i j ^^ k) (of_int_d F 0, of_int_d F 0)"

definition escape :: "'f double_ops \<Rightarrow> nat \<Rightarrow> nat \<Rightarrow> nat" where
  "escape F i j = pixel_loop F i j (of_int_d F 0, of_int_d F 0) 0"

lemma pixel_loop_orbit:
  assumes "n \<le> 880"
  shows "(\<exists>k \<le> 880. n \<le> k \<and> \<not> inside F (orbit F i j k) \<and> (\<forall>l. n \<le> l \<and> l < k \<longrightarrow> inside F (orbit F i j l)) \<and>
            pixel_loop F i j (orbit F i j n) n = k) \<or>
     (\<forall>l. n \<le> l \<and> l \<le> 880 \<longrightarrow> inside F (orbit F i j l)) \<and> pixel_loop F i j (orbit F i j n) n = 881"
  using assms
proof (induction "880 - n" arbitrary: n)
  case 0
  then have n: "n = 880" by simp
  have only: "l = 880" if "n \<le> l \<and> l \<le> 880" for l using n that by simp
  have "pixel_loop F i j (orbit F i j n) n = (if inside F (orbit F i j n) then 881 else 880)"
    by (subst pixel_loop.simps) (simp add: n)
  note loop = this
  show ?case
  proof (cases "inside F (orbit F i j n)")
    case True
    then show ?thesis using loop only n by (intro disjI2 conjI allI impI) (metis, simp)
  next
    case False
    then show ?thesis using loop n by (intro disjI1 exI [of _ n] conjI) auto
  qed
next
  case (Suc d)
  then have n: "n < 880" by simp
  show ?case
  proof (cases "inside F (orbit F i j n)")
    case True
    have "orbit_step F i j (orbit F i j n) = orbit F i j (Suc n)" by (simp add: orbit_def)
    then have l: "pixel_loop F i j (orbit F i j n) n = pixel_loop F i j (orbit F i j (Suc n)) (Suc n)"
      using True n by (subst pixel_loop.simps) simp
    have all: "inside F (orbit F i j m)" if "n \<le> m" "Suc n \<le> m \<Longrightarrow> inside F (orbit F i j m)" for m
      using that True by (cases "m = n") auto
    have "Suc n \<le> 880" "d = 880 - Suc n" using n Suc(2) by simp_all
    from Suc(1) [OF this(2,1)] show ?thesis unfolding l
    proof (elim disjE exE conjE)
      fix k assume k: "k \<le> 880" "Suc n \<le> k" "\<not> inside F (orbit F i j k)"
        "\<forall>l. Suc n \<le> l \<and> l < k \<longrightarrow> inside F (orbit F i j l)" "pixel_loop F i j (orbit F i j (Suc n)) (Suc n) = k"
      have "\<forall>l. n \<le> l \<and> l < k \<longrightarrow> inside F (orbit F i j l)" using k(4) all by blast
      then show "(\<exists>k \<le> 880. n \<le> k \<and> \<not> inside F (orbit F i j k) \<and> (\<forall>l. n \<le> l \<and> l < k \<longrightarrow> inside F (orbit F i j l)) \<and>
          pixel_loop F i j (orbit F i j (Suc n)) (Suc n) = k) \<or>
        (\<forall>l. n \<le> l \<and> l \<le> 880 \<longrightarrow> inside F (orbit F i j l)) \<and> pixel_loop F i j (orbit F i j (Suc n)) (Suc n) = 881"
        using k by (intro disjI1 exI [of _ k]) auto
    qed (use all in blast)
  next
    case False
    then have "pixel_loop F i j (orbit F i j n) n = n" by (subst pixel_loop.simps) simp
    then show ?thesis using False n by (intro disjI1 exI [of _ n]) auto
  qed
qed

text \<open>
  The number that mandelbrot.c computes for a pixel: the first step at which its orbit is outside
  the circle if that is within 880 steps, and 881 otherwise, for any arithmetic.
\<close>

theorem mandelbrot_escape:
  "escape F i j = (if \<exists>k \<le> 880. \<not> inside F (orbit F i j k) then LEAST k. \<not> inside F (orbit F i j k) else 881)"
proof -
  have o: "(of_int_d F 0, of_int_d F 0) = orbit F i j 0" by (simp add: orbit_def)
  have "(0 :: nat) \<le> 880" by simp
  from pixel_loop_orbit [OF this, of F i j] show ?thesis
  proof (elim disjE exE conjE)
    fix k assume k: "k \<le> 880" "\<not> inside F (orbit F i j k)" "\<forall>l. 0 \<le> l \<and> l < k \<longrightarrow> inside F (orbit F i j l)"
      "pixel_loop F i j (orbit F i j 0) 0 = k"
    then have "(LEAST k. \<not> inside F (orbit F i j k)) = k" by (intro Least_equality) (auto simp: not_less [symmetric])
    then show ?thesis using k by (auto simp: escape_def o)
  qed (auto simp: escape_def o)
qed

subsection \<open>The picture\<close>

lemma fold_do_pixel:
  "distinct js \<Longrightarrow> fold (do_pixel F) js x ij =
    (if ij \<in> set js then pixel_loop F (fst ij) (snd ij) (of_int_d F 0, of_int_d F 0) (x ij) else x ij)"
proof (induction js arbitrary: x)
  case (Cons a js)
  then show ?case by (auto simp: do_pixel_def)
qed simp

definition all_jobs :: "nat \<Rightarrow> (nat \<times> nat) list" where
  "all_jobs NT = concat (map (jobs NT) [1 ..< NT + 1])"

lemma belongs_range:
  assumes "0 < NT" and "NT \<le> W"
  shows "(\<exists>t < NT. belongs NT i j t) \<longleftrightarrow> i < NT * (W div NT)"
proof -
  have "0 < W div NT" using assms by (simp add: div_greater_zero_iff)
  then show ?thesis by (simp add: belongs_def div_less_iff_less_mult)
qed

lemma set_jobs: "set (jobs NT tid) = {(i, j). i < W \<and> j < H \<and> belongs NT i j (tid - 1)}"
  by (auto simp: jobs_def)

lemma distinct_jobs: "distinct (jobs NT tid)"
  by (simp add: jobs_def distinct_product)

lemma distinct_all_jobs: "distinct (all_jobs NT)"
proof -
  have "distinct (concat (map (jobs NT) ts))" if "distinct ts" "0 \<notin> set ts" for ts
    using that
  proof (induction ts)
    case (Cons t ts)
    have "set (jobs NT t) \<inter> set (jobs NT u) = {}" if "u \<in> set ts" for u
    proof -
      have "u \<noteq> t" "u \<noteq> 0" "t \<noteq> 0" using Cons.prems that by (metis distinct.simps(2) list.set_intros)+
      then show ?thesis by (auto simp: set_jobs belongs_def)
    qed
    then have "set (jobs NT t) \<inter> set (concat (map (jobs NT) ts)) = {}" by auto
    then show ?case using Cons by (simp add: distinct_jobs)
  qed simp
  then show ?thesis by (simp add: all_jobs_def del: upt_Suc)
qed

lemma set_all_jobs:
  assumes "0 < NT" and "NT \<le> W"
  shows "set (all_jobs NT) = {(i, j). i < NT * (W div NT) \<and> j < H}"
proof -
  have le: "NT * (W div NT) \<le> W" by simp
  have "(i, j) \<in> set (all_jobs NT) \<longleftrightarrow> i < NT * (W div NT) \<and> j < H" for i j
  proof -
    have "(i, j) \<in> set (all_jobs NT) \<longleftrightarrow> i < W \<and> j < H \<and> (\<exists>t \<in> {1 ..< NT + 1}. belongs NT i j (t - 1))"
      by (auto simp: all_jobs_def set_jobs simp del: upt_Suc)
    also have "(\<exists>t \<in> {1 ..< NT + 1}. belongs NT i j (t - 1)) \<longleftrightarrow> (\<exists>t < NT. belongs NT i j t)"
    proof
      assume "\<exists>t < NT. belongs NT i j t"
      then obtain t where "t < NT" "belongs NT i j t" by blast
      then show "\<exists>t \<in> {1 ..< NT + 1}. belongs NT i j (t - 1)" by (intro bexI [of _ "Suc t"]) auto
    next
      assume "\<exists>t \<in> {1 ..< NT + 1}. belongs NT i j (t - 1)"
      then obtain t where "1 \<le> t" "t < NT + 1" "belongs NT i j (t - 1)" by auto
      then show "\<exists>t < NT. belongs NT i j t" by (intro exI [of _ "t - 1"]) auto
    qed
    also note belongs_range [OF assms]
    finally show ?thesis using le by (meson less_le_trans)
  qed
  then show ?thesis by auto
qed

text \<open>
  C40: the picture of mandelbrot.c: in whatever order the pixels of the workers are done, every pixel of a column below
  \<^verbatim>\<open>NT * (W / NT)\<close> gets its number and the others stay 0; so the picture is complete exactly
  when the number of threads divides the width.
\<close>

theorem mandelbrot_picture:
  assumes "0 < NT" and "NT \<le> W" and "mset js = mset (all_jobs NT)"
  shows "fold (do_pixel F) js (\<lambda>_. 0) = (\<lambda>(i, j). if i < NT * (W div NT) \<and> j < H then escape F i j else 0) \<and>
    (NT dvd W \<longleftrightarrow> (\<forall>i < W. i < NT * (W div NT)))"
proof -
  have d: "distinct js" using assms(3) distinct_all_jobs by (metis mset_eq_imp_distinct_iff)
  have s: "set js = {(i, j). i < NT * (W div NT) \<and> j < H}"
    using assms(3) set_all_jobs [OF assms(1,2)] by (metis set_mset_mset)
  have "fold (do_pixel F) js (\<lambda>_. 0) = (\<lambda>(i, j). if i < NT * (W div NT) \<and> j < H then escape F i j else 0)"
    by (rule ext) (simp add: fold_do_pixel [OF d] s escape_def split: prod.split)
  moreover have "NT dvd W \<longleftrightarrow> (\<forall>i < W. i < NT * (W div NT))"
  proof
    assume "\<forall>i < W. i < NT * (W div NT)"
    moreover have "W - 1 < W" by (simp add: W_def)
    ultimately have "W \<le> NT * (W div NT)" by fastforce
    then have "NT * (W div NT) = W" by (simp add: le_antisym)
    then show "NT dvd W" by (metis dvd_triv_left)
  qed simp
  ultimately show ?thesis by blast
qed

lemma render_all_jobs: "render F NT = (fold (do_pixel F) (all_jobs NT) (\<lambda>_. 0), NT)"
proof -
  have "fold (Tworker F NT) ts (x, d) = (fold (do_pixel F) (concat (map (jobs NT) ts)) x, d + length ts)" for ts x d
    by (induction ts arbitrary: x d) (simp_all add: Tworker_def)
  then show ?thesis by (simp add: render_def all_jobs_def del: upt_Suc)
qed

lemma length_count_by: "0 < step \<Longrightarrow> length (count_by i (i + k * step) step) = k"
proof (induction k arbitrary: i)
  case 0
  then show ?case by (subst count_by.simps) simp
next
  case (Suc k)
  have "i + Suc k * step = (i + step) + k * step" by simp
  moreover have "count_by i ((i + step) + k * step) step = i # count_by (i + step) ((i + step) + k * step) step"
    using Suc.prems by (subst count_by.simps) simp
  ultimately show ?case using Suc.IH [OF Suc.prems, of "i + step"] by (simp add: add.assoc)
qed

text \<open>The number of pixels written is the number that the header announces, for the two steps that the program
  uses and every other divisor of the width and height.\<close>

theorem display_size:
  assumes "0 < step" and "step dvd W" and "step dvd H" and "display colour step x = ((w, h), px)"
  shows "length px = w * h"
proof -
  have "length (count_by 0 W step) = W div step" "length (count_by 0 H step) = H div step"
    using length_count_by [OF assms(1), of 0 "W div step"] length_count_by [OF assms(1), of 0 "H div step"] assms(2,3)
    by (simp_all add: mult.commute)
  moreover have "length px = (\<Sum>j \<leftarrow> count_by 0 H step. length (count_by 0 W step))"
    using assms(4) by (auto simp: display_def length_concat comp_def)
  ultimately show ?thesis using assms(4) by (simp add: display_def sum_list_triv mult.commute)
qed

theorem display_size_witness: "length (snd (display (\<lambda>_. (0, 0, 0)) 50 (\<lambda>_. 0))) = 256 * 256"
proof -
  have "(50 :: nat) dvd W" "(50 :: nat) dvd H" by (simp_all add: W_def H_def)
  then have "length (snd (display (\<lambda>_. (0, 0, 0)) 50 (\<lambda>_. 0))) = (W div 50) * (H div 50)"
    by (intro display_size [where step = 50 and colour = "\<lambda>_. (0, 0, 0)" and x = "\<lambda>_. 0"]) (simp_all add: display_def)
  then show ?thesis by (simp add: W_def H_def)
qed

text \<open>Exact integer arithmetic, for a run with three threads, which leave the last two columns out.\<close>

definition int_ops :: "int double_ops" where
  "int_ops = \<lparr>mul = (*), dvide = (div), add = (+), sub = (-), less = (<), of_int_d = id, lit_1024 = 1024, lit_8e_9 = 0,
     lit_0_645411 = 1, lit_0_356888 = 0\<rparr>"

theorem mandelbrot_picture_witness:
  "fst (render int_ops 3) (12799, 0) = 0 \<and> fst (render int_ops 3) (12797, 0) = escape int_ops 12797 0"
proof -
  have "3 * (W div 3) = 12798" by (simp add: W_def)
  moreover have "fold (do_pixel int_ops) (all_jobs 3) (\<lambda>_. 0) = (\<lambda>(i, j). if i < 3 * (W div 3) \<and> j < H then escape int_ops i j else 0)"
    using mandelbrot_picture [of 3 "all_jobs 3" int_ops] by (simp add: W_def)
  ultimately show ?thesis by (simp add: render_all_jobs H_def)
qed

end
