(* ===== verification/Posix_Spawn.thy ===== *)
theory Posix_Spawn
  imports Prelude
begin

text \<open>
  \<^verbatim>\<open>virtualization/posix-spawn.c\<close>: options, spawning a child with file actions and attributes, and
  monitoring it. The library is a parameter: \<open>ret n c\<close> is what the \<open>n\<close>-th call of
  the program, \<open>c\<close>, returns; the options as \<^verbatim>\<open>getopt\<close> delivers them and the results of \<^verbatim>\<open>waitpid\<close> are
  lists. The program's state has the two pointers and the calls made so far. Shown: when every call succeeds, which calls are made, what the child gets and
  that it is reported until it has ended; the program stops with failure right after the first call that fails.
\<close>

datatype sp_call =
    File_actions_init | File_actions_addclose int | File_actions_destroy
  | Attr_init | Attr_setflags_SETSIGMASK | Attr_setsigmask_full | Attr_destroy
  | Spawnp "string list" bool bool

record sp_state =
  attrp :: bool
  file_actionsp :: bool
  calls :: "sp_call list"

text \<open>A call and the test of its result: \<open>Inl\<close> is the exit with failure, with the calls made.\<close>

definition checked :: "(nat \<Rightarrow> sp_call \<Rightarrow> int) \<Rightarrow> sp_call \<Rightarrow> sp_state \<Rightarrow> sp_call list + sp_state" where
  "checked ret c st =
     (let cs = calls st @ [c] in if ret (length (calls st)) c \<noteq> 0 then Inl cs else Inr (st\<lparr>calls := cs\<rparr>))"

fun and_then :: "sp_call list + sp_state \<Rightarrow> (sp_state \<Rightarrow> sp_call list + sp_state) \<Rightarrow> sp_call list + sp_state" where
  "and_then (Inl cs) f = Inl cs"
| "and_then (Inr st) f = f st"

definition STDOUT_FILENO :: int where "STDOUT_FILENO = 1"

text \<open>One option, and the loop over the options.\<close>

definition option_case :: "(nat \<Rightarrow> sp_call \<Rightarrow> int) \<Rightarrow> char \<Rightarrow> sp_state \<Rightarrow> sp_call list + sp_state" where
  "option_case ret opt st =
     (if opt = CHR ''c'' then
        and_then (checked ret File_actions_init st) (\<lambda>st.
        and_then (checked ret (File_actions_addclose STDOUT_FILENO) st) (\<lambda>st.
        Inr (st\<lparr>file_actionsp := True\<rparr>)))
      else if opt = CHR ''s'' then
        and_then (checked ret Attr_init st) (\<lambda>st.
        and_then (checked ret Attr_setflags_SETSIGMASK st) (\<lambda>st.
        and_then (checked ret Attr_setsigmask_full st) (\<lambda>st.
        Inr (st\<lparr>attrp := True\<rparr>))))
      else Inr st)"

fun option_loop :: "(nat \<Rightarrow> sp_call \<Rightarrow> int) \<Rightarrow> string \<Rightarrow> sp_state \<Rightarrow> sp_call list + sp_state" where
  "option_loop ret [] st = Inr st"
| "option_loop ret (opt # opts) st = and_then (option_case ret opt st) (option_loop ret opts)"

text \<open>From the options to the printing of the child's number.\<close>

definition spawn_child :: "(nat \<Rightarrow> sp_call \<Rightarrow> int) \<Rightarrow> string \<Rightarrow> string list \<Rightarrow> sp_call list + sp_state" where
  "spawn_child ret opts argv =
     and_then (option_loop ret opts \<lparr>attrp = False, file_actionsp = False, calls = []\<rparr>) (\<lambda>st.
     and_then (checked ret (Spawnp argv (file_actionsp st) (attrp st)) st) (\<lambda>st.
     and_then (if attrp st then checked ret Attr_destroy st else Inr st) (\<lambda>st.
     if file_actionsp st then checked ret File_actions_destroy st else Inr st)))"

text \<open>Monitoring: a result of \<^verbatim>\<open>waitpid\<close> is an error (\<open>None\<close>) or a status; a list that ends before the child does
  leaves the program waiting.\<close>

datatype wstatus = Exited int | Signaled int | Stopped int | Continued

datatype monitor_end = Success | Failure | Waiting

fun ended :: "wstatus \<Rightarrow> bool" where
  "ended (Exited _) = True" | "ended (Signaled _) = True" | "ended (Stopped _) = False" | "ended Continued = False"

fun monitor :: "wstatus option list \<Rightarrow> wstatus list \<times> monitor_end" where
  "monitor [] = ([], Waiting)"
| "monitor (None # ws) = ([], Failure)"
| "monitor (Some w # ws) =
     (if \<not> ended w then let (out, e) = monitor ws in (w # out, e) else ([w], Success))"

text \<open>The whole program: the calls, the statuses reported, and the end.\<close>

definition spawn_main ::
    "(nat \<Rightarrow> sp_call \<Rightarrow> int) \<Rightarrow> string \<Rightarrow> string list \<Rightarrow> wstatus option list \<Rightarrow> sp_call list \<times> wstatus list \<times> monitor_end" where
  "spawn_main ret opts argv ws =
     (case spawn_child ret opts argv of
        Inl cs \<Rightarrow> (cs, [], Failure)
      | Inr st \<Rightarrow> (case monitor ws of (out, e) \<Rightarrow> (calls st, out, e)))"

subsection \<open>The calls as a sequence\<close>

definition option_calls :: "char \<Rightarrow> sp_call list" where
  "option_calls opt =
     (if opt = CHR ''c'' then [File_actions_init, File_actions_addclose STDOUT_FILENO]
      else if opt = CHR ''s'' then [Attr_init, Attr_setflags_SETSIGMASK, Attr_setsigmask_full] else [])"

definition planned :: "string \<Rightarrow> string list \<Rightarrow> sp_call list" where
  "planned opts argv =
     concat (map option_calls opts) @ [Spawnp argv (CHR ''c'' \<in> set opts) (CHR ''s'' \<in> set opts)] @
     (if CHR ''s'' \<in> set opts then [Attr_destroy] else []) @ (if CHR ''c'' \<in> set opts then [File_actions_destroy] else [])"

text \<open>A run of planned calls, up to and including the first that fails, and whether none fails.\<close>

fun exec_calls :: "(nat \<Rightarrow> sp_call \<Rightarrow> int) \<Rightarrow> sp_call list \<Rightarrow> sp_call list \<Rightarrow> sp_call list \<times> bool" where
  "exec_calls ret [] t = (t, True)"
| "exec_calls ret (c # cs) t = (if ret (length t) c \<noteq> 0 then (t @ [c], False) else exec_calls ret cs (t @ [c]))"

lemma exec_calls_append:
  "exec_calls ret (cs @ ds) t = (let (t', ok) = exec_calls ret cs t in if ok then exec_calls ret ds t' else (t', False))"
  by (induction cs arbitrary: t) simp_all

lemma exec_calls_ok: "(\<And>i. i < length cs \<Longrightarrow> ret (length t + i) (cs ! i) = 0) \<Longrightarrow> exec_calls ret cs t = (t @ cs, True)"
proof (induction cs arbitrary: t)
  case (Cons c cs)
  have "ret (length t) c = 0" using Cons.prems [of 0] by simp
  moreover have "ret (length (t @ [c]) + i) (cs ! i) = 0" if "i < length cs" for i using Cons.prems [of "Suc i"] that by simp
  then have "exec_calls ret cs (t @ [c]) = ((t @ [c]) @ cs, True)" by (rule Cons.IH)
  ultimately show ?case by simp
qed simp

lemma exec_calls_fail:
  assumes "k < length cs" and "ret (length t + k) (cs ! k) \<noteq> 0" and "\<And>i. i < k \<Longrightarrow> ret (length t + i) (cs ! i) = 0"
  shows "exec_calls ret cs t = (t @ take (Suc k) cs, False)"
proof -
  have "exec_calls ret (take k cs) t = (t @ take k cs, True)" using assms by (intro exec_calls_ok) simp
  moreover have "cs = take k cs @ cs ! k # drop (Suc k) cs" using assms(1) by (rule id_take_nth_drop)
  ultimately have "exec_calls ret cs t = exec_calls ret (cs ! k # drop (Suc k) cs) (t @ take k cs)"
    using exec_calls_append [of ret "take k cs" "cs ! k # drop (Suc k) cs" t] by simp
  then show ?thesis using assms(1,2) by (simp add: take_Suc_conv_app_nth)
qed

definition result_of :: "sp_call list \<times> bool \<Rightarrow> sp_state \<Rightarrow> sp_call list + sp_state" where
  "result_of r st = (if snd r then Inr (st\<lparr>calls := fst r\<rparr>) else Inl (fst r))"

lemma checked_result: "checked ret c st = result_of (exec_calls ret [c] (calls st)) st"
  by (simp add: checked_def result_of_def)

definition with_option :: "char set \<Rightarrow> sp_state \<Rightarrow> sp_state" where
  "with_option os st = st\<lparr>attrp := attrp st \<or> CHR ''s'' \<in> os, file_actionsp := file_actionsp st \<or> CHR ''c'' \<in> os\<rparr>"

lemma option_case_result:
  "option_case ret opt st = result_of (exec_calls ret (option_calls opt) (calls st)) (with_option {opt} st)"
  by (simp add: option_case_def option_calls_def result_of_def with_option_def checked_def Let_def)

lemma option_loop_result:
  "option_loop ret opts st = result_of (exec_calls ret (concat (map option_calls opts)) (calls st)) (with_option (set opts) st)"
proof (induction opts arbitrary: st)
  case Nil
  show ?case by (simp add: result_of_def with_option_def)
next
  case (Cons opt opts)
  obtain t ok where e: "exec_calls ret (option_calls opt) (calls st) = (t, ok)" by fastforce
  have "with_option (set opts) (with_option {opt} st\<lparr>calls := t\<rparr>) = with_option (set (opt # opts)) st\<lparr>calls := t\<rparr>"
    by (auto simp: with_option_def)
  then have "ok \<Longrightarrow> option_loop ret opts (with_option {opt} st\<lparr>calls := t\<rparr>)
      = result_of (exec_calls ret (concat (map option_calls opts)) t) (with_option (set (opt # opts)) st)"
    using Cons.IH [of "with_option {opt} st\<lparr>calls := t\<rparr>"] by (simp add: result_of_def)
  then show ?case
    by (simp add: option_case_result e exec_calls_append) (simp add: result_of_def)
qed

lemma spawn_child_result:
  "spawn_child ret opts argv = result_of (exec_calls ret (planned opts argv) [])
     \<lparr>attrp = CHR ''s'' \<in> set opts, file_actionsp = CHR ''c'' \<in> set opts, calls = []\<rparr>"
proof -
  obtain t ok where e: "exec_calls ret (concat (map option_calls opts)) [] = (t, ok)" by fastforce
  show ?thesis
    by (simp add: spawn_child_def planned_def exec_calls_append option_loop_result e)
      (simp add: result_of_def with_option_def checked_def Let_def)
qed

lemma monitor_reports:
  "(\<And>r. r \<in> set rs \<Longrightarrow> \<not> ended r) \<Longrightarrow> ended w \<Longrightarrow> monitor (map Some rs @ Some w # ws) = (rs @ [w], Success)"
  by (induction rs) auto

text \<open>
  Posix-spawn.c when every call succeeds: the calls are those of the options in their order, one
  spawn whose child gets the file action closing its standard output exactly if \<^verbatim>\<open>-c\<close> was given and the full signal mask exactly if
  \<^verbatim>\<open>-s\<close> was given, and the destruction of what was created; then every status of the child is
  reported, up to and including the one with which it ends, and the program ends with success.
\<close>

theorem spawn_success:
  assumes "\<forall>n c. ret n c = 0" and "\<forall>r \<in> set rs. \<not> ended r" and "ended w"
  shows "spawn_main ret opts argv (map Some rs @ Some w # ws) =
    (concat (map option_calls opts) @ [Spawnp argv (CHR ''c'' \<in> set opts) (CHR ''s'' \<in> set opts)] @
      (if CHR ''s'' \<in> set opts then [Attr_destroy] else []) @ (if CHR ''c'' \<in> set opts then [File_actions_destroy] else []),
     rs @ [w], Success)"
proof -
  have "exec_calls ret (planned opts argv) [] = (planned opts argv, True)"
    using assms(1) exec_calls_ok [of "planned opts argv" ret "[]"] by simp
  then show ?thesis using assms(2,3)
    by (simp add: spawn_main_def spawn_child_result result_of_def monitor_reports) (simp add: planned_def)
qed

text \<open>
  posix-spawn.c when a call fails: the first call of the plan that does not return 0 is the last one made, no status
  is reported, and the program ends with failure.
\<close>

theorem spawn_failure:
  assumes "k < length (planned opts argv)" and "ret k (planned opts argv ! k) \<noteq> 0"
    and "\<forall>i < k. ret i (planned opts argv ! i) = 0"
  shows "spawn_main ret opts argv ws = (take (Suc k) (planned opts argv), [], Failure)"
proof -
  have "exec_calls ret (planned opts argv) [] = (take (Suc k) (planned opts argv), False)"
    using exec_calls_fail [of k "planned opts argv" ret "[]"] assms by simp
  then show ?thesis by (simp add: spawn_main_def spawn_child_result result_of_def)
qed

theorem spawn_success_witness:
  "spawn_main (\<lambda>_ _. 0) ''cs'' [''date''] [Some (Stopped 19), Some Continued, Some (Exited 0)] =
    ([File_actions_init, File_actions_addclose 1, Attr_init, Attr_setflags_SETSIGMASK, Attr_setsigmask_full,
      Spawnp [''date''] True True, Attr_destroy, File_actions_destroy], [Stopped 19, Continued, Exited 0], Success)"
  using spawn_success [of "\<lambda>_ _. 0" "[Stopped 19, Continued]" "Exited 0" "''cs''" "[''date'']" "[]"]
  by (simp add: STDOUT_FILENO_def option_calls_def)

theorem spawn_failure_witness:
  "spawn_main (\<lambda>n _. if n = 0 then 12 else 0) ''c'' [''date''] [] = ([File_actions_init], [], Failure)"
  using spawn_failure [of 0 "''c''" "[''date'']" "\<lambda>n _. if n = 0 then 12 else 0" "[]"] by (simp add: planned_def option_calls_def)

end
