(* ===== verification/Fork_Demos.thy ===== *)
theory Fork_Demos
  imports Prelude
begin

text \<open>
  What a process inherits at a \<^verbatim>\<open>fork\<close>: \<^verbatim>\<open>virtualization/fork-demo.c\<close> (the control state),
  \<^verbatim>\<open>fork-printf.c\<close> (the output buffer of the C library) and \<^verbatim>\<open>fork-offset.c\<close> (the open file with
  its offset). The outputs of the processes of a tree are collected parent first; their real order
  is that of the scheduler, and the statements do not depend on it. Shown: how many lines the first two print, on a
  terminal and into a file, and that the two writes of the third do not overwrite each other.
\<close>

subsection \<open>fork-demo.c\<close>

text \<open>The lines printed by a process with \<open>k\<close> forks to come; a result is \<open>True\<close> where \<^verbatim>\<open>fork\<close> returned 0.\<close>

fun fork_lines :: "nat \<Rightarrow> bool list \<Rightarrow> bool list list" where
  "fork_lines 0 pids = [pids]"
| "fork_lines (Suc k) pids = fork_lines k (pids @ [False]) @ fork_lines k (pids @ [True])"

definition fork_demo :: "bool list list" where
  "fork_demo = fork_lines 3 []"

lemma set_fork_lines: "set (fork_lines k pids) = {pids @ qs |qs. length qs = k}"
proof (induction k arbitrary: pids)
  case (Suc k)
  have "(\<exists>qs. l = pids @ qs \<and> length qs = Suc k) \<longleftrightarrow> (\<exists>b qs. l = pids @ b # qs \<and> length qs = k)" for l
    by (metis length_Suc_conv)
  then show ?case using Suc by (auto simp: all_bool_eq)
qed simp

lemma length_fork_lines: "length (fork_lines k pids) = 2 ^ k"
  by (induction k arbitrary: pids) simp_all

text \<open>
  The three forks of fork-demo.c make eight processes, and each combination of being the
  parent or the child at the three forks is printed exactly once.
\<close>

theorem fork_demo_lines: "length fork_demo = 8 \<and> distinct fork_demo \<and> set fork_demo = {pids. length pids = 3}"
proof -
  have s: "set fork_demo = {pids. length pids = 3}" by (simp add: fork_demo_def set_fork_lines)
  have l: "length fork_demo = 8" by (simp add: fork_demo_def length_fork_lines)
  have "card (set fork_demo) = card {pids :: bool list. set pids \<subseteq> UNIV \<and> length pids = 3}" by (simp add: s)
  also have "\<dots> = 2 ^ 3" by (subst card_lists_length_eq) (simp_all add: card_UNIV_bool)
  finally have "distinct fork_demo" by (intro card_distinct) (simp add: l)
  with s l show ?thesis by blast
qed

subsection \<open>fork-printf.c\<close>

text \<open>The line \<^verbatim>\<open>Hello\<close>, when \<open>b\<close> lines wait in the buffer of the process: the writes it causes, and the buffer afterwards. On a
  terminal the buffer is written at the end of a line, else when the process ends.\<close>

definition printf_hello :: "bool \<Rightarrow> nat \<Rightarrow> nat list \<times> nat" where
  "printf_hello tty b = (if tty then ([b + 1], 0) else ([], b + 1))"

text \<open>The writes of a process and its descendants, with \<open>k\<close> rounds of the loop to come.\<close>

fun fork_printf :: "bool \<Rightarrow> nat \<Rightarrow> nat \<Rightarrow> nat list" where
  "fork_printf tty 0 b = (if b = 0 then [] else [b])"
| "fork_printf tty (Suc k) b =
     (let (out, b) = printf_hello tty b in (out @ fork_printf tty k b) @ (out @ fork_printf tty k b))"

lemma fork_printf_tty: "sum_list (fork_printf True k 0) + 2 = 2 ^ Suc k"
  by (induction k) (simp_all add: printf_hello_def)

lemma fork_printf_file: "sum_list (fork_printf False k b) = 2 ^ k * (b + k)"
  by (induction k arbitrary: b) (simp_all add: printf_hello_def algebra_simps)

text \<open>
  fork-printf.c with \<open>n\<close> rounds prints its line \<open>2 ^ (n + 1) - 2\<close> times on a terminal, but
  \<open>n * 2 ^ n\<close> times into a file or a pipe, since the lines that wait in the buffer are copied at each fork;
  with the two rounds of the program that is 6 and 8.
\<close>

theorem fork_printf_counts:
  "sum_list (fork_printf True n 0) = 2 ^ (n + 1) - 2 \<and> sum_list (fork_printf False n 0) = n * 2 ^ n \<and>
   sum_list (fork_printf True 2 0) = 6 \<and> sum_list (fork_printf False 2 0) = 8"
  using fork_printf_tty [of n] fork_printf_file [of n 0] fork_printf_tty [of 2] fork_printf_file [of 2 0]
  by (simp add: mult.commute)

subsection \<open>fork-offset.c\<close>

text \<open>The open file that parent and child share: its bytes and the offset.\<close>

record open_file =
  content :: string
  offset :: nat

definition write_file :: "string \<Rightarrow> open_file \<Rightarrow> open_file" where
  "write_file s f = f\<lparr>content := take (offset f) (content f) @ s @ drop (offset f + length s) (content f), offset := offset f + length s\<rparr>"

text \<open>The two processes write in one order or in the other.\<close>

definition fork_offset :: "bool \<Rightarrow> string \<Rightarrow> open_file" where
  "fork_offset child_first old =
     (let f = \<lparr>content = old, offset = 0\<rparr>
      in if child_first then write_file ''World'' (write_file ''Hello'' f) else write_file ''Hello'' (write_file ''World'' f))"

text \<open>
  Whichever of the two processes of fork-offset.c writes first, both words are in the file, one
  after the other, and what the file had beyond them is kept.
\<close>

theorem fork_offset_both:
  "content (fork_offset child_first old) = (if child_first then ''HelloWorld'' else ''WorldHello'') @ drop 10 old"
  by (simp add: fork_offset_def write_file_def numeral_eq_Suc)

end
