(* ===== verification/Dl_Format.thy ===== *)
theory Dl_Format
  imports Dlbox
begin

text \<open>
  The file format of the dynamic linker: the assembler macros of \<^verbatim>\<open>dl/dl.h\<close> as an
  encoder from a library source (the records it declares, the labels of its code, the bytes
  of its code) to the bytes of the \<^verbatim>\<open>.dl\<close> file, and the way \<^verbatim>\<open>dlopen\<close>
  reads such a file back through \<open>struct dl_hdr\<close> and \<open>struct symbol\<close>. Shown: reading an
  assembled file gives exactly the header and the records that were declared, although the
  linker writes its own two pointers between them; a name of 23 to 31 characters, which the
  macros accept, hides all the records after its own; and loading the three libraries of the
  directory, assembled by the macros, ends with every import bound and \<open>main\<close> found.
\<close>

subsection \<open>Bytes\<close>

text \<open>\<^verbatim>\<open>.4byte\<close> and \<^verbatim>\<open>.8byte\<close> on a little-endian machine, and reading them back.\<close>

fun le_bytes :: "nat \<Rightarrow> nat \<Rightarrow> string" where
  "le_bytes 0 v = []"
| "le_bytes (Suc n) v = char_of (v mod 256) # le_bytes n (v div 256)"

fun of_le :: "string \<Rightarrow> nat" where
  "of_le [] = 0"
| "of_le (c # cs) = of_char c + 256 * of_le cs"

lemma length_le_bytes [simp]: "length (le_bytes n v) = n"
  by (induction n v rule: le_bytes.induct) auto

lemma of_le_bytes: "of_le (le_bytes n v) = v mod 256 ^ n"
  by (induction n v rule: le_bytes.induct) (simp_all add: mod_mult2_eq)

text \<open>\<^verbatim>\<open>.align n, 0\<close>\<close>

definition padding :: "nat \<Rightarrow> nat \<Rightarrow> nat" where
  "padding n l = (n - l mod n) mod n"

definition align :: "nat \<Rightarrow> string \<Rightarrow> string" where
  "align n out = out @ replicate (padding n (length out)) NUL"

lemma padding_dvd: "0 < n \<Longrightarrow> n dvd l + padding n l"
proof -
  assume n: "0 < n"
  have "(l + padding n l) mod n = (l mod n + (n - l mod n)) mod n" by (simp add: padding_def mod_simps)
  also have "l mod n + (n - l mod n) = n" using n by (simp add: less_imp_le)
  finally show ?thesis by (simp add: dvd_eq_mod_eq_0)
qed

lemma length_align_dvd: "0 < n \<Longrightarrow> n dvd length (align n out)"
  by (simp add: align_def padding_dvd)

lemma padding_add_dvd: "n dvd k \<Longrightarrow> padding n (k + l) = padding n l"
  by (auto simp: padding_def mod_add_eq [symmetric, of k l])

lemma padding_dvd_0 [simp]: "n dvd l \<Longrightarrow> padding n l = 0"
  by (auto simp: padding_def)

lemma padding_rest: "n dvd k \<Longrightarrow> 0 < a \<Longrightarrow> a \<le> n \<Longrightarrow> padding n (k + a) = n - a"
  by (cases "a = n") (simp_all add: padding_add_dvd, simp add: padding_def)

lemma align_append: "n dvd length xs \<Longrightarrow> align n (xs @ ys) = xs @ align n ys"
  by (simp add: align_def padding_add_dvd)

subsection \<open>The macros\<close>

datatype decl = IMPORT string | EXPORT string | LOAD string

text \<open>A source file: the declarations between \<open>DL_HEAD\<close> and \<open>DL_CODE\<close>, the labels of the code
  with their distance from \<open>__code\<close>, and the assembled code up to \<open>DL_END\<close>.\<close>

record dlsrc =
  decls :: "decl list"
  labels :: "(string \<times> nat) list"
  code :: string

text \<open>\<open>RECORD\<close> after its alignment.\<close>

definition RECORD :: "nat \<Rightarrow> string \<Rightarrow> string" where
  "RECORD off name = le_bytes 8 off @ name"

fun decl_name :: "decl \<Rightarrow> string" where
  "decl_name (IMPORT s) = CHR ''?'' # s @ [NUL]"
| "decl_name (EXPORT s) = CHR ''#'' # s @ [NUL]"
| "decl_name (LOAD l) = CHR ''+'' # l @ [NUL]"

fun decl_off :: "(string \<rightharpoonup> nat) \<Rightarrow> decl \<Rightarrow> nat" where
  "decl_off lab (IMPORT s) = 0"
| "decl_off lab (EXPORT s) = (case lab s of Some a \<Rightarrow> a | None \<Rightarrow> 0)"
| "decl_off lab (LOAD l) = 0"

fun emit :: "(string \<rightharpoonup> nat) \<Rightarrow> decl list \<Rightarrow> string \<Rightarrow> string" where
  "emit lab [] out = out"
| "emit lab (d # ds) out = emit lab ds (align REC_SZ out @ RECORD (decl_off lab d) (decl_name d))"

text \<open>The first pass of the assembler: the position after the records, and the labels that
  \<open>IMPORT\<close> puts on its records.\<close>

fun recs_end :: "decl list \<Rightarrow> nat \<Rightarrow> nat" where
  "recs_end [] l = l"
| "recs_end (d # ds) l = recs_end ds (l + padding REC_SZ l + 8 + length (decl_name d))"

fun import_labels :: "decl list \<Rightarrow> nat \<Rightarrow> (string \<times> nat) list" where
  "import_labels [] l = []"
| "import_labels (d # ds) l =
     (case d of IMPORT s \<Rightarrow> [(s, l + padding REC_SZ l)] | _ \<Rightarrow> []) @
     import_labels ds (l + padding REC_SZ l + 8 + length (decl_name d))"

definition code_start :: "dlsrc \<Rightarrow> nat" where
  "code_start s = (let l = recs_end (decls s) sizeof_hdr + (REC_SZ - 1) in l + padding REC_SZ l)"

definition all_labels :: "dlsrc \<Rightarrow> (string \<times> nat) list" where
  "all_labels s = import_labels (decls s) sizeof_hdr @ map (\<lambda>(n, a). (n, code_start s + a)) (labels s)"

definition DL_HEAD :: "nat \<Rightarrow> nat \<Rightarrow> string" where
  "DL_HEAD fsz co = DL_MAGIC @ le_bytes 4 fsz @ le_bytes 4 co"

definition DL_CODE :: "string \<Rightarrow> string" where
  "DL_CODE out = align REC_SZ (out @ replicate (REC_SZ - 1) NUL)"

text \<open>A label that is defined twice, or exported without being defined, is refused.\<close>

definition assemble :: "dlsrc \<Rightarrow> string option" where
  "assemble s =
     (let lab = map_of (all_labels s); co = code_start s
      in if distinct (map fst (all_labels s)) \<and> (\<forall>d \<in> set (decls s). case d of EXPORT n \<Rightarrow> lab n \<noteq> None | _ \<Rightarrow> True)
         then Some (DL_CODE (emit lab (decls s) (DL_HEAD (co + length (code s)) co)) @ code s)
         else None)"

subsection \<open>Reading a file\<close>

text \<open>A C string in memory that ends with the last mapped byte; \<open>None\<close> is an access beyond it.\<close>

fun c_string :: "string \<Rightarrow> string option" where
  "c_string [] = None"
| "c_string (c # cs) = (if c = NUL then Some [] else map_option (Cons c) (c_string cs))"

definition read_hdr :: "string \<Rightarrow> dl_hdr" where
  "read_hdr b = \<lparr>magic = take 4 b, file_sz = of_nat (of_le (take 4 (drop 4 b))), code_off = of_nat (of_le (take 4 (drop 8 b)))\<rparr>"

definition read_symbol :: "string \<Rightarrow> symbol option" where
  "read_symbol m = map_option (\<lambda>n. \<lparr>offset = of_nat (of_le (take 8 m)), stype = m ! 8, sname = n\<rparr>) (c_string (drop 9 m))"

text \<open>The records from \<open>sym\<close>, the first byte of \<open>m\<close>, to the one of type 0.\<close>

function read_tab :: "string \<Rightarrow> symbol list option" where
  "read_tab m =
     (if length m \<le> 8 then None
      else if m ! 8 = NUL then Some []
      else case read_symbol m of
             None \<Rightarrow> None
           | Some s \<Rightarrow> map_option (Cons s) (read_tab (drop REC_SZ m)))"
  by pat_completeness auto
termination by (relation "measure length") (auto simp: REC_SZ_def)

declare read_tab.simps [simp del]

text \<open>\<open>mmap\<close> of \<open>sz\<close> bytes: whole pages, filled with zeros behind the end of the file, but not
  beyond its last page.\<close>

definition pages :: "nat \<Rightarrow> nat" where
  "pages n = n + padding 4096 n"

definition map_pages :: "nat \<Rightarrow> string \<Rightarrow> string" where
  "map_pages sz b = take (pages sz) (align 4096 b)"

text \<open>The assignments to \<^verbatim>\<open>h->symtab\<close> and \<^verbatim>\<open>h->path\<close>, at the offsets 16 and
  24 of the mapped file.\<close>

definition borrow :: "u64 \<Rightarrow> u64 \<Rightarrow> string \<Rightarrow> string" where
  "borrow h pathp m = take 16 m @ le_bytes 8 (unat (h + of_nat REC_SZ)) @ le_bytes 8 (unat pathp) @ drop 32 m"

definition open_file :: "int \<Rightarrow> u64 \<Rightarrow> u64 \<Rightarrow> string \<Rightarrow> file_reply option" where
  "open_file fd h pathp b =
     map_option (\<lambda>t. \<lparr>r_fd = fd, r_nread = int (min sizeof_hdr (length b)), r_hdr = read_hdr b, r_map = h, r_tab = t\<rparr>)
       (read_tab (drop REC_SZ (borrow h pathp (map_pages (unat (file_sz (read_hdr b))) b))))"

subsection \<open>The round trip\<close>

text \<open>The type and the name a declaration stands for, and the declared record.\<close>

fun decl_type :: "decl \<Rightarrow> char" where
  "decl_type (IMPORT s) = CHR ''?''"
| "decl_type (EXPORT s) = CHR ''#''"
| "decl_type (LOAD l) = CHR ''+''"

fun decl_sym :: "decl \<Rightarrow> string" where
  "decl_sym (IMPORT s) = s"
| "decl_sym (EXPORT s) = s"
| "decl_sym (LOAD l) = l"

definition declared :: "(string \<rightharpoonup> nat) \<Rightarrow> decl \<Rightarrow> symbol" where
  "declared lab d = \<lparr>offset = of_nat (decl_off lab d), stype = decl_type d, sname = decl_sym d\<rparr>"

definition name_ok :: "nat \<Rightarrow> decl \<Rightarrow> bool" where
  "name_ok n d \<longleftrightarrow> NUL \<notin> set (decl_sym d) \<and> length (decl_sym d) \<le> n"

lemma decl_name_eq: "decl_name d = decl_type d # decl_sym d @ [NUL]"
  by (cases d) simp_all

lemma decl_type_nz [simp]: "decl_type d \<noteq> NUL"
  by (cases d) simp_all

lemma length_RECORD [simp]: "length (RECORD off (decl_name d)) = 10 + length (decl_sym d)"
  by (simp add: RECORD_def decl_name_eq)

lemma RECORD_cong_u64: "(of_nat (of_le (le_bytes 8 v)) :: u64) = of_nat v"
  by (simp add: of_le_bytes unsigned_of_nat word_of_nat_eq_iff take_bit_eq_mod)

lemma c_string_append: "NUL \<notin> set n \<Longrightarrow> c_string (n @ NUL # rest) = Some n"
  by (induction n) auto

lemma read_symbol_RECORD:
  "NUL \<notin> set (decl_sym d) \<Longrightarrow> read_symbol (RECORD (decl_off lab d) (decl_name d) @ rest) = Some (declared lab d)"
  by (simp add: read_symbol_def RECORD_def decl_name_eq declared_def c_string_append RECORD_cong_u64 nth_append)

lemma read_tab_RECORD:
  assumes "NUL \<notin> set (decl_sym d)"
  shows "read_tab (RECORD (decl_off lab d) (decl_name d) @ rest) =
    map_option (Cons (declared lab d)) (read_tab (drop REC_SZ (RECORD (decl_off lab d) (decl_name d) @ rest)))"
proof -
  have "(RECORD (decl_off lab d) (decl_name d) @ rest) ! 8 \<noteq> NUL"
    by (simp add: RECORD_def decl_name_eq nth_append)
  then show ?thesis
    by (subst read_tab.simps) (simp add: read_symbol_RECORD [OF assms])
qed

lemma read_tab_stop: "8 < length m \<Longrightarrow> m ! 8 = NUL \<Longrightarrow> read_tab m = Some []"
  by (simp add: read_tab.simps)

text \<open>What is emitted after \<open>out\<close> comes after \<open>out\<close> and its padding.\<close>

lemma DL_CODE_pad: "padding REC_SZ (length out) \<le> 31 + padding REC_SZ (length out + 31)"
  by (simp add: padding_def REC_SZ_def)

lemma DL_CODE_base: "\<exists>k. DL_CODE out = align REC_SZ out @ replicate k NUL"
proof -
  have "DL_CODE out = out @ replicate (31 + padding REC_SZ (length out + 31)) NUL"
    by (simp add: DL_CODE_def align_def REC_SZ_def replicate_add [symmetric])
  also have "31 + padding REC_SZ (length out + 31) =
      padding REC_SZ (length out) + (31 + padding REC_SZ (length out + 31) - padding REC_SZ (length out))"
    using DL_CODE_pad [of out] by simp
  finally have "DL_CODE out = align REC_SZ out @ replicate (31 + padding REC_SZ (length out + 31) - padding REC_SZ (length out)) NUL"
    by (simp only: replicate_add align_def append_assoc)
  then show ?thesis by blast
qed

lemma emit_prefix: "\<exists>rest. DL_CODE (emit lab ds out) = align REC_SZ out @ rest"
proof (induction lab ds out rule: emit.induct)
  case (1 lab out)
  then show ?case using DL_CODE_base [of out] by auto
next
  case (2 lab d ds out)
  then show ?case
    by (auto simp: align_append length_align_dvd REC_SZ_def)
qed

lemma DL_CODE_zeros:
  assumes "length out mod 32 \<noteq> 1"
  shows "DL_CODE out = align REC_SZ out @ replicate REC_SZ NUL"
proof -
  obtain k where k: "DL_CODE out = align REC_SZ out @ replicate k NUL" using DL_CODE_base by blast
  have "31 + padding 32 (length out + 31) = padding 32 (length out) + 32"
  proof (cases "32 dvd length out")
    case True
    then show ?thesis by (simp add: padding_rest)
  next
    case False
    define q r where "q = 32 * (length out div 32)" and "r = length out mod 32"
    have l: "length out = q + r" "32 dvd q" by (simp_all add: q_def r_def)
    have "r \<noteq> 0" "r < 32" using False by (simp_all add: r_def mod_eq_0_iff_dvd)
    then have r: "2 \<le> r" "r < 32" using assms by (simp_all add: r_def)
    have "padding 32 (q + r) = 32 - r" "padding 32 (q + 32 + (r - 1)) = 32 - (r - 1)"
      using padding_rest [of 32 q r] padding_rest [of 32 "q + 32" "r - 1"] r l(2) by auto
    moreover have "length out + 31 = q + 32 + (r - 1)" using l r by simp
    ultimately show ?thesis using l r by (simp add: ac_simps)
  qed
  then have "k = 32" using arg_cong [OF k, of length] by (simp add: DL_CODE_def align_def REC_SZ_def)
  with k show ?thesis by (simp add: REC_SZ_def)
qed

text \<open>Behind a record whose name has at most 22 characters comes the next slot.\<close>

lemma drop_RECORD:
  assumes "length (decl_sym d) \<le> 22" "r = RECORD (decl_off lab d) (decl_name d)"
    and "DL_CODE (emit lab ds (align REC_SZ out @ r)) = align REC_SZ (align REC_SZ out @ r) @ rest"
  shows "drop REC_SZ (drop (length (align REC_SZ out)) (DL_CODE (emit lab ds (align REC_SZ out @ r)) @ tail)) =
    drop (length (align REC_SZ (align REC_SZ out @ r))) (DL_CODE (emit lab ds (align REC_SZ out @ r)) @ tail)"
proof -
  have "length (align REC_SZ (align REC_SZ out @ r)) = REC_SZ + length (align REC_SZ out)"
    using assms(1,2) by (simp add: align_append length_align_dvd REC_SZ_def)
      (use assms(1) padding_rest [of 32 0 "10 + length (decl_sym d)"] in \<open>simp add: align_def\<close>)
  then show ?thesis by (simp add: drop_drop del: drop_append)
qed

lemma emit_read_Cons:
  assumes "name_ok 22 d"
  shows "read_tab (drop (length (align REC_SZ out)) (DL_CODE (emit lab (d # ds) out) @ tail)) =
    map_option (Cons (declared lab d))
      (read_tab (drop (length (align REC_SZ (align REC_SZ out @ RECORD (decl_off lab d) (decl_name d))))
        (DL_CODE (emit lab ds (align REC_SZ out @ RECORD (decl_off lab d) (decl_name d))) @ tail)))"
proof -
  let ?r = "RECORD (decl_off lab d) (decl_name d)" and ?out = "align REC_SZ out @ RECORD (decl_off lab d) (decl_name d)"
  have d: "NUL \<notin> set (decl_sym d)" "length (decl_sym d) \<le> 22" using assms by (simp_all add: name_ok_def)
  obtain rest where rest: "DL_CODE (emit lab ds ?out) = align REC_SZ ?out @ rest" using emit_prefix by blast
  obtain rest' where rest': "drop (length (align REC_SZ out)) (DL_CODE (emit lab ds ?out) @ tail) = ?r @ rest'"
    using rest by (simp add: align_append length_align_dvd REC_SZ_def) (simp add: align_def)
  have "read_tab (?r @ rest') = map_option (Cons (declared lab d)) (read_tab (drop REC_SZ (?r @ rest')))"
    by (rule read_tab_RECORD [OF d(1)])
  also have "drop REC_SZ (?r @ rest') = drop (length (align REC_SZ ?out)) (DL_CODE (emit lab ds ?out) @ tail)"
    unfolding rest' [symmetric] using drop_RECORD [OF d(2) refl rest] by simp
  finally show ?thesis using rest' by simp
qed

lemma emit_read:
  assumes "list_all (name_ok 22) ds" "length out mod 32 \<noteq> 1"
  shows "read_tab (drop (length (align REC_SZ out)) (DL_CODE (emit lab ds out) @ tail)) = Some (map (declared lab) ds)"
  using assms
proof (induction lab ds out rule: emit.induct)
  case (1 lab out)
  then show ?case by (auto simp: DL_CODE_zeros nth_append REC_SZ_def intro: read_tab_stop)
next
  case (2 lab d ds out)
  obtain q where "length (align REC_SZ out) = 32 * q" using length_align_dvd [of REC_SZ out] by (auto simp: REC_SZ_def)
  moreover have "length (decl_sym d) \<le> 22" using "2.prems" by (simp add: name_ok_def)
  ultimately have "length (align REC_SZ out @ RECORD (decl_off lab d) (decl_name d)) mod 32 \<noteq> 1"
    by (cases "length (decl_sym d) = 22") simp_all
  then show ?case using 2 emit_read_Cons [of d out lab ds tail] by simp
qed

text \<open>A longer name reaches into the next slot, which then is the end of the table.\<close>

lemma emit_read_long:
  assumes "list_all (name_ok 22) ds1" "name_ok 31 d" "22 < length (decl_sym d)"
  shows "read_tab (drop (length (align REC_SZ out)) (DL_CODE (emit lab (ds1 @ d # ds2) out) @ tail)) =
    Some (map (declared lab) (ds1 @ [d]))"
  using assms(1)
proof (induction ds1 arbitrary: out)
  case Nil
  let ?r = "RECORD (decl_off lab d) (decl_name d)"
  have d: "NUL \<notin> set (decl_sym d)" "length (decl_sym d) \<le> 31" using assms(2) by (simp_all add: name_ok_def)
  obtain rest where rest: "DL_CODE (emit lab ds2 (align REC_SZ out @ ?r)) = align REC_SZ (align REC_SZ out @ ?r) @ rest"
    using emit_prefix by blast
  have "padding 32 (32 + (length (decl_sym d) - 22)) = 32 - (length (decl_sym d) - 22)"
    by (rule padding_rest) (use d assms(3) in auto)
  then have pad: "padding 32 (10 + length (decl_sym d)) = 54 - length (decl_sym d)" using assms(3) by simp
  define m where "m = ?r @ replicate (54 - length (decl_sym d)) NUL @ (rest @ tail)"
  have m: "drop (length (align REC_SZ out)) (DL_CODE (emit lab (d # ds2) out) @ tail) = m"
    using rest pad by (simp add: m_def align_append length_align_dvd REC_SZ_def) (simp add: align_def)
  have "m ! 40 = NUL" "40 < length m"
    using d assms(3) by (auto simp: m_def RECORD_def decl_name_eq nth_append nth_Cons')
  then have "read_tab (drop REC_SZ m) = Some []" by (intro read_tab_stop) (simp_all add: REC_SZ_def)
  moreover have "read_tab m = map_option (Cons (declared lab d)) (read_tab (drop REC_SZ m))"
    unfolding m_def by (rule read_tab_RECORD [OF d(1)])
  ultimately show ?case using m by simp
next
  case (Cons e ds1)
  then show ?case using emit_read_Cons [of e out lab "ds1 @ d # ds2" tail] by simp
qed

lemma recs_end_emit: "recs_end ds (length out) = length (emit lab ds out)"
proof (induction lab ds out rule: emit.induct)
  case (2 lab d ds out)
  then show ?case by (simp add: align_def RECORD_def add.assoc)
qed simp

lemma length_DL_HEAD [simp]: "length (DL_HEAD fsz co) = 12"
  by (simp add: DL_HEAD_def DL_MAGIC_def)

lemma length_DL_CODE:
  "length (DL_CODE (emit lab (decls s) (DL_HEAD fsz co))) = code_start s"
  using recs_end_emit [of "decls s" "DL_HEAD fsz co" lab]
  by (simp add: DL_CODE_def code_start_def align_def sizeof_hdr_def REC_SZ_def Let_def)

lemma read_hdr_DL_HEAD:
  "fsz < 2 ^ 32 \<Longrightarrow> co < 2 ^ 32 \<Longrightarrow>
   read_hdr (DL_HEAD fsz co @ rest) = \<lparr>magic = DL_MAGIC, file_sz = of_nat fsz, code_off = of_nat co\<rparr>"
  by (simp add: read_hdr_def DL_HEAD_def DL_MAGIC_def of_le_bytes)

lemma align_DL_HEAD: "align REC_SZ (DL_HEAD fsz co) = DL_HEAD fsz co @ replicate 20 NUL"
  by (simp add: align_def padding_def REC_SZ_def)

lemma map_pages_all: "map_pages (length b) b = b @ replicate (padding 4096 (length b)) NUL"
  by (simp add: map_pages_def align_def pages_def)

lemma drop_borrow: "16 \<le> length m \<Longrightarrow> drop REC_SZ (borrow h pathp m) = drop 32 m"
  by (simp add: borrow_def REC_SZ_def)

text \<open>What an assembled file looks like from its start.\<close>

lemma assemble_shape:
  assumes "assemble s = Some b" "lab = map_of (all_labels s)"
  obtains rest where "b = DL_HEAD (length b) (code_start s) @ replicate 20 NUL @ rest"
    and "b = DL_CODE (emit lab (decls s) (DL_HEAD (length b) (code_start s))) @ code s"
    and "length b = code_start s + length (code s)"
proof -
  let ?H = "DL_HEAD (code_start s + length (code s)) (code_start s)"
  have b: "b = DL_CODE (emit lab (decls s) ?H) @ code s"
    using assms by (auto simp: assemble_def Let_def split: if_splits)
  have l: "length b = code_start s + length (code s)" by (simp add: b length_DL_CODE)
  obtain rest where "DL_CODE (emit lab (decls s) ?H) = align REC_SZ ?H @ rest" using emit_prefix by blast
  then have "b = ?H @ replicate 20 NUL @ (rest @ code s)" by (simp add: b align_DL_HEAD)
  then show thesis using that b l by metis
qed

lemma length_assemble: "assemble s = Some b \<Longrightarrow> length b = code_start s + length (code s)"
  using assemble_shape by blast

text \<open>Opening an assembled file: what remains is to read the table from where it was emitted.\<close>

lemma open_assembled:
  assumes "assemble s = Some b" "length b < 2 ^ 32"
    and tab: "\<And>out tail. read_tab (drop (length (align REC_SZ out)) (DL_CODE (emit (map_of (all_labels s)) (decls s) out) @ tail)) = Some t \<or>
      length out mod 32 = 1"
  shows "open_file fd h pathp b =
      Some \<lparr>r_fd = fd, r_nread = 12,
            r_hdr = \<lparr>magic = DL_MAGIC, file_sz = of_nat (length b), code_off = of_nat (code_start s)\<rparr>,
            r_map = h, r_tab = t\<rparr>"
proof -
  obtain rest where rest: "b = DL_HEAD (length b) (code_start s) @ replicate 20 NUL @ rest"
    and b: "b = DL_CODE (emit (map_of (all_labels s)) (decls s) (DL_HEAD (length b) (code_start s))) @ code s"
    and l: "length b = code_start s + length (code s)"
    by (rule assemble_shape [OF assms(1) refl])
  let ?z = "replicate (padding 4096 (length b)) NUL" and ?H = "DL_HEAD (length b) (code_start s)"
  have hdr: "read_hdr b = \<lparr>magic = DL_MAGIC, file_sz = of_nat (length b), code_off = of_nat (code_start s)\<rparr>"
    using read_hdr_DL_HEAD [of "length b" "code_start s"] assms(2) l rest by simp
  have len: "32 \<le> length b" using arg_cong [OF rest, of length] by simp
  have pages: "map_pages (unat (word_of_nat (length b) :: u32)) b = b @ ?z"
    using assms(2) by (simp add: map_pages_all unsigned_of_nat take_bit_eq_mod)
  have "read_tab (drop (length (align REC_SZ ?H)) (DL_CODE (emit (map_of (all_labels s)) (decls s) ?H) @ (code s @ ?z))) = Some t"
    using tab [of ?H "code s @ ?z"] by (simp del: drop_append)
  also have "DL_CODE (emit (map_of (all_labels s)) (decls s) ?H) @ (code s @ ?z) = b @ ?z"
    using b by (metis append.assoc)
  finally have "read_tab (drop 32 (b @ ?z)) = Some t" by (simp add: align_DL_HEAD del: drop_append)
  then show ?thesis using len by (simp add: open_file_def pages drop_borrow hdr sizeof_hdr_def del: drop_append)
qed

text \<open>
  C21: the linker reads what the macros wrote. Let the macros of \<^verbatim>\<open>dl.h\<close> assemble a
  source whose names have at most 22 characters, none of them NUL, into a file \<open>b\<close> of less than 4 GiB. Then the header that
  \<^verbatim>\<open>dlopen\<close> reads has the magic number, the size of the file and the position of the code, the code stands
  at that position, and the symbol table, read from the mapped pages
  after \<^verbatim>\<open>dlopen\<close> has stored its two pointers in them, is exactly the list of declared
  records in their order, an export with the position of its label and ended by a record of
  type 0.
\<close>

theorem dl_file_roundtrip:
  assumes "assemble s = Some b" "list_all (name_ok 22) (decls s)" "length b < 2 ^ 32"
  shows "open_file fd h pathp b =
      Some \<lparr>r_fd = fd, r_nread = 12,
            r_hdr = \<lparr>magic = DL_MAGIC, file_sz = of_nat (length b), code_off = of_nat (code_start s)\<rparr>,
            r_map = h, r_tab = map (declared (map_of (all_labels s))) (decls s)\<rparr> \<and>
    drop (code_start s) b = code s"
proof -
  have "open_file fd h pathp b =
      Some \<lparr>r_fd = fd, r_nread = 12,
            r_hdr = \<lparr>magic = DL_MAGIC, file_sz = of_nat (length b), code_off = of_nat (code_start s)\<rparr>,
            r_map = h, r_tab = map (declared (map_of (all_labels s))) (decls s)\<rparr>"
    by (rule open_assembled [OF assms(1,3)]) (use emit_read assms(2) in blast)
  moreover have "drop (code_start s) b = code s"
    using assemble_shape [OF assms(1) refl] length_DL_CODE [of "map_of (all_labels s)" s] by (metis append_eq_conv_conj)
  ultimately show ?thesis by blast
qed

text \<open>
  A name that is too long hides the rest of the table. The macros assemble a name of 23 to
  31 characters without complaint; its bytes run into the next slot, whose type is then 0, so
  that the linker sees the records up to this one and none of those after it.
\<close>

theorem dl_long_name_hides:
  assumes "assemble s = Some b" "length b < 2 ^ 32" "decls s = ds1 @ d # ds2"
    and "list_all (name_ok 22) ds1" "name_ok 31 d" "22 < length (decl_sym d)"
  shows "map_option r_tab (open_file fd h pathp b) = Some (map (declared (map_of (all_labels s))) (ds1 @ [d]))"
proof -
  have "open_file fd h pathp b =
      Some \<lparr>r_fd = fd, r_nread = 12,
            r_hdr = \<lparr>magic = DL_MAGIC, file_sz = of_nat (length b), code_off = of_nat (code_start s)\<rparr>,
            r_map = h, r_tab = map (declared (map_of (all_labels s))) (ds1 @ [d])\<rparr>"
    by (rule open_assembled [OF assms(1,2)]) (use emit_read_long [OF assms(4-6)] assms(3) in metis)
  then show ?thesis by simp
qed

text \<open>The sources of the directory; the machine code and the positions of its labels are
  parameters.\<close>

definition libc_src :: "nat \<Rightarrow> nat \<Rightarrow> string \<Rightarrow> dlsrc" where
  "libc_src buf ex c = \<lparr>decls = [EXPORT ''putchar'', EXPORT ''exit''],
     labels = [(''putchar'', 0), (''buf'', buf), (''exit'', ex)], code = c\<rparr>"

definition libhello_src :: "nat \<Rightarrow> nat \<Rightarrow> nat \<Rightarrow> nat \<Rightarrow> string \<Rightarrow> dlsrc" where
  "libhello_src lo ou st co c = \<lparr>decls = [LOAD ''libc.dl'', IMPORT ''putchar'', EXPORT ''hello''],
     labels = [(''hello'', 0), (''loop'', lo), (''out'', ou), (''str'', st), (''count'', co)], code = c\<rparr>"

definition main_src :: "string \<Rightarrow> dlsrc" where
  "main_src c = \<lparr>decls = [LOAD ''libc.dl'', LOAD ''libhello.dl'', IMPORT ''hello'', EXPORT ''main''],
     labels = [(''main'', 0)], code = c\<rparr>"

lemmas assemble_defs = assemble_def all_labels_def code_start_def sizeof_hdr_def REC_SZ_def padding_def Let_def

lemma libc_assembles: "\<exists>b. assemble (libc_src bu ex c) = Some b \<and> code_start (libc_src bu ex c) = 128"
  by (simp add: libc_src_def assemble_defs)

lemma libhello_assembles: "\<exists>b. assemble (libhello_src lo ou st co c) = Some b \<and> code_start (libhello_src lo ou st co c) = 160"
  by (simp add: libhello_src_def assemble_defs)

lemma main_assembles: "\<exists>b. assemble (main_src c) = Some b \<and> code_start (main_src c) = 192"
  by (simp add: main_src_def assemble_defs)

theorem dl_file_roundtrip_witness:
  "\<exists>b. assemble (libc_src 30 31 (replicate 40 (CHR 0x90))) = Some b \<and> list_all (name_ok 22) [EXPORT ''putchar'', EXPORT ''exit''] \<and> length b = 168 \<and>
     map_option r_tab (open_file 3 4096 0 b) =
       Some [\<lparr>offset = 128, stype = CHR ''#'', sname = ''putchar''\<rparr>, \<lparr>offset = 159, stype = CHR ''#'', sname = ''exit''\<rparr>]"
proof -
  let ?s = "libc_src 30 31 (replicate 40 (CHR 0x90))"
  obtain b where b: "assemble ?s = Some b" "code_start ?s = 128" using libc_assembles by blast
  have l: "length b = 168" using length_assemble [OF b(1)] b(2) by (simp add: libc_src_def)
  have ok: "list_all (name_ok 22) (decls ?s)" by (simp add: libc_src_def name_ok_def)
  have "map (declared (map_of (all_labels ?s))) (decls ?s) =
      [\<lparr>offset = 128, stype = CHR ''#'', sname = ''putchar''\<rparr>, \<lparr>offset = 159, stype = CHR ''#'', sname = ''exit''\<rparr>]"
    using b(2) by (simp add: all_labels_def libc_src_def declared_def)
  then show ?thesis using dl_file_roundtrip [OF b(1) ok, of 3 4096 0] b(1) l ok by (simp add: libc_src_def)
qed

definition long_src :: dlsrc where
  "long_src = \<lparr>decls = [EXPORT ''a_name_of_more_than_22_chars'', EXPORT ''main''],
     labels = [(''a_name_of_more_than_22_chars'', 0), (''main'', 4)], code = replicate 8 (CHR 0x90)\<rparr>"

theorem dl_long_name_hides_witness:
  "\<exists>b. assemble long_src = Some b \<and> length b = 168 \<and>
     map_option (map sname) (map_option r_tab (open_file 3 4096 0 b)) = Some [''a_name_of_more_than_22_chars'']"
proof -
  have "\<exists>b. assemble long_src = Some b" and c: "code_start long_src = 160"
    by (simp_all add: long_src_def assemble_defs)
  then obtain b where b: "assemble long_src = Some b" by blast
  have l: "length b = 168" using length_assemble [OF b] c by (simp add: long_src_def)
  have "map_option r_tab (open_file 3 4096 0 b) =
      Some (map (declared (map_of (all_labels long_src))) ([] @ [EXPORT ''a_name_of_more_than_22_chars'']))"
    using l by (intro dl_long_name_hides [OF b, of _ _ "[EXPORT ''main'']"]) (simp_all add: long_src_def name_ok_def)
  then have names: "map_option (map sname) (map_option r_tab (open_file 3 4096 0 b)) = Some [''a_name_of_more_than_22_chars'']"
    by (cases "open_file 3 4096 0 b") (simp_all add: declared_def)
  show ?thesis by (intro exI [of _ b] conjI b l names)
qed

subsection \<open>The three libraries together\<close>

definition reply :: "int \<Rightarrow> u64 \<Rightarrow> dlsrc \<Rightarrow> file_reply" where
  "reply fd h s = the (open_file fd h 0 (the (assemble s)))"

definition hello_os :: "dlsrc \<Rightarrow> dlsrc \<Rightarrow> dlsrc \<Rightarrow> u64 \<Rightarrow> u64 \<Rightarrow> u64 \<Rightarrow> os" where
  "hello_os m l c hm hl hc k p =
     (if p = ''main.dl'' then reply 3 hm m else if p = ''libhello.dl'' then reply 5 hl l else reply 4 hc c)"

lemma reply_assembled:
  assumes "assemble s = Some b" "list_all (name_ok 22) (decls s)" "length b < 2 ^ 32"
  shows "reply fd h s = \<lparr>r_fd = fd, r_nread = 12,
            r_hdr = \<lparr>magic = DL_MAGIC, file_sz = of_nat (length b), code_off = of_nat (code_start s)\<rparr>,
            r_map = h, r_tab = map (declared (map_of (all_labels s))) (decls s)\<rparr>"
proof -
  have "open_file fd h 0 b = Some \<lparr>r_fd = fd, r_nread = 12,
            r_hdr = \<lparr>magic = DL_MAGIC, file_sz = of_nat (length b), code_off = of_nat (code_start s)\<rparr>,
            r_map = h, r_tab = map (declared (map_of (all_labels s))) (decls s)\<rparr>"
    by (rule open_assembled [OF assms(1,3)]) (use emit_read assms(2) in blast)
  then show ?thesis by (simp add: reply_def assms(1))
qed

lemma good_reply: "0 \<le> fd \<Longrightarrow> h \<noteq> - 1 \<Longrightarrow>
  \<not> bad_file \<lparr>r_fd = fd, r_nread = 12, r_hdr = \<lparr>magic = DL_MAGIC, file_sz = f, code_off = c\<rparr>, r_map = h, r_tab = t\<rparr>"
  by (simp add: bad_file_def short_read_def sizeof_hdr_def)

lemma dlst0_heads:
  "dlst0 = \<lparr>syms = (0, []) # (0, []) # (0, []) # (0, []) # replicate 124 (0, []),
     libs = None # None # replicate 14 None, imgs = [], nopen = 0, fds = []\<rparr>"
  by (simp add: dlst0_def numeral_eq_Suc)

lemma src_tabs:
  "map (declared (map_of (all_labels (main_src c)))) (decls (main_src c)) =
     [\<lparr>offset = 0, stype = CHR ''+'', sname = ''libc.dl''\<rparr>, \<lparr>offset = 0, stype = CHR ''+'', sname = ''libhello.dl''\<rparr>,
      \<lparr>offset = 0, stype = CHR ''?'', sname = ''hello''\<rparr>, \<lparr>offset = 192, stype = CHR ''#'', sname = ''main''\<rparr>]"
  "map (declared (map_of (all_labels (libhello_src lo ou st co c)))) (decls (libhello_src lo ou st co c)) =
     [\<lparr>offset = 0, stype = CHR ''+'', sname = ''libc.dl''\<rparr>, \<lparr>offset = 0, stype = CHR ''?'', sname = ''putchar''\<rparr>,
      \<lparr>offset = 160, stype = CHR ''#'', sname = ''hello''\<rparr>]"
  "map (declared (map_of (all_labels (libc_src bu ex c)))) (decls (libc_src bu ex c)) =
     [\<lparr>offset = 128, stype = CHR ''#'', sname = ''putchar''\<rparr>, \<lparr>offset = 128 + of_nat ex, stype = CHR ''#'', sname = ''exit''\<rparr>]"
  by (simp_all add: main_src_def libhello_src_def libc_src_def declared_def assemble_defs)

lemma src_replies:
  assumes "length c < 2 ^ 31"
  shows "\<exists>f o'. reply fd h (main_src c) = \<lparr>r_fd = fd, r_nread = 12, r_hdr = \<lparr>magic = DL_MAGIC, file_sz = f, code_off = o'\<rparr>,
       r_map = h, r_tab = map (declared (map_of (all_labels (main_src c)))) (decls (main_src c))\<rparr>" (is ?m)
    and "\<exists>f o'. reply fd h (libhello_src lo ou st co c) = \<lparr>r_fd = fd, r_nread = 12, r_hdr = \<lparr>magic = DL_MAGIC, file_sz = f, code_off = o'\<rparr>,
       r_map = h, r_tab = map (declared (map_of (all_labels (libhello_src lo ou st co c)))) (decls (libhello_src lo ou st co c))\<rparr>" (is ?l)
    and "\<exists>f o'. reply fd h (libc_src bu ex c) = \<lparr>r_fd = fd, r_nread = 12, r_hdr = \<lparr>magic = DL_MAGIC, file_sz = f, code_off = o'\<rparr>,
       r_map = h, r_tab = map (declared (map_of (all_labels (libc_src bu ex c)))) (decls (libc_src bu ex c))\<rparr>" (is ?c)
proof -
  have *: "\<exists>f o'. reply fd h s = \<lparr>r_fd = fd, r_nread = 12, r_hdr = \<lparr>magic = DL_MAGIC, file_sz = f, code_off = o'\<rparr>,
       r_map = h, r_tab = map (declared (map_of (all_labels s))) (decls s)\<rparr>"
    if asm: "\<exists>b. assemble s = Some b \<and> code_start s = k" and k: "k < 2 ^ 31" and ok: "list_all (name_ok 22) (decls s)" and "code s = c" for s k
  proof -
    obtain b where b: "assemble s = Some b" "code_start s = k" using asm by blast
    then have "length b < 2 ^ 32" using length_assemble [OF b(1)] k \<open>code s = c\<close> assms by simp
    then show ?thesis using reply_assembled [OF b(1) ok] by blast
  qed
  show ?m by (rule * [OF main_assembles]) (simp_all add: main_src_def name_ok_def)
  show ?l by (rule * [OF libhello_assembles]) (simp_all add: libhello_src_def name_ok_def)
  show ?c by (rule * [OF libc_assembles]) (simp_all add: libc_src_def name_ok_def)
qed

lemma hello_run:
  assumes sizes: "length cm < 2 ^ 31" "length cl < 2 ^ 31" "length cc < 2 ^ 31" and maps: "hm \<noteq> - 1" "hl \<noteq> - 1" "hc \<noteq> - 1"
  shows "\<exists>st. dlopen (hello_os (main_src cm) (libhello_src lo ou sr co cl) (libc_src bu ex cc) hm hl hc) (Suc (Suc (Suc n))) ''main.dl'' dlst0 = Inr (Some hm, st) \<and>
    map (\<lambda>d. (path d, pos d, map (\<lambda>s. (sname s, offset s)) (tab d))) (imgs st) =
      [(''main.dl'', hm, [(''libc.dl'', 0), (''libhello.dl'', 0), (''hello'', hl + 160), (''main'', 192)]),
       (''libc.dl'', hc, [(''putchar'', 128), (''exit'', 128 + of_nat ex)]),
       (''libhello.dl'', hl, [(''libc.dl'', 0), (''putchar'', hc + 128), (''hello'', 160)])] \<and>
    dl_interp (imgs st ! 0) = Some (hm + 192)"
proof -
  let ?os = "hello_os (main_src cm) (libhello_src lo ou sr co cl) (libc_src bu ex cc) hm hl hc"
  obtain f1 o1 where m: "reply 3 hm (main_src cm) = \<lparr>r_fd = 3, r_nread = 12, r_hdr = \<lparr>magic = DL_MAGIC, file_sz = f1, code_off = o1\<rparr>,
       r_map = hm, r_tab = map (declared (map_of (all_labels (main_src cm)))) (decls (main_src cm))\<rparr>"
    using src_replies(1) sizes by blast
  obtain f2 o2 where l: "reply 5 hl (libhello_src lo ou sr co cl) = \<lparr>r_fd = 5, r_nread = 12, r_hdr = \<lparr>magic = DL_MAGIC, file_sz = f2, code_off = o2\<rparr>,
       r_map = hl, r_tab = map (declared (map_of (all_labels (libhello_src lo ou sr co cl)))) (decls (libhello_src lo ou sr co cl))\<rparr>"
    using src_replies(2) sizes by blast
  obtain f3 o3 where c: "reply 4 hc (libc_src bu ex cc) = \<lparr>r_fd = 4, r_nread = 12, r_hdr = \<lparr>magic = DL_MAGIC, file_sz = f3, code_off = o3\<rparr>,
       r_map = hc, r_tab = map (declared (map_of (all_labels (libc_src bu ex cc)))) (decls (libc_src bu ex cc))\<rparr>"
    using src_replies(3) sizes by blast
  have os: "?os k ''main.dl'' = reply 3 hm (main_src cm)" "?os k ''libhello.dl'' = reply 5 hl (libhello_src lo ou sr co cl)"
    "?os k ''libc.dl'' = reply 4 hc (libc_src bu ex cc)" for k
    by (simp_all add: hello_os_def)
  show ?thesis unfolding dlst0_heads
    using maps by (simp add: Let_def os m l c src_tabs good_reply map_file_def set_offset_def dl_interp_def)
qed

text \<open>
  C22: the libraries of the directory load. Let \<^verbatim>\<open>main.S\<close>, \<^verbatim>\<open>libhello.S\<close>
  and \<^verbatim>\<open>libc.S\<close> be assembled by the macros, whatever their machine code, and mapped
  at the addresses \<open>hm\<close>, \<open>hl\<close> and \<open>hc\<close>. Then \<^verbatim>\<open>dlopen\<close> of \<^verbatim>\<open>main.dl\<close>
  succeeds; each library is mapped once, although libc is asked for twice; the import of
  \<open>hello\<close> in main is bound to the code of libhello, the import of \<open>putchar\<close> in libhello to the
  code of libc; and the interpreter starts at the first byte of the code of main.
\<close>

theorem hello_loads:
  assumes sizes: "length cm < 2 ^ 31" "length cl < 2 ^ 31" "length cc < 2 ^ 31" and maps: "hm \<noteq> - 1" "hl \<noteq> - 1" "hc \<noteq> - 1"
  shows "\<exists>st. dlopen (hello_os (main_src cm) (libhello_src lo ou sr co cl) (libc_src bu ex cc) hm hl hc) 17 ''main.dl'' dlst0 = Inr (Some hm, st) \<and>
    map (\<lambda>d. (path d, pos d, map (\<lambda>s. (sname s, offset s)) (tab d))) (imgs st) =
      [(''main.dl'', hm, [(''libc.dl'', 0), (''libhello.dl'', 0), (''hello'', hl + 160), (''main'', 192)]),
       (''libc.dl'', hc, [(''putchar'', 128), (''exit'', 128 + of_nat ex)]),
       (''libhello.dl'', hl, [(''libc.dl'', 0), (''putchar'', hc + 128), (''hello'', 160)])] \<and>
    dl_interp (imgs st ! 0) = Some (hm + 192)"
  using hello_run [OF assms, of lo ou sr co bu ex 14] by (simp add: numeral_eq_Suc)

theorem hello_loads_witness:
  "(4096 :: u64) \<noteq> - 1 \<and> (8192 :: u64) \<noteq> - 1 \<and> (12288 :: u64) \<noteq> - 1 \<and>
   (\<exists>st. dlopen (hello_os (main_src (replicate 28 (CHR 0x90))) (libhello_src 30 40 44 53 (replicate 57 (CHR 0x90)))
       (libc_src 31 32 (replicate 40 (CHR 0x90))) 4096 8192 12288) 17 ''main.dl'' dlst0 = Inr (Some 4096, st) \<and>
     dl_interp (imgs st ! 0) = Some 4288)"
  using hello_loads [of "replicate 28 (CHR 0x90)" "replicate 57 (CHR 0x90)" "replicate 40 (CHR 0x90)" 4096 8192 12288 30 40 44 53 31 32]
  by (simp del: dlopen.simps) blast

end
