(* ===== verification/Flock.thy ===== *)
theory Flock
  imports Threads
begin

text \<open>
  File locks: \<^verbatim>\<open>flock/flock-demo.c\<close>. Each process opens the files of its arguments one
  after the other and takes the exclusive lock of each; the locks go back when the process
  ends. Opening a file again makes a new open file, whose lock conflicts with the first one,
  also within a process. The results of \<^verbatim>\<open>open\<close> are a parameter. Shown: when all
  processes name their files in one common order, none of them waits for ever and every
  schedule ends with all locks acquired; the two processes of \<^verbatim>\<open>run.sh\<close>, which name the
  same two files in opposite orders, can block each other, and so can one process that names a
  file twice.
\<close>

text \<open>The argument at which a process is: about to open it, to announce it, to lock it, asleep with
  its lock; behind the loop; ended; stopped at the assertion.\<close>

datatype fl_pc = FOpen nat | FPrint nat | FLock nat | FSleep nat | FAll | FDone | FAbort

record flc =
  fpcs :: "nat \<Rightarrow> fl_pc"
  owner :: "string \<Rightarrow> nat option"
  fl_out :: "(nat \<times> string) list"

definition fl_init :: flc where
  "fl_init = \<lparr>fpcs = \<lambda>_. FOpen 0, owner = \<lambda>_. None, fl_out = []\<rparr>"

definition fl_goto :: "nat \<Rightarrow> fl_pc \<Rightarrow> flc \<Rightarrow> flc" where
  "fl_goto p q c = c\<lparr>fpcs := (fpcs c)(p := q)\<rparr>"

text \<open>The kernel closes the files of a process that ends, which gives its locks back.\<close>

definition fl_exit :: "nat \<Rightarrow> flc \<Rightarrow> flc" where
  "fl_exit p c = c\<lparr>owner := \<lambda>f. if owner c f = Some p then None else owner c f\<rparr>"

definition flock_main :: "(nat \<Rightarrow> string list) \<Rightarrow> (nat \<Rightarrow> nat \<Rightarrow> int) \<Rightarrow> nat \<Rightarrow> flc \<Rightarrow> flc option" where
  "flock_main args fd p c =
     (case fpcs c p of
        FOpen i \<Rightarrow>
          Some (if i < length (args p)
                then if fd p i > 0 then fl_goto p (FPrint i) c else fl_goto p FAbort (fl_exit p c)
                else fl_goto p FAll c)
      | FPrint i \<Rightarrow> Some (fl_goto p (FLock i) (c\<lparr>fl_out := fl_out c @ [(p, ''Acquire '' @ args p ! i)]\<rparr>))
      | FLock i \<Rightarrow>
          if owner c (args p ! i) = None
          then Some (fl_goto p (FSleep i) (c\<lparr>owner := (owner c)(args p ! i := Some p)\<rparr>)) else None
      | FSleep i \<Rightarrow> Some (fl_goto p (FOpen (Suc i)) c)
      | FAll \<Rightarrow> Some (fl_goto p FDone (fl_exit p (c\<lparr>fl_out := fl_out c @ [(p, ''All locks acquired!'')]\<rparr>)))
      | FDone \<Rightarrow> None
      | FAbort \<Rightarrow> None)"

lemmas fl_defs = flock_main_def fl_goto_def fl_exit_def

subsection \<open>Who holds which lock\<close>

text \<open>The number of arguments whose lock a process holds.\<close>

fun held :: "nat \<Rightarrow> fl_pc \<Rightarrow> nat" where
  "held n (FOpen i) = i"
| "held n (FPrint i) = i"
| "held n (FLock i) = i"
| "held n (FSleep i) = Suc i"
| "held n FAll = n"
| "held n FDone = 0"
| "held n FAbort = 0"

fun pc_ok :: "nat \<Rightarrow> fl_pc \<Rightarrow> bool" where
  "pc_ok n (FOpen i) \<longleftrightarrow> i \<le> n"
| "pc_ok n (FPrint i) \<longleftrightarrow> i < n"
| "pc_ok n (FLock i) \<longleftrightarrow> i < n"
| "pc_ok n (FSleep i) \<longleftrightarrow> i < n"
| "pc_ok n _ \<longleftrightarrow> True"

definition holds :: "(nat \<Rightarrow> string list) \<Rightarrow> flc \<Rightarrow> nat \<Rightarrow> string set" where
  "holds args c p = set (take (held (length (args p)) (fpcs c p)) (args p))"

definition fl_inv :: "(nat \<Rightarrow> string list) \<Rightarrow> nat set \<Rightarrow> flc \<Rightarrow> bool" where
  "fl_inv args P c \<longleftrightarrow>
     (\<forall>p \<in> P. pc_ok (length (args p)) (fpcs c p)) \<and> (\<forall>f p. owner c f = Some p \<longrightarrow> p \<in> P \<and> f \<in> holds args c p)"

lemma fl_inv_init: "fl_inv args P fl_init"
  by (simp add: fl_inv_def fl_init_def)

lemma fl_inv_step:
  assumes inv: "fl_inv args P c" and p: "p \<in> P" and step: "flock_main args fd p c = Some c'"
  shows "fl_inv args P c'"
proof -
  have ok: "pc_ok (length (args p)) (fpcs c p)" and own: "\<And>f u. owner c f = Some u \<Longrightarrow> u \<in> P \<and> f \<in> holds args c u"
    using inv p by (auto simp: fl_inv_def)
  have fr: "fpcs c' u = fpcs c u" "holds args c' u = holds args c u" if "u \<noteq> p" for u
    using step that by (auto simp: holds_def fl_defs split: fl_pc.splits if_splits)
  have "pc_ok (length (args p)) (fpcs c' p)"
    using step ok by (auto simp: fl_defs split: fl_pc.splits if_splits)
  moreover have "u \<in> P \<and> f \<in> holds args c' u" if "owner c' f = Some u" for f u
  proof (cases "u = p")
    case True
    then show ?thesis using step ok own [of f p] that p
      by (auto simp: holds_def fl_defs take_Suc_conv_app_nth split: fl_pc.splits if_splits)
  next
    case False
    then have "owner c f = Some u" using step that by (auto simp: fl_defs split: fl_pc.splits if_splits)
    then show ?thesis using own fr [OF False] by simp
  qed
  ultimately show ?thesis using inv fr by (auto simp: fl_inv_def) metis
qed

interpretation fl: threads_invariant fl_init "flock_main args fd" P "fl_inv args P" for args fd P
  by unfold_locales (auto intro: fl_inv_init fl_inv_step)

subsection \<open>Every run ends\<close>

fun fl_work :: "nat \<Rightarrow> fl_pc \<Rightarrow> nat" where
  "fl_work n (FOpen i) = 4 * (n - i) + 2"
| "fl_work n (FPrint i) = 4 * (n - Suc i) + 5"
| "fl_work n (FLock i) = 4 * (n - Suc i) + 4"
| "fl_work n (FSleep i) = 4 * (n - Suc i) + 3"
| "fl_work n FAll = 1"
| "fl_work n FDone = 0"
| "fl_work n FAbort = 0"

definition fl_measure :: "(nat \<Rightarrow> string list) \<Rightarrow> nat \<Rightarrow> flc \<Rightarrow> nat" where
  "fl_measure args k c = (\<Sum>p<k. fl_work (length (args p)) (fpcs c p))"

lemma fl_work_step:
  "flock_main args fd p c = Some c' \<Longrightarrow> fl_work (length (args p)) (fpcs c' p) < fl_work (length (args p)) (fpcs c p)"
  by (cases "fpcs c p") (auto simp: fl_defs split: if_splits)

lemma fl_frame: "flock_main args fd p c = Some c' \<Longrightarrow> u \<noteq> p \<Longrightarrow> fpcs c' u = fpcs c u"
  by (cases "fpcs c p") (auto simp: fl_defs split: if_splits)

interpretation fl_work: threads_measure "flock_main args fd" "{..<k}" "fl_measure args k" for args fd k
proof
  fix p c c' assume p: "p \<in> {..<k}" and step: "flock_main args fd p c = Some c'"
  have "fl_work (length (args u)) (fpcs c' u) \<le> fl_work (length (args u)) (fpcs c u)" for u
    using fl_work_step [OF step] fl_frame [OF step, of u] by (cases "u = p") simp_all
  then show "fl_measure args k c' < fl_measure args k c"
    unfolding fl_measure_def using p fl_work_step [OF step] by (intro sum_strict_mono_ex1) auto
qed

subsection \<open>One order for all\<close>

definition ended :: "fl_pc \<Rightarrow> bool" where
  "ended q \<longleftrightarrow> q = FDone \<or> q = FAbort"

text \<open>A common order of the files, in which every process names its own.\<close>

definition ordered :: "(string \<Rightarrow> nat) \<Rightarrow> string list \<Rightarrow> bool" where
  "ordered rank fs \<longleftrightarrow> sorted_wrt (\<lambda>f g. rank f < rank g) fs"

lemma ordered_take: "ordered rank fs \<Longrightarrow> j < length fs \<Longrightarrow> f \<in> set (take j fs) \<Longrightarrow> rank f < rank (fs ! j)"
  unfolding ordered_def by (auto simp: in_set_conv_nth sorted_wrt_iff_nth_less)

text \<open>A process that is blocked waits for one that is blocked at a later file.\<close>

lemma fl_waits:
  assumes inv: "fl_inv args P c" and ord: "\<And>p. p \<in> P \<Longrightarrow> ordered rank (args p)"
    and stuck: "\<And>p. p \<in> P \<Longrightarrow> flock_main args fd p c = None" and p: "p \<in> P" "\<not> ended (fpcs c p)"
  obtains q i j where "q \<in> P" "\<not> ended (fpcs c q)" "fpcs c p = FLock i" "fpcs c q = FLock j" "rank (args p ! i) < rank (args q ! j)"
proof -
  have at: "\<exists>i. fpcs c u = FLock i" if "u \<in> P" "\<not> ended (fpcs c u)" for u
    using stuck [OF that(1)] that(2) by (auto simp: fl_defs ended_def split: fl_pc.splits if_splits)
  obtain i where i: "fpcs c p = FLock i" using at p by blast
  then obtain q where q: "owner c (args p ! i) = Some q" using stuck [OF p(1)] by (auto simp: fl_defs split: if_splits)
  then have qP: "q \<in> P" "args p ! i \<in> holds args c q" using inv by (auto simp: fl_inv_def)
  then have "\<not> ended (fpcs c q)" by (auto simp: holds_def ended_def)
  moreover then obtain j where j: "fpcs c q = FLock j" using at qP by blast
  moreover have "j < length (args q)" using inv qP(1) j by (auto simp: fl_inv_def)
  ultimately show thesis using that [of q i j] qP ordered_take [OF ord [OF qP(1)]] i by (simp add: holds_def)
qed

lemma fl_no_deadlock:
  assumes inv: "fl_inv args {..<k} c" and ord: "\<And>p. p < k \<Longrightarrow> ordered rank (args p)"
    and stuck: "\<And>p. p < k \<Longrightarrow> flock_main args fd p c = None"
  shows "\<forall>p<k. ended (fpcs c p)"
proof (rule ccontr)
  define wait where "wait p = (case fpcs c p of FLock i \<Rightarrow> rank (args p ! i) | _ \<Rightarrow> 0)" for p
  let ?S = "{p. p < k \<and> \<not> ended (fpcs c p)}"
  assume "\<not> ?thesis"
  then have ne: "wait ` ?S \<noteq> {}" "finite (wait ` ?S)" by auto
  have "Max (wait ` ?S) \<in> wait ` ?S" by (rule Max_in [OF ne(2,1)])
  then obtain p where p: "Max (wait ` ?S) = wait p" "p \<in> ?S" by (rule imageE)
  obtain q i j where q: "q \<in> {..<k}" "\<not> ended (fpcs c q)" "fpcs c p = FLock i" "fpcs c q = FLock j" "rank (args p ! i) < rank (args q ! j)"
    by (rule fl_waits [OF inv, of rank fd p]) (use ord stuck p in auto)
  then have "wait p < wait q" "q \<in> ?S" by (auto simp: wait_def)
  then show False using p(1) Max_ge [OF ne(2), of "wait q"] by auto
qed

subsection \<open>What is printed\<close>

definition lines_of :: "nat \<Rightarrow> flc \<Rightarrow> string list" where
  "lines_of p c = map snd (filter (\<lambda>(q, _). q = p) (fl_out c))"

fun announced :: "nat \<Rightarrow> fl_pc \<Rightarrow> nat" where
  "announced n (FLock i) = Suc i"
| "announced n FDone = n"
| "announced n q = held n q"

definition fl_lines :: "(nat \<Rightarrow> string list) \<Rightarrow> nat \<Rightarrow> flc \<Rightarrow> bool" where
  "fl_lines args p c \<longleftrightarrow> fpcs c p \<noteq> FAbort \<and> pc_ok (length (args p)) (fpcs c p) \<and>
     lines_of p c = map (\<lambda>f. ''Acquire '' @ f) (take (announced (length (args p)) (fpcs c p)) (args p)) @
       (if fpcs c p = FDone then [''All locks acquired!''] else [])"

lemma fl_lines_step:
  assumes "fl_lines args p c" "flock_main args fd q c = Some c'" "\<forall>i < length (args p). 0 < fd p i"
  shows "fl_lines args p c'"
proof (cases "q = p")
  case True
  then show ?thesis using assms
    by (auto simp: fl_lines_def lines_of_def fl_defs take_Suc_conv_app_nth split: fl_pc.splits if_splits)
next
  case False
  then have "fpcs c' p = fpcs c p" "lines_of p c' = lines_of p c"
    using assms(2) by (auto simp: lines_of_def fl_defs split: fl_pc.splits if_splits)
  then show ?thesis using assms(1) by (simp add: fl_lines_def)
qed

lemma fl_lines_reach:
  assumes "reachable fl_init (flock_main args fd) P c" "\<forall>i < length (args p). 0 < fd p i"
  shows "fl_lines args p c"
  using assms(1)
proof (induction rule: reach.induct)
  case (reach_start c)
  then show ?case by (simp add: fl_lines_def fl_init_def lines_of_def)
next
  case (reach_step c c')
  then show ?case using fl_lines_step assms(2) by (auto simp: threads_step_def)
qed

text \<open>
  C14: file locks taken in one order do not deadlock. Let \<open>k\<close> processes of flock-demo name their
  files in an order common to all of them, and let every file be there. Then every scheduling
  has at most \<open>4 n + 2\<close> steps per process with \<open>n\<close> files (blocked calls of \<^verbatim>\<open>flock\<close>
  aside), and where no process can go on, each has announced its files in order, reported
  that it has all locks, and given them back.
\<close>

theorem flock_ordered_ends:
  assumes "schedule (flock_main args fd) ts fl_init = Some c" "set ts \<subseteq> {..<k}"
    and "\<forall>p<k. ordered rank (args p)" "\<forall>p<k. \<forall>i<length (args p). 0 < fd p i"
  shows "length ts \<le> (\<Sum>p<k. 4 * length (args p) + 2) \<and>
    ((\<forall>p<k. flock_main args fd p c = None) \<longrightarrow>
       (\<forall>p<k. lines_of p c = map (\<lambda>f. ''Acquire '' @ f) (args p) @ [''All locks acquired!'']) \<and> owner c = (\<lambda>_. None))"
proof -
  have r: "reachable fl_init (flock_main args fd) {..<k} c" by (rule schedule_reachable [OF assms(1,2)])
  have inv: "fl_inv args {..<k} c" by (rule fl.inv_reach [OF r])
  have "length ts \<le> fl_measure args k fl_init" using fl_work.schedule_bound [OF assms(1,2)] by simp
  moreover have "lines_of p c = map (\<lambda>f. ''Acquire '' @ f) (args p) @ [''All locks acquired!'']" "owner c = (\<lambda>_. None)"
    if "\<forall>p<k. flock_main args fd p c = None" "p < k" for p
  proof -
    have e: "\<forall>p<k. ended (fpcs c p)" using fl_no_deadlock [OF inv] assms(3) that(1) by blast
    then have "holds args c u = {}" if "u < k" for u using that by (auto simp: holds_def ended_def)
    then have "owner c f \<noteq> Some u" for f u using inv by (fastforce simp: fl_inv_def)
    then show "owner c = (\<lambda>_. None)" by (intro ext) (metis not_None_eq)
    show "lines_of p c = map (\<lambda>f. ''Acquire '' @ f) (args p) @ [''All locks acquired!'']"
      using fl_lines_reach [OF r] assms(4) e \<open>p < k\<close> by (auto simp: fl_lines_def ended_def)
  qed
  moreover have "owner c = (\<lambda>_. None)" if "k = 0" using inv that by (auto simp: fl_inv_def fun_eq_iff)
  ultimately show ?thesis by (cases "k = 0") (auto simp: fl_measure_def fl_init_def)
qed

definition ex_args :: "nat \<Rightarrow> string list" where
  "ex_args p = (if p = 0 then [''bar'', ''foo''] else [''foo''])"

definition ex_turns :: "nat list" where
  "ex_turns = [1, 1, 1, 0, 0, 0, 0, 0, 0, 1, 1, 1, 0, 0, 0, 0]"

theorem flock_ordered_ends_witness:
  "\<exists>c. schedule (flock_main ex_args (\<lambda>_ _. 3)) ex_turns fl_init = Some c \<and>
     lines_of 0 c = [''Acquire bar'', ''Acquire foo'', ''All locks acquired!''] \<and> owner c = (\<lambda>_. None)"
proof -
  let ?s = "schedule (flock_main ex_args (\<lambda>_ _. 3)) ex_turns fl_init"
  have "case ?s of None \<Rightarrow> False | Some c \<Rightarrow> fpcs c 0 = FDone \<and> fpcs c 1 = FDone" by code_simp
  then obtain c where c: "?s = Some c" and d: "fpcs c 0 = FDone" "fpcs c 1 = FDone" by (auto split: option.splits)
  have "\<forall>p<2. flock_main ex_args (\<lambda>_ _. 3) p c = None" using d by (auto simp: flock_main_def less_2_cases_iff)
  moreover have "\<forall>p<2. ordered (\<lambda>f. if f = ''foo'' then 1 else 0) (ex_args p)" by (auto simp: ordered_def ex_args_def)
  moreover have "set ex_turns \<subseteq> {..<2}" by (auto simp: ex_turns_def)
  ultimately show ?thesis using flock_ordered_ends [OF c, of 2 "\<lambda>f. if f = ''foo'' then 1 else 0"] c
    by (auto simp: ex_args_def)
qed

text \<open>The processes of \<^verbatim>\<open>run.sh\<close>, and one process that is given the same file twice.\<close>

definition run_sh :: "nat \<Rightarrow> string list" where
  "run_sh p = (if p = 0 then [''foo'', ''bar''] else [''bar'', ''foo''])"

text \<open>
  File locks taken in different orders can deadlock. The two processes that
  \<^verbatim>\<open>run.sh\<close> starts can reach a state in which both wait for ever for the lock that the
  other one holds; and a single process that is given one file twice comes to wait for
  itself.
\<close>

theorem flock_deadlocks:
  "(\<exists>c. reachable fl_init (flock_main run_sh (\<lambda>_ _. 3)) {..<2} c \<and>
     (\<forall>p<2. flock_main run_sh (\<lambda>_ _. 3) p c = None \<and> \<not> ended (fpcs c p))) \<and>
   (\<exists>c. reachable fl_init (flock_main (\<lambda>_. [f, f]) (\<lambda>_ _. 3)) {..<1} c \<and>
     flock_main (\<lambda>_. [f, f]) (\<lambda>_ _. 3) 0 c = None \<and> \<not> ended (fpcs c 0))"
proof
  let ?s = "schedule (flock_main run_sh (\<lambda>_ _. 3)) [0, 0, 0, 0, 1, 1, 1, 1, 0, 0, 1, 1] fl_init"
  have "case ?s of None \<Rightarrow> False | Some c \<Rightarrow> fpcs c 0 = FLock 1 \<and> fpcs c 1 = FLock 1 \<and>
      owner c ''foo'' = Some 0 \<and> owner c ''bar'' = Some 1" by code_simp
  then obtain c where c: "?s = Some c" and d: "fpcs c 0 = FLock 1" "fpcs c 1 = FLock 1" "owner c ''foo'' = Some 0" "owner c ''bar'' = Some 1"
    by (auto split: option.splits)
  have "reachable fl_init (flock_main run_sh (\<lambda>_ _. 3)) {..<2} c" by (rule schedule_reachable [OF c]) auto
  then show "\<exists>c. reachable fl_init (flock_main run_sh (\<lambda>_ _. 3)) {..<2} c \<and>
     (\<forall>p<2. flock_main run_sh (\<lambda>_ _. 3) p c = None \<and> \<not> ended (fpcs c p))"
    using d by (intro exI [of _ c]) (auto simp: less_2_cases_iff flock_main_def run_sh_def ended_def)
next
  let ?s = "schedule (flock_main (\<lambda>_. [f, f]) (\<lambda>_ _. 3)) [0, 0, 0, 0, 0, 0] fl_init"
  have "\<exists>c. ?s = Some c \<and> fpcs c 0 = FLock 1 \<and> owner c f = Some 0"
    by (simp add: fl_defs fl_init_def)
  then obtain c where c: "?s = Some c" and d: "fpcs c 0 = FLock 1" "owner c f = Some 0" by blast
  have "reachable fl_init (flock_main (\<lambda>_. [f, f]) (\<lambda>_ _. 3)) {..<1} c" by (rule schedule_reachable [OF c]) auto
  then show "\<exists>c. reachable fl_init (flock_main (\<lambda>_. [f, f]) (\<lambda>_ _. 3)) {..<1} c \<and>
     flock_main (\<lambda>_. [f, f]) (\<lambda>_ _. 3) 0 c = None \<and> \<not> ended (fpcs c 0)"
    using d by (intro exI [of _ c]) (auto simp: flock_main_def ended_def)
qed

end
