(* ===== verification/Unwind.thy ===== *)
theory Unwind
  imports Prelude
begin

text \<open>
  The stack unwinder \<^verbatim>\<open>virtualization/unwind.c\<close>: \<open>backtrace\<close> follows the saved frame
  pointers from its own frame and prints each return address, until one of them lies outside the
  program. Memory is read in 8-byte words; an unmapped word is a fault, and a chain of frames
  that closes a circle makes the loop endless (\<open>None\<close>). Shown: after any sequence of nested
  calls the unwinder prints exactly their return addresses, the innermost first, and stops at the
  caller of \<open>main\<close>; it ends on every chain that goes up the stack; it does not end on a frame
  that points to itself.
\<close>

type_synonym words = "u64 \<Rightarrow> u64 option"

subsection \<open>The code\<close>

text \<open>The two words of a \<^verbatim>\<open>struct frame\<close> at address \<open>f\<close>.\<close>

definition read_next :: "words \<Rightarrow> u64 \<Rightarrow> u64 option" where "read_next m f = m f"

definition read_addr :: "words \<Rightarrow> u64 \<Rightarrow> u64 option" where "read_addr m f = m (f + 8)"

text \<open>The hexadecimal digits of \<^verbatim>\<open>%p\<close>.\<close>

fun hex_digits :: "nat \<Rightarrow> string" where
  "hex_digits n = (if n < 16 then [''0123456789abcdef'' ! n] else hex_digits (n div 16) @ [''0123456789abcdef'' ! (n mod 16)])"

declare hex_digits.simps [simp del]

definition addr2line :: "string \<Rightarrow> u64 \<Rightarrow> string" where
  "addr2line binary a = ''addr2line -e '' @ binary @ '' 0x'' @ hex_digits (unat a)"

text \<open>How the loop ends: with a return address outside of the program, with a read of unmapped
  memory, or with a command that does not fit into \<^verbatim>\<open>cmd\<close>; and the addresses printed so
  far.\<close>

datatype bt = Stops "u64 list" | Faults "u64 list" | Overflows "u64 list"

fun bt_add :: "u64 \<Rightarrow> bt \<Rightarrow> bt" where
  "bt_add a (Stops as) = Stops (a # as)"
| "bt_add a (Faults as) = Faults (a # as)"
| "bt_add a (Overflows as) = Overflows (a # as)"

partial_function (option) backtrace :: "string \<Rightarrow> u64 \<Rightarrow> words \<Rightarrow> u64 \<Rightarrow> bt option" where
  "backtrace binary ed m f =
     (case read_addr m f of
        None \<Rightarrow> Some (Faults [])
      | Some a \<Rightarrow>
          if \<not> a < ed then Some (Stops [])
          else if \<not> length (addr2line binary a) < 1024 then Some (Overflows [a])
          else (case read_next m f of
                  None \<Rightarrow> Some (Faults [a])
                | Some n \<Rightarrow> Option.bind (backtrace binary ed m n) (\<lambda>r. Some (bt_add a r))))"

subsection \<open>The stack\<close>

record stack =
  rsp :: u64
  rbp :: u64
  smem :: words

text \<open>\<^verbatim>\<open>call\<close> pushes the return address, the prologue of the called function pushes \<open>rbp\<close>,
  sets it to the new frame and makes room for \<open>n\<close> bytes.\<close>

definition push_word :: "u64 \<Rightarrow> stack \<Rightarrow> stack" where
  "push_word v s = s\<lparr>rsp := rsp s - 8, smem := (smem s)(rsp s - 8 \<mapsto> v)\<rparr>"

definition call :: "u64 \<times> nat \<Rightarrow> stack \<Rightarrow> stack" where
  "call c s = (let s = push_word (rbp s) (push_word (fst c) s) in s\<lparr>rbp := rsp s, rsp := rsp s - of_nat (snd c)\<rparr>)"

definition depth :: "(u64 \<times> nat) list \<Rightarrow> nat" where
  "depth cs = sum_list (map (\<lambda>c. 16 + snd c) cs)"

text \<open>A chain of frames from \<open>f\<close> to \<open>g\<close> with the return addresses \<open>as\<close>, all of it at or above \<open>lo\<close>.\<close>

fun frames :: "words \<Rightarrow> u64 \<Rightarrow> u64 \<Rightarrow> u64 list \<Rightarrow> u64 \<Rightarrow> bool" where
  "frames m lo f [] g \<longleftrightarrow> f = g \<and> lo \<le> f"
| "frames m lo f (a # as) g \<longleftrightarrow>
     lo \<le> f \<and> f < - 8 \<and> read_addr m f = Some a \<and> (case read_next m f of None \<Rightarrow> False | Some n \<Rightarrow> frames m lo n as g)"

subsection \<open>The commands fit\<close>

lemma unat_u64: "unat (x :: u64) < 2 ^ 64"
  using unsigned_less [of x, where ?'a = nat] by simp

lemma length_hex_digits: "n < 16 ^ Suc k \<Longrightarrow> length (hex_digits n) \<le> Suc k"
proof (induction k arbitrary: n)
  case 0
  then show ?case by (simp add: hex_digits.simps)
next
  case (Suc k)
  show ?case
  proof (cases "n < 16")
    case True
    then show ?thesis by (simp add: hex_digits.simps)
  next
    case False
    have "n div 16 < 16 ^ Suc k" using Suc.prems by (simp add: less_mult_imp_div_less mult.commute)
    then have "length (hex_digits (n div 16)) \<le> Suc k" by (rule Suc.IH)
    then show ?thesis using False by (subst hex_digits.simps) simp
  qed
qed

lemma addr2line_fits: "length binary \<le> 991 \<Longrightarrow> length (addr2line binary a) < 1024"
proof -
  assume "length binary \<le> 991"
  moreover have "unat a < 16 ^ Suc 15" using unat_u64 [of a] by simp
  then have "length (hex_digits (unat a)) \<le> 16" using length_hex_digits by fastforce
  ultimately show ?thesis by (simp add: addr2line_def)
qed

subsection \<open>Unwinding\<close>

lemma backtrace_frames:
  assumes "length binary \<le> 991" "\<forall>a \<in> set as. a < ed" "read_addr m g = Some b" "\<not> b < ed"
  shows "frames m lo f as g \<Longrightarrow> backtrace binary ed m f = Some (Stops as)"
  using assms(2)
proof (induction as arbitrary: f)
  case Nil
  then show ?case using assms(3,4) by (subst backtrace.simps) simp
next
  case (Cons a as)
  then show ?case using addr2line_fits [OF assms(1)] by (subst backtrace.simps) (auto split: option.splits)
qed

lemma word_le_add_8: "f < - 8 \<Longrightarrow> f \<le> f + (8 :: u64)"
proof -
  assume "f < - 8"
  then have "unat f < 2 ^ 64 - 8" by (simp add: word_less_nat_alt)
  then show ?thesis by (simp add: word_le_nat_alt unat_word_ariths)
qed

lemma frames_mono:
  assumes "frames m lo f as g" "lo' \<le> lo" "\<And>x. lo \<le> x \<Longrightarrow> m' x = m x"
  shows "frames m' lo' f as g"
  using assms(1)
proof (induction as arbitrary: f)
  case Nil
  then show ?case using assms(2) by auto
next
  case (Cons a as)
  then have "lo \<le> f" "f < - 8" by auto
  then have "lo \<le> f + 8" using word_le_add_8 by (meson order.trans)
  then have "read_addr m' f = read_addr m f" "read_next m' f = read_next m f"
    using assms(3) \<open>lo \<le> f\<close> by (simp_all add: read_addr_def read_next_def)
  then show ?case using Cons assms(2) by (auto split: option.splits)
qed

lemma unat_sub_nat: "k \<le> unat (x :: u64) \<Longrightarrow> unat (x - of_nat k) = unat x - k"
proof -
  assume k: "k \<le> unat x"
  then have "unat (of_nat k :: u64) = k" using unat_u64 [of x] by (simp add: unsigned_of_nat take_bit_eq_mod)
  then show ?thesis using k by (simp add: unat_sub_if')
qed

lemma frames_call:
  assumes "frames (smem s) (rsp s) (rbp s) as g" "16 + snd c \<le> unat (rsp s)"
  shows "frames (smem (call c s)) (rsp (call c s)) (rbp (call c s)) (fst c # as) g"
    and "unat (rsp (call c s)) = unat (rsp s) - (16 + snd c)"
    and "rsp s \<le> x \<Longrightarrow> smem (call c s) x = smem s x"
proof -
  have u8: "unat (rsp s - 8) = unat (rsp s) - 8" and u16: "unat (rsp s - 16) = unat (rsp s) - 16"
    using assms(2) unat_sub_nat [of 8 "rsp s"] unat_sub_nat [of 16 "rsp s"] by simp_all
  have n: "unat (rsp s - 16 - of_nat (snd c)) = unat (rsp s) - (16 + snd c)"
    using unat_sub_nat [of "snd c" "rsp s - 16"] u16 assms(2) by simp
  have lt: "rsp s - 8 < rsp s" "rsp s - 16 < rsp s" "rsp s - 16 < rsp s - 8"
    using u8 u16 assms(2) by (simp_all add: word_less_nat_alt)
  show r: "unat (rsp (call c s)) = unat (rsp s) - (16 + snd c)"
    using n by (simp add: call_def push_word_def Let_def)
  have old: "smem (call c s) x = smem s x" if "rsp s \<le> x" for x
    using lt that by (auto simp: call_def push_word_def Let_def)
  then show "rsp s \<le> x \<Longrightarrow> smem (call c s) x = smem s x" by blast
  have "rsp (call c s) \<le> rsp s" using r by (simp add: word_le_nat_alt)
  then have "frames (smem (call c s)) (rsp (call c s)) (rbp s) as g" by (rule frames_mono [OF assms(1)]) (rule old)
  moreover have "rsp (call c s) \<le> rsp s - 16" using r u16 by (simp add: word_le_nat_alt)
  moreover have "unat (- 8 :: u64) = 2 ^ 64 - 8" by simp
  then have "rsp s - 16 < - 8" using u16 unat_u64 [of "rsp s"] unfolding word_less_nat_alt by simp
  ultimately show "frames (smem (call c s)) (rsp (call c s)) (rbp (call c s)) (fst c # as) g"
    using lt by (simp add: call_def push_word_def Let_def read_addr_def read_next_def)
qed

lemma frames_calls:
  assumes "rsp s0 \<le> rbp s0"
  shows "depth cs \<le> unat (rsp s0) \<Longrightarrow>
    frames (smem (fold call cs s0)) (rsp (fold call cs s0)) (rbp (fold call cs s0)) (rev (map fst cs)) (rbp s0) \<and>
    unat (rsp (fold call cs s0)) = unat (rsp s0) - depth cs \<and>
    (\<forall>x. rsp s0 \<le> x \<longrightarrow> smem (fold call cs s0) x = smem s0 x)"
proof (induction cs rule: rev_induct)
  case Nil
  then show ?case using assms by (simp add: depth_def)
next
  case (snoc c cs)
  let ?s = "fold call cs s0"
  have d: "depth (cs @ [c]) = depth cs + (16 + snd c)" by (simp add: depth_def)
  then have IH: "frames (smem ?s) (rsp ?s) (rbp ?s) (rev (map fst cs)) (rbp s0)" "unat (rsp ?s) = unat (rsp s0) - depth cs"
      "\<And>x. rsp s0 \<le> x \<Longrightarrow> smem ?s x = smem s0 x"
    using snoc by auto
  have c: "16 + snd c \<le> unat (rsp ?s)" using snoc.prems d IH(2) by simp
  have "rsp ?s \<le> rsp s0" using IH(2) by (simp add: word_le_nat_alt)
  then have "smem (call c ?s) x = smem s0 x" if "rsp s0 \<le> x" for x
    using frames_call(3) [OF IH(1) c, of x] IH(3) [OF that] that by simp
  then show ?case using frames_call(1,2) [OF IH(1) c] IH(2) d by simp
qed

text \<open>
  C33: the unwinder lists the calls. Let \<open>main\<close> run with its frame on the stack and return to an
  address outside of the program (into the C library), and let any sequence \<open>cs\<close> of nested calls
  follow, each pushing a return address in the program and the frame pointer and making room for
  its locals. Then \<open>backtrace\<close> prints exactly the return addresses of these calls, the last call
  first, each once, and ends; its commands fit into the buffer for a program path of up to 991
  characters.
\<close>

theorem backtrace_calls:
  assumes "rsp s0 \<le> rbp s0" "rbp s0 < - 8" "read_addr (smem s0) (rbp s0) = Some b" "ed \<le> b"
    and "\<forall>c \<in> set cs. fst c < ed" "depth cs \<le> unat (rsp s0)" "length binary \<le> 991"
  shows "backtrace binary ed (smem (fold call cs s0)) (rbp (fold call cs s0)) = Some (Stops (rev (map fst cs)))"
proof (rule backtrace_frames [OF assms(7), of _ _ _ "rbp s0" b])
  have fr: "frames (smem (fold call cs s0)) (rsp (fold call cs s0)) (rbp (fold call cs s0)) (rev (map fst cs)) (rbp s0)"
      "\<And>x. rsp s0 \<le> x \<Longrightarrow> smem (fold call cs s0) x = smem s0 x"
    using frames_calls [OF assms(1,6)] by auto
  show "frames (smem (fold call cs s0)) (rsp (fold call cs s0)) (rbp (fold call cs s0)) (rev (map fst cs)) (rbp s0)" by (rule fr)
  have "rsp s0 \<le> rbp s0 + 8" using assms(1) word_le_add_8 [OF assms(2)] by (rule order.trans)
  then show "read_addr (smem (fold call cs s0)) (rbp s0) = Some b" using fr(2) assms(3) by (simp add: read_addr_def)
  show "\<not> b < ed" "\<forall>a \<in> set (rev (map fst cs)). a < ed" using assms(4,5) by auto
qed

text \<open>An example with three nested calls, as when \<open>main\<close> calls \<open>foo\<close>, which calls \<open>bar\<close>, which calls \<open>backtrace\<close>;
  the return addresses and the frame sizes are made up.\<close>

definition main_frame :: stack where
  "main_frame = \<lparr>rsp = 0x7ffc00001000, rbp = 0x7ffc00001010, smem = [0x7ffc00001018 \<mapsto> 0x7f1200029d90]\<rparr>"

definition unwind_calls :: "(u64 \<times> nat) list" where
  "unwind_calls = [(0x4012a5, 0), (0x401284, 0), (0x401273, 1040)]"

theorem backtrace_calls_witness:
  "rsp main_frame \<le> rbp main_frame \<and> depth unwind_calls = 1088 \<and>
   backtrace ''./unwind'' 0x404040 (smem (fold call unwind_calls main_frame)) (rbp (fold call unwind_calls main_frame)) =
     Some (Stops [0x401273, 0x401284, 0x4012a5])"
proof -
  have h: "rsp main_frame \<le> rbp main_frame" "rbp main_frame < - 8" "read_addr (smem main_frame) (rbp main_frame) = Some 0x7f1200029d90"
      "(0x404040 :: u64) \<le> 0x7f1200029d90" "\<forall>c \<in> set unwind_calls. fst c < 0x404040" "depth unwind_calls = 1088"
      "depth unwind_calls \<le> unat (rsp main_frame)"
    by (simp_all add: main_frame_def unwind_calls_def depth_def read_addr_def)
  show ?thesis using backtrace_calls [OF h(1-5,7), of "''./unwind''"] h by (simp add: unwind_calls_def)
qed

text \<open>The frames that the loop visits from \<open>f\<close>.\<close>

inductive visits :: "words \<Rightarrow> u64 \<Rightarrow> u64 \<Rightarrow> bool" for m :: words where
  visits_here: "visits m f f"
| visits_next: "read_next m f = Some n \<Longrightarrow> visits m n g \<Longrightarrow> visits m f g"

definition goes_up :: "words \<Rightarrow> u64 \<Rightarrow> bool" where
  "goes_up m f \<longleftrightarrow> (\<forall>g n. visits m f g \<and> read_next m g = Some n \<longrightarrow> g < n)"

lemma backtrace_ends: "goes_up m f \<Longrightarrow> \<exists>r. backtrace binary ed m f = Some r"
proof (induction "2 ^ 64 - unat f" arbitrary: f rule: less_induct)
  case less
  have IH: "\<exists>r. backtrace binary ed m n = Some r" if n: "read_next m f = Some n" for n
  proof (rule less.hyps)
    show "goes_up m n" using less.prems n by (auto simp: goes_up_def intro: visits_next)
    have "f < n" using less.prems n visits_here by (auto simp: goes_up_def)
    then show "2 ^ 64 - unat n < 2 ^ 64 - unat f" using unat_u64 [of n] by (simp add: word_less_nat_alt)
  qed
  then show ?case by (subst backtrace.simps) (auto split: option.splits)
qed

definition self_frame :: "string \<Rightarrow> u64 \<Rightarrow> words \<Rightarrow> u64 \<Rightarrow> bool" where
  "self_frame binary ed m f \<longleftrightarrow> length binary \<le> 991 \<and> read_next m f = Some f \<and>
     (case read_addr m f of None \<Rightarrow> False | Some a \<Rightarrow> a < ed)"

lemma backtrace_loop:
  assumes "backtrace binary ed m f = Some r"
  shows "\<not> self_frame binary ed m f"
  by (rule backtrace.raw_induct [where P = "\<lambda>binary ed m f r. \<not> self_frame binary ed m f", OF _ assms])
    (auto simp: self_frame_def addr2line_fits bind_eq_Some_conv split: option.splits if_splits, metis option.simps(5))

text \<open>
  When the unwinder ends. It ends, by a stop, a fault or a full buffer, when each saved
  frame pointer that it visits lies above the frame it is saved in; and it prints for ever when a
  frame with a return address in the program points to itself.
\<close>

theorem backtrace_termination:
  "(goes_up m f \<longrightarrow> (\<exists>r. backtrace binary ed m f = Some r)) \<and>
   (self_frame binary ed m f \<longrightarrow> backtrace binary ed m f = None)"
  using backtrace_ends [of m f binary ed] backtrace_loop [of binary ed m f] by (metis not_None_eq)

theorem backtrace_termination_witness:
  "(\<exists>r. backtrace ''./unwind'' 0x404040 [0x1000 \<mapsto> 0x2000, 0x1008 \<mapsto> 0x401273] 0x1000 = Some r) \<and>
   backtrace ''./unwind'' 0x404040 [0x1000 \<mapsto> 0x1000, 0x1008 \<mapsto> 0x401273] 0x1000 = None"
proof -
  let ?m = "[0x1000 \<mapsto> 0x2000, 0x1008 \<mapsto> 0x401273] :: words"
  have top: "g = 0x2000" if "visits ?m 0x2000 g" for g using that by (cases rule: visits.cases) (auto simp: read_next_def)
  have "g = 0x1000 \<or> g = 0x2000" if "visits ?m 0x1000 g" for g
    using that by (cases rule: visits.cases) (auto simp: read_next_def dest: top)
  then have "goes_up ?m 0x1000" by (auto simp: goes_up_def read_next_def)
  then show ?thesis
    using backtrace_termination [of ?m "0x1000" "''./unwind''" "0x404040"]
      backtrace_termination [of "[0x1000 \<mapsto> 0x1000, 0x1008 \<mapsto> 0x401273]" "0x1000" "''./unwind''" "0x404040"]
    by (simp add: self_frame_def read_next_def read_addr_def)
qed

end
