(* ===== verification/Thread_Demos.thy ===== *)
theory Thread_Demos
  imports Threads
begin

text \<open>
  The programs of \<^verbatim>\<open>concurrency/\<close> that run threads without any synchronisation:
  \<^verbatim>\<open>hello.c\<close>, \<^verbatim>\<open>memset-race.c\<close>, \<^verbatim>\<open>printf-race.c\<close>,
  \<^verbatim>\<open>shm-test.c\<close>, \<^verbatim>\<open>working-directory.c\<close> and \<^verbatim>\<open>stack-probe.c\<close>. For each of
  them it is shown what can and what cannot happen: which outputs the race allows, and which
  bounds hold in spite of it.
\<close>

subsection \<open>memset-race.c\<close>

text \<open>\<open>N\<close> is \<^verbatim>\<open>sizeof(buf)\<close>; \<^verbatim>\<open>memset\<close> writes one byte after the other.\<close>

record msc =
  mbuf :: "nat \<Rightarrow> char"
  mpos :: "tid \<Rightarrow> nat"

definition ms_init :: msc where
  "ms_init = \<lparr>mbuf = \<lambda>_. NUL, mpos = \<lambda>_. 0\<rparr>"

definition id_char :: "tid \<Rightarrow> char" where
  "id_char t = char_of (48 + t)"

definition foo :: "nat \<Rightarrow> tid \<Rightarrow> msc \<Rightarrow> msc option" where
  "foo N t c =
     (if mpos c t < N - 1
      then Some (c\<lparr>mbuf := (mbuf c)(mpos c t := id_char t), mpos := (mpos c)(t := Suc (mpos c t))\<rparr>)
      else None)"

text \<open>\<^verbatim>\<open>puts(buf)\<close> after the \<^verbatim>\<open>join\<close>.\<close>

definition puts_buf :: "nat \<Rightarrow> msc \<Rightarrow> string" where
  "puts_buf N c = takeWhile (\<lambda>b. b \<noteq> NUL) (map (mbuf c) [0..<N])"

definition workers :: "tid set" where
  "workers = {1, 2, 3, 4}"

definition ms_done :: "nat \<Rightarrow> msc \<Rightarrow> bool" where
  "ms_done N c \<longleftrightarrow> (\<forall>t \<in> workers. foo N t c = None)"

definition written :: "msc \<Rightarrow> nat \<Rightarrow> bool" where
  "written c i \<longleftrightarrow> (\<exists>t \<in> workers. i < mpos c t)"

definition ms_inv :: "nat \<Rightarrow> msc \<Rightarrow> bool" where
  "ms_inv N c \<longleftrightarrow> (\<forall>i. if written c i then mbuf c i \<in> id_char ` workers else mbuf c i = NUL) \<and>
     (\<forall>t \<in> workers. mpos c t \<le> N - 1)"

interpretation ms: threads_invariant ms_init "foo N" workers "ms_inv N" for N
proof
  show "ms_inv N ms_init" by (simp add: ms_inv_def ms_init_def written_def)
next
  fix t c c' assume inv: "ms_inv N c" and t: "t \<in> workers" and step: "foo N t c = Some c'"
  have "if written c' i then mbuf c' i \<in> id_char ` workers else mbuf c' i = NUL" for i
  proof (cases "i = mpos c t")
    case True
    then show ?thesis using t step by (auto simp: foo_def written_def split: if_splits)
  next
    case False
    then have "written c' i \<longleftrightarrow> written c i"
      using t step by (auto simp: written_def foo_def less_Suc_eq split: if_splits)
    moreover have "mbuf c' i = mbuf c i" using False step by (auto simp: foo_def split: if_splits)
    ultimately show ?thesis using inv unfolding ms_inv_def by metis
  qed
  then show "ms_inv N c'" using inv step by (auto simp: ms_inv_def foo_def split: if_splits)
qed

lemma id_char_nz: "t \<in> workers \<Longrightarrow> id_char t \<noteq> NUL"
proof
  assume "t \<in> workers" "id_char t = NUL"
  then have "of_char (id_char t) = (0 :: nat)" by simp
  then show False using \<open>t \<in> workers\<close> by (auto simp: id_char_def workers_def)
qed

lemma ms_done_pos: "ms_inv N c \<Longrightarrow> ms_done N c \<Longrightarrow> t \<in> workers \<Longrightarrow> mpos c t = N - 1"
  by (force simp: ms_inv_def ms_done_def foo_def not_less intro: antisym split: if_splits)

text \<open>One position after the other, each written last by the thread that \<open>w\<close> names.\<close>

definition ms_turns :: "(nat \<Rightarrow> tid) \<Rightarrow> nat \<Rightarrow> tid list" where
  "ms_turns w n = concat (map (\<lambda>i. filter (\<lambda>t. t \<noteq> w i) [1, 2, 3, 4] @ [w i]) [0..<n])"

lemma ms_round:
  assumes "i < N - 1" "distinct ts" "\<forall>t \<in> set ts. mpos c t = i" "ts \<noteq> []"
  shows "schedule (foo N) ts c =
    Some (c\<lparr>mbuf := (mbuf c)(i := id_char (last ts)), mpos := (\<lambda>t. if t \<in> set ts then Suc i else mpos c t)\<rparr>)"
  using assms
proof (induction ts arbitrary: c)
  case (Cons t ts)
  let ?c = "c\<lparr>mbuf := (mbuf c)(i := id_char t), mpos := (mpos c)(t := Suc i)\<rparr>"
  have s: "foo N t c = Some ?c" using Cons.prems by (simp add: foo_def)
  show ?case
  proof (cases "ts = []")
    case True
    then have "(\<lambda>u. if u \<in> set (t # ts) then Suc i else mpos c u) = (mpos c)(t := Suc i)" by auto
    then show ?thesis using s True by (simp add: fun_upd_def)
  next
    case False
    have "schedule (foo N) (t # ts) c = schedule (foo N) ts ?c" using s by simp
    also have "\<dots> = Some (?c\<lparr>mbuf := (mbuf ?c)(i := id_char (last ts)), mpos := (\<lambda>u. if u \<in> set ts then Suc i else mpos ?c u)\<rparr>)"
      by (rule Cons.IH) (use Cons.prems False in auto)
    also have "(\<lambda>u. if u \<in> set ts then Suc i else mpos ?c u) = (\<lambda>u. if u \<in> set (t # ts) then Suc i else mpos c u)"
      by auto
    also have "?c\<lparr>mbuf := (mbuf ?c)(i := id_char (last ts)), mpos := (\<lambda>u. if u \<in> set (t # ts) then Suc i else mpos c u)\<rparr> =
        c\<lparr>mbuf := (mbuf c)(i := id_char (last ts)), mpos := (\<lambda>u. if u \<in> set (t # ts) then Suc i else mpos c u)\<rparr>"
      by simp
    finally show ?thesis by (simp only: last_ConsR [OF False])
  qed
qed simp

lemma ms_turns_run:
  assumes "\<And>i. w i \<in> workers" "n \<le> N - 1"
  shows "\<exists>c. schedule (foo N) (ms_turns w n) ms_init = Some c \<and> (\<forall>t \<in> workers. mpos c t = n) \<and> (\<forall>i<n. mbuf c i = id_char (w i))"
  using assms(2)
proof (induction n)
  case 0
  then show ?case by (simp add: ms_turns_def ms_init_def)
next
  case (Suc n)
  let ?ts = "filter (\<lambda>t. t \<noteq> w n) [1, 2, 3, 4] @ [w n]"
  obtain c where c: "schedule (foo N) (ms_turns w n) ms_init = Some c" "\<forall>t \<in> workers. mpos c t = n" "\<forall>i<n. mbuf c i = id_char (w i)"
    using Suc by auto
  have ts: "set ?ts = workers" "distinct ?ts" using assms(1) [of n] by (auto simp: workers_def)
  have "schedule (foo N) ?ts c =
      Some (c\<lparr>mbuf := (mbuf c)(n := id_char (last ?ts)), mpos := (\<lambda>t. if t \<in> set ?ts then Suc n else mpos c t)\<rparr>)"
    by (rule ms_round) (use Suc.prems ts c(2) in auto)
  moreover have "ms_turns w (Suc n) = ms_turns w n @ ?ts" by (simp add: ms_turns_def)
  ultimately show ?case using c ts by (auto simp: schedule_append less_Suc_eq)
qed

lemma puts_until:
  assumes "\<And>i. i < N - 1 \<Longrightarrow> mbuf c i \<noteq> NUL" "mbuf c (N - 1) = NUL"
  shows "puts_buf N c = map (mbuf c) [0..<N - 1]"
proof (cases N)
  case (Suc n)
  then have "\<forall>x \<in> set (map (mbuf c) [0..<n]). x \<noteq> NUL" using assms(1) by auto
  then have "takeWhile (\<lambda>b. b \<noteq> NUL) (map (mbuf c) [0..<n] @ [NUL]) = map (mbuf c) [0..<n]" by (subst takeWhile_append2) auto
  then show ?thesis using Suc assms(2) by (simp add: puts_buf_def)
qed (simp add: puts_buf_def)

text \<open>
  What the racing memsets can print. Whatever the interleaving of the four threads of
  memset-race.c, once they have ended the program prints \<open>N - 1\<close> digits from 1 to 4, no byte is
  missed and none lies beyond the terminating zero; and every such sequence of digits can come
  out, so that nothing more can be said of the content.
\<close>

theorem memset_race_outputs:
  "{puts_buf N c | c. reachable ms_init (foo N) workers c \<and> ms_done N c} =
   {s. length s = N - 1 \<and> set s \<subseteq> id_char ` workers}"
proof (intro equalityI subsetI)
  fix s assume "s \<in> {puts_buf N c | c. reachable ms_init (foo N) workers c \<and> ms_done N c}"
  then obtain c where s: "s = puts_buf N c" and c: "reachable ms_init (foo N) workers c" "ms_done N c" by blast
  have inv: "ms_inv N c" by (rule ms.inv_reach [OF c(1)])
  have pos: "mpos c t = N - 1" if "t \<in> workers" for t by (rule ms_done_pos [OF inv c(2) that])
  then have "written c i \<longleftrightarrow> i < N - 1" for i by (auto simp: written_def) (auto simp: workers_def)
  then have b: "\<And>i. i < N - 1 \<Longrightarrow> mbuf c i \<in> id_char ` workers" and e: "mbuf c (N - 1) = NUL"
    using inv unfolding ms_inv_def by (metis, metis less_irrefl)
  have "s = map (mbuf c) [0..<N - 1]" unfolding s by (rule puts_until) (use b e id_char_nz in \<open>auto, metis imageE\<close>)
  then show "s \<in> {s. length s = N - 1 \<and> set s \<subseteq> id_char ` workers}" using b by auto
next
  fix s assume s: "s \<in> {s. length s = N - 1 \<and> set s \<subseteq> id_char ` workers}"
  then have "\<forall>i. \<exists>t \<in> workers. i < N - 1 \<longrightarrow> s ! i = id_char t" by (force simp: workers_def)
  then obtain w where w: "\<And>i. w i \<in> workers" "\<And>i. i < N - 1 \<Longrightarrow> s ! i = id_char (w i)" by metis
  obtain c where c: "schedule (foo N) (ms_turns w (N - 1)) ms_init = Some c" "\<forall>t \<in> workers. mpos c t = N - 1"
      "\<forall>i<N - 1. mbuf c i = id_char (w i)"
    using ms_turns_run [of w "N - 1" N] w(1) by auto
  have "set (ms_turns w (N - 1)) \<subseteq> workers" using w(1) by (auto simp: ms_turns_def workers_def split: if_splits)
  then have r: "reachable ms_init (foo N) workers c" by (rule schedule_reachable [OF c(1)])
  have d: "ms_done N c" using c(2) by (simp add: ms_done_def foo_def)
  have "written c (N - 1) \<longleftrightarrow> False" using c(2) by (auto simp: written_def)
  then have "mbuf c (N - 1) = NUL" using ms.inv_reach [OF r] unfolding ms_inv_def by metis
  then have "puts_buf N c = map (mbuf c) [0..<N - 1]" by (intro puts_until) (use c(3) w(1) id_char_nz in auto)
  also have "\<dots> = s" using s c(3) w(2) by (intro nth_equalityI) auto
  finally show "s \<in> {puts_buf N c | c. reachable ms_init (foo N) workers c \<and> ms_done N c}" using r d by blast
qed

subsection \<open>printf-race.c\<close>

text \<open>The colour \<open>k\<close> is a digit from 1 to 4. The output is kept with the thread that wrote each
  character; \<open>ppos\<close> is the position in the loop of \<^verbatim>\<open>use_putchar\<close>. One call of
  \<^verbatim>\<open>printf\<close> or \<^verbatim>\<open>putchar\<close> is atomic.\<close>

definition worker_buf :: "nat \<Rightarrow> string" where
  "worker_buf gettid = (let k = char_of (48 + (gettid mod 4 + 1)) in
     CHR 0x1B # ''[3'' @ [k] @ ''m'' @ [k] @ CHR 0x1B # ''[0m'')"

record prc =
  prout :: "(tid \<times> char) list"
  ppos :: "tid \<Rightarrow> nat"

definition pr_init :: prc where
  "pr_init = \<lparr>prout = [], ppos = \<lambda>_. 0\<rparr>"

definition use_printf :: "tid \<Rightarrow> string \<Rightarrow> prc \<Rightarrow> prc" where
  "use_printf t s c = c\<lparr>prout := prout c @ map (Pair t) s\<rparr>"

definition use_putchar :: "tid \<Rightarrow> string \<Rightarrow> prc \<Rightarrow> prc" where
  "use_putchar t s c =
     (if ppos c t < length s
      then c\<lparr>prout := prout c @ [(t, s ! ppos c t)], ppos := (ppos c)(t := Suc (ppos c t))\<rparr>
      else c\<lparr>ppos := (ppos c)(t := 0)\<rparr>)"

text \<open>\<open>argc > 1\<close> selects \<^verbatim>\<open>putchar\<close>.\<close>

definition pr_Tworker :: "nat \<Rightarrow> (tid \<Rightarrow> nat) \<Rightarrow> tid \<Rightarrow> prc \<Rightarrow> prc option" where
  "pr_Tworker argc gettid t c = Some ((if argc > 1 then use_putchar else use_printf) t (worker_buf (gettid t)) c)"

definition own_output :: "tid \<Rightarrow> prc \<Rightarrow> string" where
  "own_output t c = map snd (filter (\<lambda>(u, _). u = t) (prout c))"

lemma printf_run:
  "\<not> argc > 1 \<Longrightarrow> schedule (pr_Tworker argc gettid) ts c = Some c' \<Longrightarrow>
   map snd (prout c') = map snd (prout c) @ concat (map (\<lambda>t. worker_buf (gettid t)) ts)"
  by (induction ts arbitrary: c) (auto simp: pr_Tworker_def use_printf_def comp_def)

lemma concat_replicate_Suc: "concat (replicate (Suc k) s) = concat (replicate k s) @ s"
  by (induction k) simp_all

lemma putchar_run:
  assumes "argc > 1"
  shows "schedule (pr_Tworker argc gettid) ts pr_init = Some c \<Longrightarrow>
    \<exists>k. own_output t c = concat (replicate k (worker_buf (gettid t))) @ take (ppos c t) (worker_buf (gettid t)) \<and>
      ppos c t \<le> length (worker_buf (gettid t))"
proof (induction ts arbitrary: c rule: rev_induct)
  case Nil
  then have "c = pr_init" by simp
  then show ?case by (intro exI [of _ 0]) (simp add: pr_init_def own_output_def)
next
  case (snoc u ts)
  let ?s = "worker_buf (gettid t)"
  obtain d where d: "schedule (pr_Tworker argc gettid) ts pr_init = Some d" "pr_Tworker argc gettid u d = Some c"
    using snoc.prems by (auto simp: schedule_append bind_eq_Some_conv)
  obtain k where k: "own_output t d = concat (replicate k ?s) @ take (ppos d t) ?s" "ppos d t \<le> length ?s"
    using snoc.IH [OF d(1)] by blast
  have c: "c = use_putchar u (worker_buf (gettid u)) d" using d(2) assms by (simp add: pr_Tworker_def)
  show ?case
  proof (cases "u = t \<and> ppos d t = length ?s")
    case True
    then show ?thesis using k c
      by (intro exI [of _ "Suc k"]) (simp add: use_putchar_def own_output_def concat_replicate_Suc del: replicate_Suc)
  next
    case False
    then show ?thesis using k c
      by (intro exI [of _ k]) (auto simp: use_putchar_def own_output_def take_Suc_conv_app_nth)
  qed
qed

text \<open>
  One call of printf against many of putchar. Without an argument the output of printf-race.c is always a sequence of whole
  coloured digits, one for each call, in the order of the calls. With an argument it is one
  \<^verbatim>\<open>putchar\<close> per character: each thread's own characters still come in order, but two
  threads can begin their escape sequences one right after the other, so that the output is
  no sequence of whole ones.
\<close>

theorem printf_race_outputs:
  "(schedule (pr_Tworker 1 gettid) ts pr_init = Some c \<longrightarrow>
      map snd (prout c) = concat (map (\<lambda>t. worker_buf (gettid t)) ts)) \<and>
   (schedule (pr_Tworker 2 gettid) ts pr_init = Some c \<longrightarrow>
      (\<exists>k n. own_output t c = concat (replicate k (worker_buf (gettid t))) @ take n (worker_buf (gettid t)))) \<and>
   (\<exists>c'. schedule (pr_Tworker 2 gettid) [1, 2] pr_init = Some c' \<and> map snd (prout c') = [CHR 0x1B, CHR 0x1B])"
proof (intro conjI impI)
  assume "schedule (pr_Tworker 1 gettid) ts pr_init = Some c"
  then show "map snd (prout c) = concat (map (\<lambda>t. worker_buf (gettid t)) ts)"
    using printf_run [of 1] by (simp add: pr_init_def)
next
  assume "schedule (pr_Tworker 2 gettid) ts pr_init = Some c"
  then show "\<exists>k n. own_output t c = concat (replicate k (worker_buf (gettid t))) @ take n (worker_buf (gettid t))"
    using putchar_run [of 2] by fastforce
next
  show "\<exists>c'. schedule (pr_Tworker 2 gettid) [1, 2] pr_init = Some c' \<and> map snd (prout c') = [CHR 0x1B, CHR 0x1B]"
    by (simp add: pr_Tworker_def use_putchar_def pr_init_def worker_buf_def Let_def)
qed

text \<open>The third part needs no schedule of its own; the first two are applied to a run of each kind.\<close>

theorem printf_race_outputs_witness:
  "(\<exists>c. schedule (pr_Tworker 1 (\<lambda>t. t)) [1, 2] pr_init = Some c \<and> map snd (prout c) = worker_buf 1 @ worker_buf 2) \<and>
   (\<exists>c k n. schedule (pr_Tworker 2 (\<lambda>t. t)) [1, 2, 1] pr_init = Some c \<and>
      own_output 1 c = concat (replicate k (worker_buf 1)) @ take n (worker_buf 1))"
proof -
  obtain c where c: "schedule (pr_Tworker 1 (\<lambda>t. t)) [1, 2] pr_init = Some c" by (simp add: pr_Tworker_def)
  obtain d where d: "schedule (pr_Tworker 2 (\<lambda>t. t)) [1, 2, 1] pr_init = Some d" by (simp add: pr_Tworker_def)
  show ?thesis using printf_race_outputs [of "\<lambda>t. t" "[1, 2]" c 1] printf_race_outputs [of "\<lambda>t. t" "[1, 2, 1]" d 1] c d by force
qed

subsection \<open>shm-test.c\<close>

datatype shm_pc = SLoad | SStore nat | SPrint nat | SDone | SFault

record shmc =
  sx :: nat
  shpc :: "tid \<Rightarrow> shm_pc"
  shout :: string

definition shm_init :: shmc where
  "shm_init = \<lparr>sx = 0, shpc = \<lambda>_. SLoad, shout = []\<rparr>"

text \<open>The literal with its terminating zero; an index beyond it is a fault. The
  \<^verbatim>\<open>usleep\<close> before it only delays a thread.\<close>

definition hex_literal :: string where
  "hex_literal = ''123456789ABCDEF'' @ [NUL]"

definition Thello :: "tid \<Rightarrow> shmc \<Rightarrow> shmc option" where
  "Thello t c =
     (case shpc c t of
        SLoad \<Rightarrow> Some (c\<lparr>shpc := (shpc c)(t := SStore (sx c))\<rparr>)
      | SStore r \<Rightarrow> Some (c\<lparr>sx := r + 1, shpc := (shpc c)(t := SPrint r)\<rparr>)
      | SPrint r \<Rightarrow>
          Some (if r < length hex_literal then c\<lparr>shout := shout c @ [hex_literal ! r], shpc := (shpc c)(t := SDone)\<rparr>
                else c\<lparr>shpc := (shpc c)(t := SFault)\<rparr>)
      | SDone \<Rightarrow> None
      | SFault \<Rightarrow> None)"

definition stored :: "shm_pc \<Rightarrow> bool" where
  "stored q \<longleftrightarrow> (case q of SPrint _ \<Rightarrow> True | SDone \<Rightarrow> True | SFault \<Rightarrow> True | _ \<Rightarrow> False)"

definition nstored :: "tid set \<Rightarrow> shmc \<Rightarrow> nat" where
  "nstored T c = card {t \<in> T. stored (shpc c t)}"

definition shm_inv :: "tid set \<Rightarrow> shmc \<Rightarrow> bool" where
  "shm_inv T c \<longleftrightarrow> sx c \<le> nstored T c \<and> set (shout c) \<subseteq> set (take (card T) hex_literal) \<and>
     length (shout c) = card {t \<in> T. shpc c t = SDone} \<and>
     (\<forall>t \<in> T. case shpc c t of SStore r \<Rightarrow> r \<le> nstored T c | SPrint r \<Rightarrow> r < card T | SFault \<Rightarrow> False | _ \<Rightarrow> True)"

lemma nstored_less: "finite T \<Longrightarrow> t \<in> T \<Longrightarrow> \<not> stored (shpc c t) \<Longrightarrow> nstored T c < card T"
  unfolding nstored_def by (rule psubset_card_mono) auto

lemma card_filter_step:
  assumes "finite T" "t \<in> T" "\<And>u. u \<in> T \<Longrightarrow> u \<noteq> t \<Longrightarrow> Q u \<longleftrightarrow> P u" "\<not> P t"
  shows "card {u \<in> T. Q u} = card {u \<in> T. P u} + (if Q t then 1 else 0)"
proof -
  have "{u \<in> T. Q u} = (if Q t then insert t {u \<in> T. P u} else {u \<in> T. P u})" using assms by auto
  then show ?thesis using assms by auto
qed

lemma shm_inv_step:
  assumes fin: "finite T" "card T \<le> 16" and t: "t \<in> T" and inv: "shm_inv T c" and step: "Thello t c = Some c'"
  shows "shm_inv T c'"
proof (cases "shpc c t")
  case SLoad
  then have c': "c' = c\<lparr>shpc := (shpc c)(t := SStore (sx c))\<rparr>" using step by (simp add: Thello_def)
  have n: "nstored T c' = nstored T c" unfolding nstored_def using SLoad by (intro arg_cong [of _ _ card]) (auto simp: c' stored_def)
  have "{u \<in> T. shpc c' u = SDone} = {u \<in> T. shpc c u = SDone}" using SLoad by (auto simp: c')
  then show ?thesis using inv n by (auto simp: shm_inv_def c' split: shm_pc.splits)
next
  case (SStore r)
  then have c': "c' = c\<lparr>sx := r + 1, shpc := (shpc c)(t := SPrint r)\<rparr>" using step by (simp add: Thello_def)
  have n: "nstored T c' = nstored T c + 1" unfolding nstored_def
    using SStore by (subst card_filter_step [OF fin(1) t]) (auto simp: c' stored_def)
  have "{u \<in> T. shpc c' u = SDone} = {u \<in> T. shpc c u = SDone}" using SStore by (auto simp: c')
  moreover have "r < card T" using inv t SStore nstored_less [OF fin(1) t, of c] by (force simp: shm_inv_def stored_def)
  moreover have "r \<le> nstored T c" using inv t SStore by (force simp: shm_inv_def)
  ultimately show ?thesis using inv n by (auto simp: shm_inv_def c' split: shm_pc.splits)
next
  case (SPrint r)
  then have r: "r < card T" using inv t by (force simp: shm_inv_def)
  then have c': "c' = c\<lparr>shout := shout c @ [hex_literal ! r], shpc := (shpc c)(t := SDone)\<rparr>"
    using step SPrint fin by (simp add: Thello_def hex_literal_def)
  have n: "nstored T c' = nstored T c" unfolding nstored_def using SPrint by (intro arg_cong [of _ _ card]) (auto simp: c' stored_def)
  have "card {u \<in> T. shpc c' u = SDone} = card {u \<in> T. shpc c u = SDone} + 1"
    using SPrint by (subst card_filter_step [OF fin(1) t]) (auto simp: c')
  moreover have "hex_literal ! r \<in> set (take (card T) hex_literal)"
    using r fin by (auto simp: in_set_conv_nth hex_literal_def intro!: exI [of _ r])
  ultimately show ?thesis using inv n by (auto simp: shm_inv_def c' split: shm_pc.splits)
qed (use step in \<open>simp_all add: Thello_def\<close>)

interpretation shm: threads_invariant shm_init Thello "{1..10}" "shm_inv {1..10}"
proof
  show "shm_inv {1..10} shm_init" by (simp add: shm_inv_def shm_init_def)
qed (rule shm_inv_step, simp_all)

text \<open>
  The unprotected counter of shm-test.c stays in range. Whatever the interleaving of the
  loads and stores of \<^verbatim>\<open>x++\<close> in the ten threads, no thread indexes beyond the literal,
  only its first ten characters are printed, and there is one line for each thread that has
  ended; the threads may print the same character twice.
\<close>

theorem shm_test_in_range:
  "(reachable shm_init Thello {1..10} c \<longrightarrow>
      set (shout c) \<subseteq> set ''123456789A'' \<and> (\<forall>t \<in> {1..10}. shpc c t \<noteq> SFault) \<and>
      length (shout c) = card {t \<in> {1..10}. shpc c t = SDone}) \<and>
   (\<exists>d. reachable shm_init Thello {1..10} d \<and> shout d = ''11'')"
proof
  show "reachable shm_init Thello {1..10} c \<longrightarrow>
      set (shout c) \<subseteq> set ''123456789A'' \<and> (\<forall>t \<in> {1..10}. shpc c t \<noteq> SFault) \<and>
      length (shout c) = card {t \<in> {1..10}. shpc c t = SDone}"
  proof
    assume "reachable shm_init Thello {1..10} c"
    then have inv: "shm_inv {1..10} c" by (rule shm.inv_reach)
    moreover have "take (card {1..10::tid}) hex_literal = ''123456789A''" by (simp add: hex_literal_def)
    ultimately show "set (shout c) \<subseteq> set ''123456789A'' \<and> (\<forall>t \<in> {1..10}. shpc c t \<noteq> SFault) \<and>
        length (shout c) = card {t \<in> {1..10}. shpc c t = SDone}"
      unfolding shm_inv_def by fastforce
  qed
  have "case schedule Thello [1, 2, 1, 2, 1, 2] shm_init of None \<Rightarrow> False | Some d \<Rightarrow> shout d = ''11''" by code_simp
  then obtain d where d: "schedule Thello [1, 2, 1, 2, 1, 2] shm_init = Some d" "shout d = ''11''" by (auto split: option.splits)
  have "reachable shm_init Thello {1..10} d" by (rule schedule_reachable [OF d(1)]) simp
  with d(2) show "\<exists>d. reachable shm_init Thello {1..10} d \<and> shout d = ''11''" by blast
qed

theorem shm_test_in_range_witness:
  "\<exists>c. reachable shm_init Thello {1..10} c \<and> set (shout c) \<subseteq> set ''123456789A'' \<and> shpc c 3 \<noteq> SFault"
proof -
  have "reachable shm_init Thello {1..10} shm_init" by (rule reach_start) simp
  then show ?thesis using shm_test_in_range [of shm_init] by (auto simp: shm_init_def)
qed

subsection \<open>working-directory.c\<close>

datatype wd_pc = WPrint | WChdir | WCreat | WDone

text \<open>The working directory of the process as the list of its components, the innermost first;
  \<open>files\<close>: the directories in which the file \<^verbatim>\<open>demo\<close> has been created.\<close>

record wdc =
  cwd :: "string list"
  files :: "string list set"
  wdpc :: "tid \<Rightarrow> wd_pc"
  said :: "(tid \<times> string) list"
  rets :: "(tid \<times> bool) list"

definition wd_init :: "string list \<Rightarrow> wdc" where
  "wd_init d = \<lparr>cwd = d, files = {}, wdpc = \<lambda>_. WPrint, said = [], rets = []\<rparr>"

definition dir_1 :: string where "dir_1 = ''../''"
definition dir_2 :: string where "dir_2 = ''../..''"

text \<open>The number of steps up: \<open>r\<close> says whether \<^verbatim>\<open>rand() % 2\<close> was not 0. The root is its own
  parent.\<close>

definition ups :: "bool \<Rightarrow> nat" where
  "ups r = (if r then 1 else 2)"

text \<open>\<^verbatim>\<open>creat(file_name, O_RDONLY)\<close> makes a file without any permission (the mode is 0), so
  that a second \<^verbatim>\<open>creat\<close> of it fails, except for the superuser.\<close>

definition wd_worker :: "bool \<Rightarrow> (tid \<Rightarrow> bool) \<Rightarrow> tid \<Rightarrow> wdc \<Rightarrow> wdc option" where
  "wd_worker root rnd t c =
     (case wdpc c t of
        WPrint \<Rightarrow> Some (c\<lparr>said := said c @ [(t, if rnd t then dir_1 else dir_2)], wdpc := (wdpc c)(t := WChdir)\<rparr>)
      | WChdir \<Rightarrow> Some (c\<lparr>cwd := drop (ups (rnd t)) (cwd c), wdpc := (wdpc c)(t := WCreat)\<rparr>)
      | WCreat \<Rightarrow> Some (c\<lparr>rets := rets c @ [(t, root \<or> cwd c \<notin> files c)], files := insert (cwd c) (files c),
                            wdpc := (wdpc c)(t := WDone)\<rparr>)
      | WDone \<Rightarrow> None)"

definition moved :: "wd_pc \<Rightarrow> bool" where
  "moved q \<longleftrightarrow> q = WCreat \<or> q = WDone"

definition wd_inv :: "string list \<Rightarrow> (tid \<Rightarrow> bool) \<Rightarrow> tid set \<Rightarrow> wdc \<Rightarrow> bool" where
  "wd_inv d rnd T c \<longleftrightarrow>
     cwd c = drop (\<Sum>t \<in> {t \<in> T. moved (wdpc c t)}. ups (rnd t)) d \<and>
     ((\<forall>t \<in> T. moved (wdpc c t)) \<longrightarrow> (\<exists>t \<in> T. wdpc c t = WCreat) \<or> cwd c \<in> files c)"

lemma wd_inv_step:
  assumes fin: "finite T" and t: "t \<in> T" and inv: "wd_inv d rnd T c" and step: "wd_worker root rnd t c = Some c'"
  shows "wd_inv d rnd T c'"
proof (cases "wdpc c t")
  case WPrint
  then have c': "c' = c\<lparr>said := said c @ [(t, if rnd t then dir_1 else dir_2)], wdpc := (wdpc c)(t := WChdir)\<rparr>"
    using step by (simp add: wd_worker_def)
  have "{u \<in> T. moved (wdpc c' u)} = {u \<in> T. moved (wdpc c u)}" "\<not> moved (wdpc c' t)"
    using WPrint by (auto simp: c' moved_def)
  then show ?thesis using inv t by (auto simp: wd_inv_def c')
next
  case WChdir
  then have c': "c' = c\<lparr>cwd := drop (ups (rnd t)) (cwd c), wdpc := (wdpc c)(t := WCreat)\<rparr>"
    using step by (simp add: wd_worker_def)
  have "{u \<in> T. moved (wdpc c' u)} = insert t {u \<in> T. moved (wdpc c u)}" "t \<notin> {u \<in> T. moved (wdpc c u)}"
    using WChdir t by (auto simp: c' moved_def)
  then have "(\<Sum>u \<in> {u \<in> T. moved (wdpc c' u)}. ups (rnd u)) = ups (rnd t) + (\<Sum>u \<in> {u \<in> T. moved (wdpc c u)}. ups (rnd u))"
    using fin by simp
  moreover have "cwd c' = drop (ups (rnd t)) (cwd c)" "wdpc c' t = WCreat" by (simp_all add: c')
  ultimately show ?thesis using inv t unfolding wd_inv_def by (metis drop_drop)
next
  case WCreat
  then have c': "c' = c\<lparr>rets := rets c @ [(t, root \<or> cwd c \<notin> files c)], files := insert (cwd c) (files c), wdpc := (wdpc c)(t := WDone)\<rparr>"
    using step by (simp add: wd_worker_def)
  have "{u \<in> T. moved (wdpc c' u)} = {u \<in> T. moved (wdpc c u)}" using WCreat by (auto simp: c' moved_def)
  then show ?thesis using inv by (simp add: wd_inv_def c')
qed (use step in \<open>simp add: wd_worker_def\<close>)

interpretation wd: threads_invariant "wd_init d" "wd_worker root rnd" "{1, 2}" "wd_inv d rnd {1, 2}" for d root rnd
proof
  show "wd_inv d rnd {1, 2} (wd_init d)" by (auto simp: wd_inv_def wd_init_def moved_def)
qed (rule wd_inv_step, simp_all)

text \<open>
  Threads share their working directory. Each of the two threads of working-directory.c
  announces that it will create the file one or two levels above the start. In every
  interleaving, when both have ended, the file has been created in the directory that lies the
  sum of both above it, which is the directory of neither announcement when the start lies deep
  enough.
\<close>

theorem working_directory_shared:
  assumes "reachable (wd_init d) (wd_worker root rnd) {1, 2} c" "wdpc c 1 = WDone" "wdpc c 2 = WDone"
  shows "cwd c = drop (ups (rnd 1) + ups (rnd 2)) d \<and> drop (ups (rnd 1) + ups (rnd 2)) d \<in> files c \<and>
    (2 < length d \<longrightarrow> (\<forall>t \<in> {1, 2}. drop (ups (rnd t)) d \<noteq> cwd c))"
proof -
  have "wd_inv d rnd {1, 2} c" by (rule wd.inv_reach [OF assms(1)])
  moreover have "{t \<in> {1, 2}. moved (wdpc c t)} = {1, 2}" using assms(2,3) by (auto simp: moved_def)
  ultimately have c: "cwd c = drop (ups (rnd 1) + ups (rnd 2)) d" "cwd c \<in> files c"
    using assms(2,3) by (auto simp: wd_inv_def moved_def)
  moreover have "drop (ups (rnd t)) d \<noteq> cwd c" if "2 < length d" "t \<in> {1, 2}" for t
  proof
    assume "drop (ups (rnd t)) d = cwd c"
    then have "length (drop (ups (rnd t)) d) = length (drop (ups (rnd 1) + ups (rnd 2)) d)" using c by simp
    then show False using that by (auto simp: ups_def split: if_splits)
  qed
  ultimately show ?thesis by auto
qed

definition ex_start :: "string list" where
  "ex_start = [''concurrency'', ''code'', ''os'', ''home'']"

theorem working_directory_shared_witness:
  "\<exists>c. reachable (wd_init ex_start) (wd_worker False (\<lambda>t. t = 1)) {1, 2} c \<and> wdpc c 1 = WDone \<and> wdpc c 2 = WDone \<and>
     [''home''] \<in> files c"
proof -
  let ?s = "schedule (wd_worker False (\<lambda>t. t = 1)) [1, 2, 1, 2, 1, 2] (wd_init ex_start)"
  have "case ?s of None \<Rightarrow> False | Some c \<Rightarrow> wdpc c 1 = WDone \<and> wdpc c 2 = WDone" by code_simp
  then obtain c where c: "?s = Some c" "wdpc c 1 = WDone" "wdpc c 2 = WDone" by (auto split: option.splits)
  have r: "reachable (wd_init ex_start) (wd_worker False (\<lambda>t. t = 1)) {1, 2} c" by (rule schedule_reachable [OF c(1)]) auto
  show ?thesis using working_directory_shared [OF r c(2,3)] r c(2,3) by (intro exI [of _ c]) (auto simp: ups_def ex_start_def)
qed

subsection \<open>stack-probe.c\<close>

text \<open>The parameter \<open>n\<close> of the call at depth \<open>n\<close> lies \<open>off + n * fs\<close> bytes below that of \<^verbatim>\<open>Tprobe\<close>,
  for a frame of \<open>fs\<close> bytes; the call that would leave the \<open>lim\<close> bytes of the stack is the
  segmentation fault that ends the program. The numbers are those of the printed lines. (With no frame at all, \<open>fs = 0\<close>,
  the recursion would not use the stack; it is left out.)\<close>

function stackoverflow :: "nat \<Rightarrow> nat \<Rightarrow> nat \<Rightarrow> nat \<Rightarrow> nat list" where
  "stackoverflow fs off lim n =
     (if fs = 0 \<or> lim < off + n * fs then []
      else (if n mod 1024 = 0 then [(off + n * fs) div 1024] else []) @ stackoverflow fs off lim (n + 1))"
  by pat_completeness auto
termination
  by (relation "measure (\<lambda>(fs, off, lim, n). Suc lim - (off + n * fs))") auto

declare stackoverflow.simps [simp del]

definition Tprobe :: "nat \<Rightarrow> nat \<Rightarrow> nat \<Rightarrow> nat list" where
  "Tprobe fs off lim = stackoverflow fs off lim 0"

lemma stackoverflow_lines:
  assumes "0 < fs" "off \<le> lim" "n \<le> Suc ((lim - off) div fs)"
  shows "stackoverflow fs off lim n =
    map (\<lambda>m. (off + m * fs) div 1024) (filter (\<lambda>m. m mod 1024 = 0) [n..<Suc ((lim - off) div fs)])"
  using assms
proof (induction fs off lim n rule: stackoverflow.induct)
  case (1 fs off lim n)
  let ?K = "Suc ((lim - off) div fs)"
  have fits: "off + n * fs \<le> lim \<longleftrightarrow> n < ?K"
    using "1.prems"(1,2) by (simp add: less_Suc_eq_le less_eq_div_iff_mult_less_eq) linarith
  show ?case
  proof (cases "n < ?K")
    case True
    then have "stackoverflow fs off lim (n + 1) =
        map (\<lambda>m. (off + m * fs) div 1024) (filter (\<lambda>m. m mod 1024 = 0) [n + 1..<?K])"
      using 1 fits by auto
    then show ?thesis using True fits "1.prems"(1) by (subst stackoverflow.simps) (simp add: upt_conv_Cons not_less del: upt_Suc)
  next
    case False
    then show ?thesis using fits by (subst stackoverflow.simps) (simp add: not_le)
  qed
qed

text \<open>
  The stack probe brackets the size of its stack. With frames of \<open>fs\<close> bytes in a stack of
  \<open>lim\<close> bytes, every printed number of kilobytes is really there, and the last one falls
  short of the size by less than 1024 frames and a kilobyte.
\<close>

theorem stack_probe_bounds:
  assumes "0 < fs" "off \<le> lim"
  shows "Tprobe fs off lim \<noteq> [] \<and> (\<forall>k \<in> set (Tprobe fs off lim). 1024 * k \<le> lim) \<and>
    lim < 1024 * (last (Tprobe fs off lim) + 1) + 1024 * fs"
proof -
  let ?q = "(lim - off) div fs" and ?f = "\<lambda>m. (off + m * fs) div 1024"
  define r where "r = ?q - ?q mod 1024"
  have l: "Tprobe fs off lim = map ?f (filter (\<lambda>m. m mod 1024 = 0) [0..<Suc ?q])"
    using stackoverflow_lines [OF assms, of 0] by (simp add: Tprobe_def)
  have r: "r \<le> ?q" "r mod 1024 = 0" "?q < r + 1024" by (simp_all add: r_def minus_mod_eq_mult_div)
  then have "[0..<Suc ?q] = [0..<r] @ r # [Suc r..<Suc ?q]"
    by (metis le_imp_less_Suc upt_add_eq_append upt_conv_Cons le_add_diff_inverse zero_le less_imp_le)
  moreover have "filter (\<lambda>m. m mod 1024 = 0) [Suc r..<Suc ?q] = []"
  proof -
    have "m mod 1024 \<noteq> 0" if "r < m" "m \<le> ?q" for m
    proof -
      have "m mod 1024 = (r mod 1024 + (m - r)) mod 1024" using that(1) by (simp only: mod_add_left_eq) simp
      then show ?thesis using that r by simp
    qed
    then show ?thesis by (auto simp: filter_empty_conv)
  qed
  ultimately have s: "Tprobe fs off lim = map ?f (filter (\<lambda>m. m mod 1024 = 0) [0..<r]) @ [?f r]" using l r by simp
  have fit: "off + m * fs \<le> lim" if "m \<le> ?q" for m
  proof -
    have "m * fs \<le> lim - off" using that assms(1) by (simp add: less_eq_div_iff_mult_less_eq)
    then show ?thesis using assms(2) by simp
  qed
  have b: "1024 * k \<le> lim" if k: "k \<in> set (Tprobe fs off lim)" for k
  proof -
    obtain m where m: "k = ?f m" "m \<le> ?q" using k unfolding l by (auto simp del: upt_Suc)
    have "1024 * ?f m \<le> off + m * fs" by simp
    then show ?thesis using m fit [OF m(2)] by linarith
  qed
  have "lim - off < Suc ?q * fs" using assms(1) by (simp add: dividend_less_div_times)
  also have "Suc ?q * fs \<le> (r + 1024) * fs" using r(3) by (intro mult_le_mono1) simp
  finally have "lim < off + r * fs + 1024 * fs" using assms(2) by (simp add: algebra_simps)
  moreover have "off + r * fs < 1024 * (?f r + 1)" by simp
  ultimately have "lim < 1024 * (last (Tprobe fs off lim) + 1) + 1024 * fs" using s by simp
  then show ?thesis using s b by simp
qed

theorem stack_probe_bounds_witness:
  "(0::nat) < 48 \<and> (\<forall>k \<in> set (Tprobe 48 64 (8192 * 1024)). 1024 * k \<le> 8192 * 1024)"
  using stack_probe_bounds [of 48 64 "8192 * 1024"] by simp

subsection \<open>hello.c\<close>

text \<open>Thread 1 runs \<^verbatim>\<open>Ta\<close>, thread 2 \<^verbatim>\<open>Tb\<close>; the state is the output.\<close>

definition hello_thread :: "tid \<Rightarrow> string \<Rightarrow> string option" where
  "hello_thread t out = Some (out @ (if t = 1 then ''a'' else ''b''))"

text \<open>Every mixture of the two letters, and nothing else, can come out.\<close>

lemma hello_outputs: "{out. \<exists>ts. set ts \<subseteq> {1, 2} \<and> schedule hello_thread ts [] = Some out} = {s. set s \<subseteq> set ''ab''}"
proof -
  have run: "schedule hello_thread ts out = Some (out @ map (\<lambda>t. if t = 1 then CHR ''a'' else CHR ''b'') ts)" for ts out
    by (induction ts arbitrary: out) (auto simp: hello_thread_def)
  have "\<exists>ts. set ts \<subseteq> {1, 2} \<and> schedule hello_thread ts [] = Some s" if "set s \<subseteq> set ''ab''" for s
    using that by (intro exI [of _ "map (\<lambda>x. if x = CHR ''a'' then 1 else 2) s"]) (auto simp: run comp_def intro!: map_idI)
  then show ?thesis by (auto simp: run)
qed

end
