(* ===== verification/Process_Demos.thy ===== *)
theory Process_Demos
  imports Prelude
begin

text \<open>
  Small programs about processes and memory: \<^verbatim>\<open>virtualization/exit-demo.c\<close> (which ways of
  ending a process run the exit handlers), \<^verbatim>\<open>signal-handler.c\<close> (signals, with the default actions of those without a handler, and reads as events),
  \<^verbatim>\<open>cow-test.c\<close> (private copies after \<^verbatim>\<open>fork\<close>), \<^verbatim>\<open>mmap-alloc.c\<close>,
  \<^verbatim>\<open>env.c\<close>, \<^verbatim>\<open>execve-demo.c\<close>, \<^verbatim>\<open>shebang/a.c\<close>,
  \<^verbatim>\<open>relocation/hello.c\<close> (the operand of a relative call) and
  \<^verbatim>\<open>baremetal-hello/\<close> (one program on a hosted and on a bare machine). The results of the
  system calls are parameters.
\<close>

subsection \<open>exit-demo.c\<close>

text \<open>\<open>Exit\<close> is the function of the C library, also at the end of \<open>main\<close>; \<open>RawExit\<close> goes straight to
  the kernel, by \<^verbatim>\<open>_exit\<close> or by the system call.\<close>

datatype ending = Exit int | RawExit int

definition exit_demo :: "string list \<Rightarrow> ending" where
  "exit_demo argv =
     (if length argv < 2 then Exit 1
      else if argv ! 1 = ''exit'' then Exit 0
      else if argv ! 1 = ''_exit'' then RawExit 0
      else if argv ! 1 = ''__exit'' then RawExit 0
      else Exit 0)"

text \<open>The handlers registered with \<^verbatim>\<open>atexit\<close> run in the reverse order of their registration.\<close>

fun run_atexit :: "string list \<Rightarrow> ending \<Rightarrow> string list" where
  "run_atexit handlers (Exit _) = rev handlers"
| "run_atexit handlers (RawExit _) = []"

definition func :: string where "func = ''Goodbye, Cruel OS World!''"

lemma exit_demo_goodbye:
  "run_atexit [func] (exit_demo (p # args)) = (if args \<noteq> [] \<and> hd args \<in> {''_exit'', ''__exit''} then [] else [func])"
  by (cases args) (auto simp: exit_demo_def)

subsection \<open>signal-handler.c\<close>

definition SIGINT :: int where "SIGINT = 2"
definition SIGQUIT :: int where "SIGQUIT = 3"

text \<open>What happens to a process: the delivery of a signal, or the return of its \<^verbatim>\<open>read\<close> with a
  result and the bytes that were stored. After the \<^verbatim>\<open>fork\<close> of \<open>main\<close> there are two processes with this
  loop and their own memory; each is a run of its own, on the events that reach it.\<close>

datatype sigev = Signal int | Returns int string

datatype sigout = GotInt | GotQuit | Got string | ReadError | Cleanup

text \<open>A process ends by \<^verbatim>\<open>exit\<close> with a status, or is killed by a signal.\<close>

datatype sigend = Exited int | Killed int

text \<open>\<open>sout\<close>: what was given to \<^verbatim>\<open>printf\<close> and \<^verbatim>\<open>perror\<close>; \<open>oob\<close>: the indices written
  outside of \<^verbatim>\<open>buf\<close>; \<open>ended\<close>: how the process has ended.\<close>

record sigst =
  sbuf :: string
  sout :: "sigout list"
  oob :: "int list"
  ended :: "sigend option"

definition sig_init :: "string \<Rightarrow> sigst" where
  "sig_init b = \<lparr>sbuf = b, sout = [], oob = [], ended = None\<rparr>"

definition say :: "sigout list \<Rightarrow> sigst \<Rightarrow> sigst" where
  "say os s = s\<lparr>sout := sout s @ os\<rparr>"

definition exit_sig :: "int \<Rightarrow> sigst \<Rightarrow> sigst" where
  "exit_sig status s = (say [Cleanup] s)\<lparr>ended := Some (Exited status)\<rparr>"

definition sig_handler :: "int \<Rightarrow> sigst \<Rightarrow> sigst" where
  "sig_handler signum s =
     (if signum = SIGINT then say [GotInt] s
      else if signum = SIGQUIT then exit_sig 0 (say [GotQuit] s)
      else s)"

definition put_nul :: "int \<Rightarrow> sigst \<Rightarrow> sigst" where
  "put_nul i s = (if 0 \<le> i \<and> i < 4096 then s\<lparr>sbuf := (sbuf s)[nat i := NUL]\<rparr> else s\<lparr>oob := oob s @ [i]\<rparr>)"

definition loop_body :: "int \<Rightarrow> string \<Rightarrow> sigst \<Rightarrow> sigst" where
  "loop_body nread d s =
     (let s = s\<lparr>sbuf := d @ drop (length d) (sbuf s)\<rparr>;
          s = put_nul (nread - 1) s;
          s = say [Got (takeWhile (\<lambda>c. c \<noteq> NUL) (sbuf s))] s
      in if nread < 0 then exit_sig 1 (say [ReadError] s) else s)"

text \<open>The two signals that \<open>main\<close> installs the handler for. Every other signal has its default
  action (signal(7)): SIGCHLD, SIGCONT, SIGURG and SIGWINCH are ignored by a running process;
  SIGSTOP, SIGTSTP, SIGTTIN and SIGTTOU stop it until it is continued, which changes nothing but the
  time of its next event; all others kill it, without the handlers of \<^verbatim>\<open>atexit\<close>.\<close>

definition installed :: "int list" where "installed = [SIGINT, SIGQUIT]"

definition default_ignored :: "int list" where "default_ignored = [17, 18, 23, 28]"
definition default_stops :: "int list" where "default_stops = [19, 20, 21, 22]"

definition default_action :: "int \<Rightarrow> sigst \<Rightarrow> sigst" where
  "default_action n s = (if n \<in> set default_ignored \<or> n \<in> set default_stops then s else s\<lparr>ended := Some (Killed n)\<rparr>)"

definition deliver :: "int \<Rightarrow> sigst \<Rightarrow> sigst" where
  "deliver n s = (if n \<in> set installed then sig_handler n s else default_action n s)"

fun sig_step :: "sigev \<Rightarrow> sigst \<Rightarrow> sigst" where
  "sig_step (Signal n) s = deliver n s"
| "sig_step (Returns n d) s = loop_body n d s"

fun sig_run :: "sigev list \<Rightarrow> sigst \<Rightarrow> sigst" where
  "sig_run [] s = s"
| "sig_run (e # es) s = (if ended s = None then sig_run es (sig_step e s) else s)"

text \<open>What the kernel guarantees: a signal has a number from 1 to 64; \<^verbatim>\<open>read\<close> stores as many
  bytes as it returns, at most the size of the buffer, and none with an error.\<close>

definition event_ok :: "sigev \<Rightarrow> bool" where
  "event_ok e = (case e of Signal n \<Rightarrow> 1 \<le> n \<and> n \<le> 64 | Returns n d \<Rightarrow> n \<le> 4096 \<and> length d = nat n)"

text \<open>How an event ends the process, if it does.\<close>

fun ending_of :: "sigev \<Rightarrow> sigend option" where
  "ending_of (Signal n) =
     (if n = SIGINT then None else if n = SIGQUIT then Some (Exited 0)
      else if 17 \<le> n \<and> n \<le> 23 \<or> n = 28 then None else Some (Killed n))"
| "ending_of (Returns n _) = (if n < 0 then Some (Exited 1) else None)"

text \<open>The events that reach the process: up to the first that ends it.\<close>

fun seen :: "sigev list \<Rightarrow> sigev list" where
  "seen [] = []"
| "seen (e # es) = e # (if ending_of e = None then seen es else [])"

fun bad_index :: "sigev \<Rightarrow> int list" where
  "bad_index (Signal _) = []"
| "bad_index (Returns n _) = (if n \<le> 0 then [n - 1] else [])"

lemmas sig_defs = sig_handler_def default_action_def default_ignored_def default_stops_def deliver_def installed_def
  exit_sig_def say_def put_nul_def

lemma sig_step_ended: "ended s = None \<Longrightarrow> ended (sig_step e s) = ending_of e"
  by (cases e) (auto simp: sig_defs loop_body_def Let_def SIGINT_def SIGQUIT_def)

lemma sig_run_stop: "ended s \<noteq> None \<Longrightarrow> sig_run es s = s"
  by (cases es) auto

lemma sig_run_ended:
  "ended s = None \<Longrightarrow> ended (sig_run es s) = (if seen es = [] then None else ending_of (last (seen es)))"
proof (induction es arbitrary: s)
  case (Cons e es)
  show ?case
  proof (cases "ending_of e")
    case None
    then show ?thesis using Cons by (simp add: sig_step_ended)
  next
    case (Some r)
    then show ?thesis using Cons.prems by (simp add: sig_step_ended sig_run_stop)
  qed
qed simp

lemma sig_step_oob: "event_ok e \<Longrightarrow> oob (sig_step e s) = oob s @ bad_index e"
  by (cases e) (auto simp: event_ok_def sig_defs loop_body_def Let_def)

lemma sig_run_oob:
  "ended s = None \<Longrightarrow> list_all event_ok es \<Longrightarrow> oob (sig_run es s) = oob s @ concat (map bad_index (seen es))"
  by (induction es arbitrary: s) (auto simp: sig_step_ended sig_step_oob sig_run_stop)

text \<open>The exit handler has run exactly when the process has ended by \<^verbatim>\<open>exit\<close>.\<close>

definition cleaned :: "sigst \<Rightarrow> bool" where
  "cleaned s \<longleftrightarrow> Cleanup \<in> set (sout s)"

lemma sig_step_cleaned:
  "ended s = None \<Longrightarrow> \<not> cleaned s \<Longrightarrow> cleaned (sig_step e s) \<longleftrightarrow> (\<exists>st. ended (sig_step e s) = Some (Exited st))"
  by (cases e) (auto simp: cleaned_def sig_defs loop_body_def Let_def SIGINT_def SIGQUIT_def)

lemma sig_run_cleaned:
  "ended s = None \<Longrightarrow> \<not> cleaned s \<Longrightarrow> cleaned (sig_run es s) \<longleftrightarrow> (\<exists>st. ended (sig_run es s) = Some (Exited st))"
proof (induction es arbitrary: s)
  case (Cons e es)
  show ?case
  proof (cases "ended (sig_step e s)")
    case None
    then have "\<not> cleaned (sig_step e s)" using sig_step_cleaned [OF Cons.prems] by simp
    then show ?thesis using Cons.IH [OF None] Cons.prems(1) by simp
  next
    case (Some r)
    then show ?thesis using sig_step_cleaned [OF Cons.prems] Cons.prems(1) by (simp add: sig_run_stop)
  qed
qed simp

fun sig_line :: "sigev \<Rightarrow> sigout list" where
  "sig_line (Signal n) = (if n = SIGINT then [GotInt] else if n = SIGQUIT then [GotQuit, Cleanup] else [])"
| "sig_line (Returns n d) = [Got (takeWhile (\<lambda>c. c \<noteq> NUL) (butlast d))]"

lemma takeWhile_NUL: "takeWhile (\<lambda>c. c \<noteq> NUL) (xs @ NUL # ys) = takeWhile (\<lambda>c. c \<noteq> NUL) xs"
  by (induction xs) auto

lemma put_nul_line:
  assumes "1 \<le> n" "n \<le> 4096" "length d = nat n"
  shows "put_nul (n - 1) (s\<lparr>sbuf := d @ r\<rparr>) = s\<lparr>sbuf := butlast d @ NUL # r\<rparr>"
proof -
  have "d \<noteq> []" using assms by auto
  then have d: "d = butlast d @ [last d]" "length (butlast d) = nat (n - 1)" using assms by (simp_all add: nat_diff_distrib)
  have "(d @ r)[nat (n - 1) := NUL] = butlast d @ NUL # r"
    by (subst d(1)) (simp add: list_update_append d(2) [symmetric])
  then show ?thesis using assms by (simp add: put_nul_def)
qed

lemma sig_step_out: "event_ok e \<Longrightarrow> bad_index e = [] \<Longrightarrow> sout (sig_step e s) = sout s @ sig_line e"
proof (cases e)
  case (Returns n d)
  assume "event_ok e" "bad_index e = []"
  then have "1 \<le> n" "n \<le> 4096" "length d = nat n" using Returns by (auto simp: event_ok_def split: if_splits)
  then show ?thesis using Returns by (simp add: loop_body_def put_nul_line say_def takeWhile_NUL Let_def)
qed (auto simp: sig_defs SIGINT_def SIGQUIT_def)

lemma sig_run_out:
  "ended s = None \<Longrightarrow> list_all event_ok es \<Longrightarrow> concat (map bad_index (seen es)) = [] \<Longrightarrow>
   sout (sig_run es s) = sout s @ concat (map sig_line (seen es))"
  by (induction es arbitrary: s) (auto simp: sig_step_ended sig_step_out sig_run_stop simp del: sig_step.simps split: if_splits)

text \<open>
  C34: the events of signal-handler.c. Whatever signals and reads reach a process, it ends at the
  first event that ends it: with status 0 at the quit signal, with status 1 at a failed read, killed
  by a signal that has no handler and is fatal by default. It has run its exit handler exactly when
  it has ended by \<^verbatim>\<open>exit\<close>. It writes outside of its buffer exactly at the reads that return 0
  or an error, at the index before the returned number, and so before every exit with status 1.
  As long as no read does that, what it prints is one line for each event that reaches it: each
  read without its last character, each interrupt, and at the quit signal the farewell and, once
  and last, the exit handler; a signal without a handler prints nothing.
\<close>

theorem signal_handler_events:
  assumes "list_all event_ok es"
  shows "ended (sig_run es (sig_init b)) = (if seen es = [] then None else ending_of (last (seen es))) \<and>
    (cleaned (sig_run es (sig_init b)) \<longleftrightarrow> (\<exists>st. ended (sig_run es (sig_init b)) = Some (Exited st))) \<and>
    oob (sig_run es (sig_init b)) = concat (map bad_index (seen es)) \<and>
    (ended (sig_run es (sig_init b)) = Some (Exited 1) \<longrightarrow> oob (sig_run es (sig_init b)) \<noteq> []) \<and>
    (oob (sig_run es (sig_init b)) = [] \<longrightarrow> sout (sig_run es (sig_init b)) = concat (map sig_line (seen es)))"
proof -
  have i: "ended (sig_init b) = None" "\<not> cleaned (sig_init b)" "oob (sig_init b) = []" "sout (sig_init b) = []"
    by (simp_all add: sig_init_def cleaned_def)
  have e: "ended (sig_run es (sig_init b)) = (if seen es = [] then None else ending_of (last (seen es)))"
    by (rule sig_run_ended [OF i(1)])
  have o: "oob (sig_run es (sig_init b)) = concat (map bad_index (seen es))"
    using sig_run_oob [OF i(1) assms] i(3) by simp
  have "oob (sig_run es (sig_init b)) \<noteq> []" if x: "ended (sig_run es (sig_init b)) = Some (Exited 1)"
  proof -
    have "seen es \<noteq> []" "ending_of (last (seen es)) = Some (Exited 1)" using e x by (auto split: if_splits)
    moreover have "bad_index (last (seen es)) \<noteq> []" using calculation(2) by (cases "last (seen es)") (auto split: if_splits)
    ultimately show ?thesis using o last_in_set [of "seen es"] by auto
  qed
  moreover have "sout (sig_run es (sig_init b)) = concat (map sig_line (seen es))" if "oob (sig_run es (sig_init b)) = []"
    using sig_run_out [OF i(1) assms] that o i(4) by simp
  ultimately show ?thesis using e o sig_run_cleaned [OF i(1,2)] by blast
qed

text \<open>Two processes: one ended by the quit signal, one killed by SIGTERM (15) before its next read.\<close>

theorem signal_handler_events_witness:
  "sout (sig_run [Signal 2, Returns 3 [CHR ''h'', CHR ''i'', NL], Signal 3] (sig_init (replicate 4096 NUL))) =
     [GotInt, Got ''hi'', GotQuit, Cleanup] \<and>
   ended (sig_run [Signal 28, Signal 15, Returns 0 []] (sig_init (replicate 4096 NUL))) = Some (Killed 15) \<and>
   \<not> cleaned (sig_run [Signal 28, Signal 15, Returns 0 []] (sig_init (replicate 4096 NUL)))"
proof -
  let ?es = "[Signal 2, Returns 3 [CHR ''h'', CHR ''i'', NL], Signal 3]" and ?fs = "[Signal 28, Signal 15, Returns 0 []]"
  have "list_all event_ok ?es" "list_all event_ok ?fs" by (simp_all add: event_ok_def)
  then show ?thesis
    using signal_handler_events [of ?es "replicate 4096 NUL"] signal_handler_events [of ?fs "replicate 4096 NUL"]
    by (simp add: SIGQUIT_def SIGINT_def)
qed

subsection \<open>cow-test.c\<close>

definition NPROC :: nat where "NPROC = 1000"
definition MB :: nat where "MB = 128"
definition SIZE :: nat where "SIZE = MB * 2 ^ 20"

text \<open>The memories of the processes that leave the loop with \<open>k\<close> forks to come: a child leaves at
  once, with its copy, the parent goes on.\<close>

fun fork_loop :: "nat \<Rightarrow> 'm \<Rightarrow> 'm list" where
  "fork_loop 0 m = [m]"
| "fork_loop (Suc k) m = m # fork_loop k m"

text \<open>The rest of \<open>main\<close> in each of them; \<open>r\<close> is the number read from the random device, which can
  be opened.\<close>

definition write_one :: "u32 \<Rightarrow> (nat \<Rightarrow> char option) \<Rightarrow> (nat \<Rightarrow> char option) option" where
  "write_one r m = (let idx = unat (r mod of_nat (1048576 * MB)) in if m idx = None then None else Some (m(idx \<mapsto> CHR ''.'')))"

definition cow_main :: "(nat \<Rightarrow> u32) \<Rightarrow> (nat \<Rightarrow> char option) option list" where
  "cow_main rnd =
     (let data = (\<lambda>i. if i < SIZE then Some CHR ''_'' else None);
          ps = fork_loop (NPROC - 1) data
      in map (\<lambda>j. write_one (rnd j) (ps ! j)) [0..<length ps])"

lemma fork_loop_eq: "fork_loop k m = replicate (Suc k) m"
  by (induction k) auto

text \<open>
  Copies on write. The loop of cow-test.c makes 1000 processes; every one of them writes
  its one dot inside of the 128 MB, and sees its own dot and no other process's.
\<close>

theorem cow_private:
  "length (cow_main rnd) = NPROC \<and>
   (\<forall>j < NPROC. unat (rnd j) mod SIZE < SIZE \<and> (\<exists>m. cow_main rnd ! j = Some m \<and>
      (\<forall>i. m i = (if i = unat (rnd j) mod SIZE then Some CHR ''.'' else if i < SIZE then Some CHR ''_'' else None))))"
proof -
  have idx: "unat (r mod of_nat (1048576 * MB) :: u32) = unat r mod SIZE" for r
    by (simp add: unat_mod MB_def SIZE_def)
  have lt: "unat r mod SIZE < SIZE" for r :: u32 by (simp add: SIZE_def MB_def)
  then have w: "\<exists>m. write_one r (\<lambda>i. if i < SIZE then Some CHR ''_'' else None) = Some m \<and>
      (\<forall>i. m i = (if i = unat r mod SIZE then Some CHR ''.'' else if i < SIZE then Some CHR ''_'' else None))" for r
    unfolding write_one_def Let_def idx by simp
  have l: "fork_loop (NPROC - 1) m = replicate NPROC m" for m :: "nat \<Rightarrow> char option" by (simp add: fork_loop_eq NPROC_def)
  have "cow_main rnd ! j = write_one (rnd j) (\<lambda>i. if i < SIZE then Some CHR ''_'' else None)" if "j < NPROC" for j
    using that by (simp add: cow_main_def l Let_def del: One_nat_def)
  moreover have "length (cow_main rnd) = NPROC" by (simp add: cow_main_def l Let_def del: One_nat_def)
  ultimately show ?thesis using w lt by simp
qed

subsection \<open>mmap-alloc.c\<close>

definition GiB :: u64 where "GiB = 1024 * 1024 * 1024"

text \<open>\<^verbatim>\<open>int\<close> values in byte memory, little-endian.\<close>

definition store_int :: "u64 \<Rightarrow> u32 \<Rightarrow> (u64 \<Rightarrow> u8) \<Rightarrow> u64 \<Rightarrow> u8" where
  "store_int a v m = m(a := ucast v, a + 1 := ucast (drop_bit 8 v), a + 2 := ucast (drop_bit 16 v), a + 3 := ucast (drop_bit 24 v))"

definition load_int :: "u64 \<Rightarrow> (u64 \<Rightarrow> u8) \<Rightarrow> u32" where
  "load_int a m = ucast (m a) + push_bit 8 (ucast (m (a + 1))) + push_bit 16 (ucast (m (a + 2))) + push_bit 24 (ucast (m (a + 3)))"

text \<open>\<open>Inl 1\<close>: the exit after \<^verbatim>\<open>perror\<close>; \<open>p\<close> is the result of \<^verbatim>\<open>mmap\<close>, \<open>m\<close> the content of
  memory.\<close>

definition mmap_alloc :: "u64 \<Rightarrow> (u64 \<Rightarrow> u8) \<Rightarrow> int + u32 list" where
  "mmap_alloc p m =
     (if p = - 1 then Inl 1
      else let m = store_int (p + 1 * GiB) 114 m; m = store_int (p + 2 * GiB) 514 m
           in Inr [load_int (p + 1 * GiB) m, load_int (p + 2 * GiB) m])"

lemma mmap_alloc_reads: "p \<noteq> - 1 \<Longrightarrow> mmap_alloc p m = Inr [114, 514]"
  by (simp add: mmap_alloc_def store_int_def load_int_def GiB_def)

subsection \<open>env.c, shebang/a.c, execve-demo.c\<close>

text \<open>\<^verbatim>\<open>environ\<close> is an array of pointers that a null pointer (\<open>None\<close>) ends.\<close>

fun env_loop :: "string option list \<Rightarrow> string list" where
  "env_loop (Some e # es) = e # env_loop es"
| "env_loop (None # es) = []"
| "env_loop [] = []"

function argv_loop :: "nat \<Rightarrow> nat \<Rightarrow> string list \<Rightarrow> (nat \<times> string) list" where
  "argv_loop i argc argv = (if i < argc then (i, argv ! i) # argv_loop (Suc i) argc argv else [])"
  by pat_completeness auto
termination by (relation "measure (\<lambda>(i, argc, _). argc - i)") auto

declare argv_loop.simps [simp del]

definition execve_argv :: "string option list" where
  "execve_argv = [Some ''/bin/bash'', Some ''-c'', Some ''env'', None]"

definition execve_envp :: "string option list" where
  "execve_envp = [Some ''HELLO=WORLD'', None]"

text \<open>\<^verbatim>\<open>execve\<close> returns only when it fails; otherwise the new program runs with the strings of
  the two arrays.\<close>

definition execve_demo :: "bool \<Rightarrow> string + (string list \<times> string list)" where
  "execve_demo fails = (if fails then Inl ''Hello, World!'' else Inr (env_loop execve_argv, env_loop execve_envp))"

lemma env_loop_all: "env_loop (map Some es @ None # rest) = es"
  by (induction es) auto

lemma argv_loop_all: "i \<le> length argv \<Longrightarrow> argv_loop i (length argv) argv = zip [i..<length argv] (drop i argv)"
proof (induction "length argv - i" arbitrary: i)
  case 0
  then show ?case by (subst argv_loop.simps) simp
next
  case (Suc n)
  then have "i < length argv" by linarith
  then show ?case using Suc.hyps(1) [of "Suc i"] Suc.hyps(2)
    by (subst argv_loop.simps) (simp add: Cons_nth_drop_Suc [symmetric] upt_conv_Cons)
qed

text \<open>When the execution succeeds, the printed environment is the one entry, whatever that of the caller.\<close>

lemma execve_demo_env: "execve_demo False = Inr ([''/bin/bash'', ''-c'', ''env''], [''HELLO=WORLD''])"
  by (simp add: execve_demo_def execve_argv_def execve_envp_def)

subsection \<open>relocation/hello.c\<close>

text \<open>The call of \<^verbatim>\<open>hello\<close> in \<^verbatim>\<open>main\<close> is the instruction at \<open>main + 6\<close>; its
  32-bit operand, at \<open>main + 7\<close>, is filled in by the linker. \<open>text\<close> is the code in memory, read as a
  signed number.\<close>

definition reloc_assert :: "(u64 \<Rightarrow> 32 word) \<Rightarrow> u64 \<Rightarrow> u64 \<Rightarrow> bool" where
  "reloc_assert text main hello =
     (let p = main + 6 + 1; offset = text p in main + 0xb + scast offset = hello)"

text \<open>What the ABI documents of the relocation R_X86_64_PLT32 for a symbol in the same program: the
  field at \<open>P\<close> gets \<open>S + A - P\<close>, cut to 32 bits, with the addend -4 of a call; the linker
  refuses the program when the value does not fit.\<close>

definition linked_call :: "(u64 \<Rightarrow> 32 word) \<Rightarrow> u64 \<Rightarrow> u64 \<Rightarrow> bool" where
  "linked_call text P S \<longleftrightarrow> text P = ucast (S + - 4 - P) \<and> - (2 ^ 31) \<le> sint (S + - 4 - P) \<and> sint (S + - 4 - P) < 2 ^ 31"

lemma scast_ucast_32: "- (2 ^ 31) \<le> sint x \<Longrightarrow> sint x < 2 ^ 31 \<Longrightarrow> scast (ucast (x :: u64) :: 32 word) = x"
proof -
  assume "- (2 ^ 31) \<le> sint x" "sint x < 2 ^ 31"
  moreover have "(ucast x :: 32 word) = scast x" by transfer (simp add: take_bit_signed_take_bit)
  moreover have "sint (scast x :: 32 word) = signed_take_bit 31 (sint x)" by (simp add: signed_scast_eq)
  ultimately have "sint (ucast x :: 32 word) = sint x" by (simp add: signed_take_bit_int_eq_self)
  then show ?thesis by (simp add: scast_eq)
qed

text \<open>
  The assertion of \<^verbatim>\<open>hello\<close> holds in every program that the linker accepts: the operand of the
  call, added to the address of the next instruction, is the address of the called function.
\<close>

theorem reloc_assert_holds: "linked_call text (main + 7) hello \<Longrightarrow> reloc_assert text main hello"
proof -
  assume l: "linked_call text (main + 7) hello"
  then have "scast (text (main + 7)) = hello + - 4 - (main + 7)" unfolding linked_call_def by (metis scast_ucast_32)
  then show ?thesis by (simp add: reloc_assert_def Let_def add.commute [of main 7])
qed

theorem reloc_assert_holds_witness:
  "linked_call (\<lambda>_. 0x175) (0x1060 + 7) 0x11e0 \<and> reloc_assert (\<lambda>_. 0x175) 0x1060 0x11e0"
  using reloc_assert_holds [of "\<lambda>_. 0x175" "0x1060" "0x11e0"] by (simp add: linked_call_def)

subsection \<open>baremetal-hello\<close>

text \<open>The hosted branch: characters on standard output, and the exit.\<close>

datatype host = HostPut u32 | HostDec u32 | HostExit int

text \<open>The bare branch: a break instruction with the operation in \<open>a0\<close> and the value in \<open>a1\<close> (\<open>halt\<close>
  leaves the second register as it is).\<close>

record ebreak =
  a0 :: u32
  a1 :: "u32 option"

definition putch_host :: "u32 \<Rightarrow> host" where "putch_host ch = HostPut ch"
definition putd_host :: "u32 \<Rightarrow> host" where "putd_host d = HostDec d"
definition halt_host :: host where "halt_host = HostExit 0"

definition putch_bare :: "u32 \<Rightarrow> ebreak" where "putch_bare ch = \<lparr>a0 = 1, a1 = Some ch\<rparr>"
definition putd_bare :: "u32 \<Rightarrow> ebreak" where "putd_bare d = \<lparr>a0 = 2, a1 = Some d\<rparr>"
definition halt_bare :: ebreak where "halt_bare = \<lparr>a0 = 3, a1 = None\<rparr>"

text \<open>The program over either set of functions.\<close>

definition entry_prog :: "(u32 \<Rightarrow> 'e) \<Rightarrow> 'e \<Rightarrow> 'e list" where
  "entry_prog putch halt = [putch 72, putch 105, putch 10, halt]"

text \<open>A machine that serves the break instructions the way the hosted functions act.\<close>

definition serve :: "ebreak \<Rightarrow> host option" where
  "serve e =
     (if a0 e = 1 then map_option HostPut (a1 e)
      else if a0 e = 2 then map_option HostDec (a1 e)
      else if a0 e = 3 then Some (HostExit 0) else None)"

text \<open>The two branches of the header agree, operation by operation, and so do the two programs.\<close>

lemma baremetal_agrees:
  "serve (putch_bare ch) = Some (putch_host ch)" "serve (putd_bare d) = Some (putd_host d)" "serve halt_bare = Some halt_host"
  "map serve (entry_prog putch_bare halt_bare) = map Some (entry_prog putch_host halt_host)"
  by (simp_all add: serve_def putch_bare_def putd_bare_def halt_bare_def putch_host_def putd_host_def halt_host_def entry_prog_def)

end
