(* ===== verification/Spec2Isabelle.thy ===== *)
theory Spec2Isabelle
  imports Hanoi Shell_Main Race Fish Producer_Consumer Peterson Philosopher Dlbox Bootmain Midterm_V1 Midterm_Tle Dfs_Fork Loader
    Litmus Dosbox Launcher Ext2_Dir Dsu Bit_Programs Mandelbrot Posix_Spawn Fork_Demos Dl_Format Flock Unwind
    Thread_Demos Process_Demos
begin

text \<open>
  A verification library for the example programs of an operating systems course (the C programs
  under \<^verbatim>\<open>src/\<close>). The programs are small and independent of each other, except that the
  concurrent ones share \<^verbatim>\<open>thread.h\<close> and \<^verbatim>\<open>thread-sync.h\<close>. Each theory is a shallow embedding of
  one of them: structs are records, enumerations are datatypes, every C function is a HOL function of
  the same name where that is possible, a failed assertion, a crash or an error return is a value.

  \<^bold>\<open>Shared.\<close> \<open>Prelude\<close>: reachability and the interface \<open>invariant_system\<close>, buffers, words. \<open>Aligned_Words\<close>:
  rounding addresses down, for the loader and the code patcher.
  \<open>Threads\<close> (\<^verbatim>\<open>concurrency/include/thread.h\<close>): the thread pool, and the way all concurrent
  programs are modelled: a function gives the next atomic step of a thread (every access to a shared
  variable is a step, \<open>None\<close> is a blocked or ended thread), a program makes any step of any thread; the
  interface \<open>threads_invariant\<close> turns an invariant kept by every step into one of every reachable state,
  and \<open>threads_measure\<close> a measure that every step makes smaller into a bound on every schedule.
  \<open>Sync\<close> (\<^verbatim>\<open>thread-sync.h\<close>): spinlock, mutex, semaphore, and the interface \<open>lock\<close> with its client
  \<^verbatim>\<open>sum-scalability.c\<close>.

  \<^bold>\<open>The shell\<close> (\<^verbatim>\<open>shell/sh-xv6.c\<close>). \<open>Shell_Lex\<close>: strings, \<open>gettoken\<close>, \<open>peek\<close>.
  \<open>Shell_Parse\<close>: the arena, the nodes, the recursive-descent parser, \<open>nulterminate\<close>; the recursion has
  fuel \<open>4 * length + 4\<close>, which \<open>Shell_Safe\<close> proves to be enough, together with the absence of bad accesses
  and the fact that the terminated strings are the words of the line. \<open>Shell_Run\<close>: \<open>runcmd\<close> as a
  program over system calls (forks included), shown equal to running the command tree, and the plumbing
  of pipes and redirections over the interface \<open>fd_kernel\<close>. \<open>Shell_Main\<close>: \<open>getcmd\<close> and the main loop,
  which handles its input line by line, and a line too long for its buffer in pieces of 99 characters.

  \<^bold>\<open>Concurrency.\<close> \<open>Race\<close>: unlocked additions (\<^verbatim>\<open>sum.c\<close>, \<^verbatim>\<open>midterm-demo.c\<close>).
  \<open>Fish\<close>, \<open>Producer_Consumer\<close> (mutex, condition variable, semaphore), \<open>Philosopher\<close>: the output
  is as specified, and there is no deadlock. \<open>Store_Buffer\<close>: the memory of an x86 machine; on it, and on a
  sequentially consistent memory, \<open>Peterson\<close> in two versions and \<open>Litmus\<close> (\<^verbatim>\<open>mem-ordering.c\<close>), whose rounds stay
  apart and whose output tells the two memories apart. \<open>Mandelbrot\<close>: the picture does not depend on the
  interleaving, for any arithmetic, and which columns are left out. \<open>Midterm\<close> (the locked sum, \<^verbatim>\<open>midterm-v2.c\<close>), \<open>Midterm_V1\<close>,
  \<open>Midterm_Tle\<close>: three solutions of one exercise; all have the right sum when they end, the first of
  them need not end, whatever the number of its threads. Condition variables have spurious wake-ups throughout. \<open>Thread_Demos\<close>: the programs
  without any synchronisation (\<^verbatim>\<open>hello.c\<close>, \<^verbatim>\<open>memset-race.c\<close>, \<^verbatim>\<open>printf-race.c\<close>,
  \<^verbatim>\<open>shm-test.c\<close>, \<^verbatim>\<open>working-directory.c\<close>, \<^verbatim>\<open>stack-probe.c\<close>): which outputs the races
  allow, and which bounds hold all the same.

  \<^bold>\<open>Loaders.\<close> \<open>Dlbox\<close> (\<^verbatim>\<open>dl/dlbox.c\<close>, \<^verbatim>\<open>dl.h\<close>): a dynamic loader and its command line;
  \<open>dlopen\<close> and \<open>dlload\<close> call each other with fuel, and one unit more than the number of free entries of the
  library table is enough. \<open>Dl_Format\<close>: the assembler macros that write its files, the bytes of a file and
  how the loader reads them back; the loader and the format together load the three libraries of the
  directory. \<open>Bootmain\<close> (\<^verbatim>\<open>virtualization/bootmain.c\<close>): from the ATA ports to the
  kernel in memory. \<open>Loader\<close> (\<^verbatim>\<open>virtualization/loader-static.c\<close>): segments by \<open>mmap\<close>, on a memory
  with pages and protection where a forbidden write is a fault, and the initial stack within the bounds
  of its array; when loading succeeds and when it faults, which stacks fit, and what the program finds.

  \<^bold>\<open>Algorithms.\<close> \<open>Hanoi\<close>: the explicit-stack version prints what the recursive one prints, and that
  solves the puzzle. \<open>Dfs_Fork\<close> (\<^verbatim>\<open>virtualization/dfs-fork.c\<close>): the search by forking shows every
  simple path once.

  \<^bold>\<open>Memory, devices and formats.\<close> \<open>Dosbox\<close> (\<^verbatim>\<open>virtualization/dosbox-hack.c\<close>): what a session of searches
  finds and what is overwritten. \<open>Dsu\<close> (\<^verbatim>\<open>dsu.c\<close>): the patched jump and the pages around it. \<open>Launcher\<close>
  (\<^verbatim>\<open>linux-minimal/launcher/launcher.c\<close>, \<^verbatim>\<open>initramfs/code/nuke.c\<close>): the read and write
  operations of a device, its client, loading and unloading. \<open>Ext2\<close> (\<^verbatim>\<open>persistence/ext2.h\<close>): the
  layout of C structures in general and of the on-disk structures, feature sets on the bytes of a super block, mount options,
  flag masks, record lengths and block groups; \<open>Ext2_Dir\<close>: the two versions of a directory entry, the features by name, the
  inherited flags. \<open>Bit_Programs\<close>: \<^verbatim>\<open>popcount.c\<close>,
  \<^verbatim>\<open>logisim.c\<close>, \<^verbatim>\<open>pci-probe.c\<close>.

  \<^bold>\<open>Processes.\<close> \<open>Posix_Spawn\<close> (\<^verbatim>\<open>virtualization/posix-spawn.c\<close>): the calls made, in success and
  after a failure, and the monitoring of the child. \<open>Fork_Demos\<close>: what \<^verbatim>\<open>fork-demo.c\<close>,
  \<^verbatim>\<open>fork-printf.c\<close> and \<^verbatim>\<open>fork-offset.c\<close> show of the state inherited at a fork.
  \<open>Flock\<close> (\<^verbatim>\<open>flock/flock-demo.c\<close>, \<^verbatim>\<open>run.sh\<close>): file locks taken in one order end, in
  opposite orders they can deadlock. \<open>Unwind\<close> (\<^verbatim>\<open>virtualization/unwind.c\<close>): the stack that nested calls
  leave and what the unwinder prints of it; its loop is a partial function, with proofs of when it ends.
  \<open>Process_Demos\<close>: \<^verbatim>\<open>exit-demo.c\<close>, \<^verbatim>\<open>signal-handler.c\<close> (with the default actions of
  the signals it has no handler for), \<^verbatim>\<open>cow-test.c\<close>,
  \<^verbatim>\<open>mmap-alloc.c\<close>, \<^verbatim>\<open>env.c\<close>, \<^verbatim>\<open>execve-demo.c\<close>, \<^verbatim>\<open>shebang/a.c\<close>,
  \<^verbatim>\<open>relocation/hello.c\<close> and \<^verbatim>\<open>baremetal-hello/\<close>.

  \<^bold>\<open>Interfaces.\<close> Code outside the repository is a parameter with laws: the kernel's descriptors
  (\<open>fd_kernel\<close>), \<open>mmap\<close> (\<open>file_mapping\<close> and, where it grants the requests, \<open>granting_mapping\<close>), the copy to user memory
  (\<open>user_copy\<close>), \<open>mprotect\<close>, the library calls of \<^verbatim>\<open>posix-spawn.c\<close>, the arithmetic on doubles, the
  constants of other kernel headers, the disk, the opened and mapped files of the dynamic loader, the
  function \<open>f\<close> of the midterm programs, the hardware abstraction layer's constants. \<open>symtab\<close> and \<open>elf_class\<close>
  state what the dynamic loader's symbol table and the two ELF layouts provide to their clients. Every
  interface is interpreted on the definitions of the model.

  \<^bold>\<open>Bounds.\<close> C integers are words where the code depends on their width (addresses, ELF fields,
  ports) and unbounded where it does not (counters and sums, whose overflow is not considered). Strings
  are character lists; positions in buffers are natural numbers with explicit bounds.

  \<^bold>\<open>Not modelled.\<close> Programs that only print the time (\<^verbatim>\<open>vdso.c\<close>) or a fixed line, the failure of
  \<^verbatim>\<open>fork\<close> in the demonstrations, machine code (of the libraries of \<open>dl/\<close> only the records and labels are
  given), the colours of \<^verbatim>\<open>mandelbrot.c\<close> (by \<^verbatim>\<open>pow\<close>), the prototypes, in-memory structures and
  constants without an operation of \<^verbatim>\<open>ext2.h\<close>, the assembly files of \<^verbatim>\<open>minimal-hello\<close>, and
  everything that is in another language.
\<close>

end
